(* ===== verification/EVA_Prelude.thy ===== *)
theory EVA_Prelude
  imports Main "HOL-Library.Word" "HOL-Library.Multiset"
begin

text \<open>
  Shared vocabulary of the development: the machine integers of the C++ code, results of
  operations that may abort, the parts of \<open>std::vector\<close> the code relies on, and the lemma
  collections that carry the component proofs.
\<close>

unbundle bit_operations_syntax

section \<open>Lemma collections\<close>

named_theorems res_simps \<open>computation rules of the result monad\<close>
named_theorems vec_simps \<open>indexing and resizing of vectors\<close>

section \<open>Machine integers\<close>

type_synonym u64 = "64 word"
type_synonym u32 = "32 word"

lemma word_less_Suc: "x \<noteq> -1 \<Longrightarrow> x < x + 1" for x :: "'a::len word"
proof -
  assume "x \<noteq> -1"
  then have "1 + x \<noteq> 0"
    by (metis add.commute add_eq_0_iff2)
  then have "unat (1 + x) = Suc (unat x)"
    by (rule unatSuc)
  then show ?thesis
    by (simp add: word_less_nat_alt add.commute)
qed

text \<open>A C \<open>int\<close> is kept as an \<^typ>\<open>int\<close>; where the code narrows to it, the narrowing is written out.\<close>

type_synonym c_int = int

definition to_c_int :: "int \<Rightarrow> c_int" where
  "to_c_int x = sint (word_of_int x :: u32)"

section \<open>Operations that may abort\<close>

text \<open>
  A failed \<open>ASSERT\<close> ends in \<open>assert\<close> and so in \<open>abort\<close>; an access outside a vector, a null
  dereference, an access to an object after its destruction and an exception are likewise results
  of their own.
\<close>

datatype eva_error =
    AssertFail
  | OutOfBounds
  | NullDeref
  | LogicError string
  | ThreadExit
  | UseAfterFree

type_synonym 'a result = "eva_error + 'a"

primrec res_bind :: "'a result \<Rightarrow> ('a \<Rightarrow> 'b result) \<Rightarrow> 'b result" where
  "res_bind (Inl e) k = Inl e"
| "res_bind (Inr x) k = k x"

declare res_bind.simps [res_simps]

definition ASSERT :: "bool \<Rightarrow> 'a result \<Rightarrow> 'a result" where
  "ASSERT c k = (if c then k else Inl AssertFail)"

lemma ASSERT_True [simp, res_simps]: "ASSERT True k = k"
  by (simp add: ASSERT_def)

lemma ASSERT_False [simp, res_simps]: "ASSERT False k = Inl AssertFail"
  by (simp add: ASSERT_def)

lemma ASSERT_Inr [simp]: "ASSERT c k = Inr x \<longleftrightarrow> c \<and> k = Inr x"
  by (simp add: ASSERT_def)

lemma res_bind_Inr [simp]: "res_bind m k = Inr y \<longleftrightarrow> (\<exists>x. m = Inr x \<and> k x = Inr y)"
  by (cases m) simp_all

lemma res_bind_Inl:
  "res_bind m k = Inl e \<longleftrightarrow> m = Inl e \<or> (\<exists>x. m = Inr x \<and> k x = Inl e)"
  by (cases m) simp_all

lemma res_bind_assoc: "res_bind (res_bind m f) g = res_bind m (\<lambda>x. res_bind (f x) g)"
  by (cases m) simp_all

section \<open>\<open>std::vector\<close>\<close>

definition vec_at :: "'a list \<Rightarrow> c_int \<Rightarrow> 'a result" where
  "vec_at xs i = (if 0 \<le> i \<and> i < int (length xs) then Inr (xs ! nat i) else Inl OutOfBounds)"

definition vec_set :: "'a list \<Rightarrow> c_int \<Rightarrow> 'a \<Rightarrow> 'a list result" where
  "vec_set xs i v =
     (if 0 \<le> i \<and> i < int (length xs) then Inr (xs[nat i := v]) else Inl OutOfBounds)"

definition vec_resize :: "nat \<Rightarrow> 'a \<Rightarrow> 'a list \<Rightarrow> 'a list" where
  "vec_resize n d xs = take n xs @ replicate (n - length xs) d"

text \<open>
  \<open>resize(fd * 1.5)\<close>: the product is a \<open>double\<close>, exact for every \<open>int\<close>, and the conversion
  to \<open>size_t\<close> truncates.
\<close>

definition grown_size :: "c_int \<Rightarrow> nat" where
  "grown_size fd = nat (fd * 3 div 2)"

lemma length_vec_resize [simp, vec_simps]: "length (vec_resize n d xs) = n"
  by (simp add: vec_resize_def)

lemma nth_vec_resize [vec_simps]:
  "i < n \<Longrightarrow> vec_resize n d xs ! i = (if i < length xs then xs ! i else d)"
  by (auto simp: vec_resize_def nth_append)

lemma grown_size_gt: "2 \<le> fd \<Longrightarrow> fd < int (grown_size fd)"
  by (simp add: grown_size_def)

lemma vec_at_Inr [simp]:
  "vec_at xs i = Inr x \<longleftrightarrow> 0 \<le> i \<and> i < int (length xs) \<and> x = xs ! nat i"
  by (auto simp: vec_at_def)

lemma vec_set_Inr [simp]:
  "vec_set xs i v = Inr ys \<longleftrightarrow> 0 \<le> i \<and> i < int (length xs) \<and> ys = xs[nat i := v]"
  by (auto simp: vec_set_def)

lemma of_nat_u64_eq_0:
  assumes "(of_nat n :: u64) = 0" "n < 2 ^ 64"
  shows "n = 0"
  using arg_cong [OF assms(1), of unat] assms(2) by (simp add: unat_of_nat)

section \<open>Counting the threads in a state\<close>

lemma card_fun_upd:
  assumes "finite {t. P (f t)}"
  shows "(of_nat (card {u. P ((f(t := x)) u)}) :: 'a::comm_ring_1) =
         of_nat (card {u. P (f u)}) + of_bool (P x) - of_bool (P (f t))"
proof -
  define R where "R = {u. P (f u)} - {t}"
  have R: "finite R" "t \<notin> R"
    using assms by (auto simp: R_def)
  have "{u. P ((f(t := x)) u)} = (if P x then insert t R else R)"
    by (auto simp: R_def)
  then have new: "card {u. P ((f(t := x)) u)} = card R + of_bool (P x)"
    using R by simp
  have "{u. P (f u)} = (if P (f t) then insert t R else R)"
    by (auto simp: R_def)
  then have "card {u. P (f u)} = card R + of_bool (P (f t))"
    using R by simp
  with new show ?thesis
    by (simp add: of_bool_def)
qed

lemma finite_fun_upd:
  "finite {u. P ((f(t := x)) u)} \<longleftrightarrow> finite {u. P (f u)}"
proof -
  have "{u. P ((f(t := x)) u)} \<subseteq> insert t {u. P (f u)}" "{u. P (f u)} \<subseteq> insert t {u. P ((f(t := x)) u)}"
    by (auto split: if_splits)
  then show ?thesis
    by (meson finite_insert finite_subset)
qed

end
