(* ===== verification/EVA_Mutex.thy ===== *)
theory EVA_Mutex
  imports EVA_Prelude
begin

text \<open>
  \<open>src/src/mutex.h\<close>: the owner-recording \<open>Mutex\<close>, its scoped guard, and the read and write
  guards of \<open>RWMutex\<close>. The pthread mutex is a parameter: a record of the two calls, with
  their documented contract as the predicate \<open>pthread_mutex_spec\<close>. Threads interleave between
  the pthread call and the write of \<open>m_thread\<close>, so \<open>lock\<close> and \<open>unlock\<close> are two steps each.
  The calls a guard makes on its \<open>RWMutex\<close> are recorded as a list.
\<close>

section \<open>\<open>Mutex\<close>\<close>

type_synonym pid = int

record 'm pthread_mutex_ops =
  pthread_mutex_lock :: "pid \<Rightarrow> 'm \<Rightarrow> 'm option"  \<comment> \<open>\<open>None\<close>: the caller blocks\<close>
  pthread_mutex_unlock :: "pid \<Rightarrow> 'm \<Rightarrow> 'm"

definition pthread_mutex_spec :: "'m pthread_mutex_ops \<Rightarrow> 'm \<Rightarrow> ('m \<Rightarrow> pid option) \<Rightarrow> bool" where
  "pthread_mutex_spec ops init owner \<longleftrightarrow>
     owner init = None \<and>
     (\<forall>t m m'. pthread_mutex_lock ops t m = Some m' \<longrightarrow> owner m = None \<and> owner m' = Some t) \<and>
     (\<forall>t m. owner m = Some t \<longrightarrow> owner (pthread_mutex_unlock ops t m) = None)"

record 'm Mutex =
  m_mutex :: 'm
  m_thread :: pid

definition Mutex_ctor :: "'m \<Rightarrow> 'm Mutex" where
  "Mutex_ctor init = \<lparr>m_mutex = init, m_thread = 0\<rparr>"

definition Mutex_dtor :: "'m Mutex \<Rightarrow> unit result" where
  "Mutex_dtor mx = ASSERT (m_thread mx = 0) (Inr ())"

text \<open>The two atomic parts of \<open>lock()\<close> and of \<open>unlock()\<close>, run by thread \<open>t\<close> (\<open>GetThreadId()\<close>).\<close>

definition lock_acquire :: "'m pthread_mutex_ops \<Rightarrow> pid \<Rightarrow> 'm Mutex \<Rightarrow> 'm Mutex option" where
  "lock_acquire ops t mx =
     map_option (\<lambda>m. mx\<lparr>m_mutex := m\<rparr>) (pthread_mutex_lock ops t (m_mutex mx))"

definition lock_record :: "pid \<Rightarrow> 'm Mutex \<Rightarrow> 'm Mutex" where
  "lock_record t mx = mx\<lparr>m_thread := t\<rparr>"

definition unlock_record :: "'m Mutex \<Rightarrow> 'm Mutex" where
  "unlock_record mx = mx\<lparr>m_thread := 0\<rparr>"

definition unlock_release :: "'m pthread_mutex_ops \<Rightarrow> pid \<Rightarrow> 'm Mutex \<Rightarrow> 'm Mutex" where
  "unlock_release ops t mx = mx\<lparr>m_mutex := pthread_mutex_unlock ops t (m_mutex mx)\<rparr>"

definition Mutex_lock :: "'m pthread_mutex_ops \<Rightarrow> pid \<Rightarrow> 'm Mutex \<Rightarrow> 'm Mutex option" where
  "Mutex_lock ops t mx = map_option (lock_record t) (lock_acquire ops t mx)"

definition Mutex_unlock :: "'m pthread_mutex_ops \<Rightarrow> pid \<Rightarrow> 'm Mutex \<Rightarrow> 'm Mutex" where
  "Mutex_unlock ops t mx = unlock_release ops t (unlock_record mx)"

definition isLockedByThisThread :: "pid \<Rightarrow> 'm Mutex \<Rightarrow> bool" where
  "isLockedByThisThread t mx \<longleftrightarrow> m_thread mx = t"

text \<open>\<open>MutexGuard\<close> locks in its constructor and unlocks in its destructor around a body.\<close>

definition MutexGuard_scope ::
  "'m pthread_mutex_ops \<Rightarrow> pid \<Rightarrow> ('m Mutex \<Rightarrow> 'm Mutex) \<Rightarrow> 'm Mutex \<Rightarrow> 'm Mutex option" where
  "MutexGuard_scope ops t body mx =
     map_option (\<lambda>mx'. Mutex_unlock ops t (body mx')) (Mutex_lock ops t mx)"

subsection \<open>Threads using one mutex\<close>

datatype mutex_pc = Outside | Acquired | Inside | Releasing

record 'm mutex_sys =
  mtx :: "'m Mutex"
  at :: "pid \<Rightarrow> mutex_pc"

definition mutex_init :: "'m \<Rightarrow> 'm mutex_sys" where
  "mutex_init init = \<lparr>mtx = Mutex_ctor init, at = (\<lambda>_. Outside)\<rparr>"

inductive mutex_step :: "'m pthread_mutex_ops \<Rightarrow> 'm mutex_sys \<Rightarrow> 'm mutex_sys \<Rightarrow> bool" for ops where
  step_acquire:
    "at s t = Outside \<Longrightarrow> 0 < t \<Longrightarrow> lock_acquire ops t (mtx s) = Some mx \<Longrightarrow>
     mutex_step ops s (s\<lparr>mtx := mx, at := (at s)(t := Acquired)\<rparr>)"
| step_record:
    "at s t = Acquired \<Longrightarrow>
     mutex_step ops s (s\<lparr>mtx := lock_record t (mtx s), at := (at s)(t := Inside)\<rparr>)"
| step_unrecord:
    "at s t = Inside \<Longrightarrow>
     mutex_step ops s (s\<lparr>mtx := unlock_record (mtx s), at := (at s)(t := Releasing)\<rparr>)"
| step_release:
    "at s t = Releasing \<Longrightarrow>
     mutex_step ops s (s\<lparr>mtx := unlock_release ops t (mtx s), at := (at s)(t := Outside)\<rparr>)"

inductive mutex_reach :: "'m pthread_mutex_ops \<Rightarrow> 'm \<Rightarrow> 'm mutex_sys \<Rightarrow> bool" for ops init where
  reach_init: "mutex_reach ops init (mutex_init init)"
| reach_step: "mutex_reach ops init s \<Longrightarrow> mutex_step ops s s' \<Longrightarrow> mutex_reach ops init s'"

definition mutex_inv :: "('m \<Rightarrow> pid option) \<Rightarrow> 'm mutex_sys \<Rightarrow> bool" where
  "mutex_inv owner s \<longleftrightarrow>
     (\<forall>t. at s t \<noteq> Outside \<longrightarrow> owner (m_mutex (mtx s)) = Some t \<and> 0 < t) \<and>
     (\<forall>t. at s t = Inside \<longrightarrow> m_thread (mtx s) = t) \<and>
     (m_thread (mtx s) \<noteq> 0 \<longrightarrow> at s (m_thread (mtx s)) = Inside)"

lemma mutex_invD:
  assumes "mutex_inv owner s"
  shows "at s t \<noteq> Outside \<Longrightarrow> owner (m_mutex (mtx s)) = Some t"
    and "at s t \<noteq> Outside \<Longrightarrow> 0 < t"
    and "at s t = Inside \<Longrightarrow> m_thread (mtx s) = t"
    and "m_thread (mtx s) \<noteq> 0 \<Longrightarrow> at s (m_thread (mtx s)) = Inside"
  using assms unfolding mutex_inv_def by blast+

text \<open>Only one thread at a time is past \<open>pthread_mutex_lock\<close>.\<close>

lemma mutex_inv_unique:
  "mutex_inv owner s \<Longrightarrow> at s t \<noteq> Outside \<Longrightarrow> at s t' \<noteq> Outside \<Longrightarrow> t = t'"
  using mutex_invD(1) [of owner s t] mutex_invD(1) [of owner s t'] by simp

lemma mutex_inv_init: "pthread_mutex_spec ops init owner \<Longrightarrow> mutex_inv owner (mutex_init init)"
  by (auto simp: mutex_inv_def mutex_init_def Mutex_ctor_def pthread_mutex_spec_def)

lemma mutex_inv_step:
  assumes "mutex_step ops s s'" and "pthread_mutex_spec ops init owner" and "mutex_inv owner s"
  shows "mutex_inv owner s'"
  using assms
proof (induction rule: mutex_step.induct)
  case (step_acquire s t mx)
  then obtain m where m: "pthread_mutex_lock ops t (m_mutex (mtx s)) = Some m"
      and mx: "mx = (mtx s)\<lparr>m_mutex := m\<rparr>"
    by (auto simp: lock_acquire_def)
  then have "owner (m_mutex (mtx s)) = None" "owner m = Some t"
    using step_acquire.prems(1) by (auto simp: pthread_mutex_spec_def)
  with mutex_invD [OF step_acquire.prems(2)] step_acquire.hyps mx show ?case
    unfolding mutex_inv_def by (auto; fastforce)
next
  case (step_record s t)
  then have "at s u = Outside" if "u \<noteq> t" for u
    using mutex_inv_unique [of owner s t u] that by fastforce
  with mutex_invD [OF step_record.prems(2)] step_record.hyps show ?case
    unfolding mutex_inv_def lock_record_def by auto
next
  case (step_unrecord s t)
  then have "at s u = Outside" if "u \<noteq> t" for u
    using mutex_inv_unique [of owner s t u] that by fastforce
  with mutex_invD [OF step_unrecord.prems(2)] step_unrecord.hyps show ?case
    unfolding mutex_inv_def unlock_record_def by auto
next
  case (step_release s t)
  then have "at s u = Outside" if "u \<noteq> t" for u
    using mutex_inv_unique [of owner s t u] that by fastforce
  moreover have "m_thread (mtx s) = 0"
    using mutex_invD(3,4) [OF step_release.prems(2)] step_release.hyps calculation
    by (metis mutex_pc.distinct)
  ultimately show ?case
    unfolding mutex_inv_def unlock_release_def by auto
qed

lemma mutex_reach_inv:
  assumes "mutex_reach ops init s" and "pthread_mutex_spec ops init owner"
  shows "mutex_inv owner s"
  using assms by (induction rule: mutex_reach.induct) (auto intro: mutex_inv_init mutex_inv_step)

text \<open>
  C26. In every interleaving, \<open>isLockedByThisThread()\<close> answers true exactly to the thread that is
  between the end of its \<open>lock()\<close> and the start of its \<open>unlock()\<close>; at most one thread is there,
  and when every thread is outside, the destructor's assertion holds.
\<close>

theorem isLockedByThisThread_exact:
  assumes "mutex_reach ops init s" and "pthread_mutex_spec ops init owner"
  shows "(0 < t \<longrightarrow> isLockedByThisThread t (mtx s) = (at s t = Inside)) \<and>
         (at s t = Inside \<and> at s t' = Inside \<longrightarrow> t = t') \<and>
         ((\<forall>u. at s u = Outside) \<longrightarrow> Mutex_dtor (mtx s) = Inr ())"
proof -
  have inv: "mutex_inv owner s"
    using assms by (rule mutex_reach_inv)
  have "m_thread (mtx s) = 0" if "\<forall>u. at s u = Outside"
    using mutex_invD(4) [OF inv] that by fastforce
  moreover have "t = t'" if "at s t = Inside" "at s t' = Inside"
    using mutex_invD(3) [OF inv] that by blast
  moreover have "isLockedByThisThread t (mtx s) = (at s t = Inside)" if "0 < t"
    using mutex_invD(3,4) [OF inv] that unfolding isLockedByThisThread_def by fastforce
  ultimately show ?thesis
    by (simp add: Mutex_dtor_def)
qed

definition example_mutex_ops :: "pid option pthread_mutex_ops" where
  "example_mutex_ops =
     \<lparr>pthread_mutex_lock = (\<lambda>t m. if m = None then Some (Some t) else None),
      pthread_mutex_unlock = (\<lambda>t m. None)\<rparr>"

lemma example_mutex_spec: "pthread_mutex_spec example_mutex_ops None (\<lambda>m. m)"
  by (auto simp: pthread_mutex_spec_def example_mutex_ops_def split: if_splits)

lemma example_mutex_reach:
  "mutex_reach example_mutex_ops None
     \<lparr>mtx = \<lparr>m_mutex = Some 7, m_thread = 7\<rparr>, at = (\<lambda>_. Outside)(7 := Inside)\<rparr>"
proof -
  let ?s1 = "\<lparr>mtx = \<lparr>m_mutex = Some 7, m_thread = 0\<rparr>, at = (\<lambda>_. Outside)(7 := Acquired)\<rparr>"
  have "mutex_step example_mutex_ops (mutex_init None) ?s1"
    using mutex_step.step_acquire [of "mutex_init None" 7 example_mutex_ops "\<lparr>m_mutex = Some 7, m_thread = 0\<rparr>"]
    by (simp add: mutex_init_def Mutex_ctor_def lock_acquire_def example_mutex_ops_def)
  moreover have "mutex_step example_mutex_ops ?s1
      \<lparr>mtx = \<lparr>m_mutex = Some 7, m_thread = 7\<rparr>, at = (\<lambda>_. Outside)(7 := Inside)\<rparr>"
    using mutex_step.step_record [of ?s1 7 example_mutex_ops]
    by (simp add: lock_record_def)
  ultimately show ?thesis
    by (blast intro: mutex_reach.intros)
qed

theorem isLockedByThisThread_exact_witness:
  "isLockedByThisThread 7 \<lparr>m_mutex = Some (7 :: pid), m_thread = 7\<rparr> \<and>
   \<not> isLockedByThisThread 8 \<lparr>m_mutex = Some (7 :: pid), m_thread = 7\<rparr>"
  using isLockedByThisThread_exact [OF example_mutex_reach example_mutex_spec, of 7 7]
    isLockedByThisThread_exact [OF example_mutex_reach example_mutex_spec, of 8 7]
  by simp

section \<open>Guards of \<open>RWMutex\<close>\<close>

datatype rw_call = Rdlock | Wrlock | RwUnlock

record Guard =
  m_locked :: bool

definition MutexReadGuard_ctor :: "Guard \<times> rw_call list" where
  "MutexReadGuard_ctor = (\<lparr>m_locked = True\<rparr>, [Rdlock])"

definition MutexReadGuard_lock :: "Guard \<Rightarrow> Guard \<times> rw_call list" where
  "MutexReadGuard_lock g = (if \<not> m_locked g then (g\<lparr>m_locked := True\<rparr>, [Rdlock]) else (g, []))"

definition MutexReadGuard_unlock :: "Guard \<Rightarrow> Guard \<times> rw_call list" where
  "MutexReadGuard_unlock g = (if m_locked g then (g\<lparr>m_locked := False\<rparr>, [RwUnlock]) else (g, []))"

definition MutexReadGuard_dtor :: "Guard \<Rightarrow> rw_call list" where
  "MutexReadGuard_dtor g = snd (MutexReadGuard_unlock g)"

text \<open>
  The constructor of \<open>MutexWriteGuard\<close> takes the lock and leaves \<open>m_locked\<close> as the memory held
  it; that value is the argument.
\<close>

definition MutexWriteGuard_ctor :: "bool \<Rightarrow> Guard \<times> rw_call list" where
  "MutexWriteGuard_ctor uninit = (\<lparr>m_locked = uninit\<rparr>, [Wrlock])"

definition MutexWriteGuard_lock :: "Guard \<Rightarrow> Guard \<times> rw_call list" where
  "MutexWriteGuard_lock g = (if \<not> m_locked g then (g\<lparr>m_locked := True\<rparr>, [Wrlock]) else (g, []))"

definition MutexWriteGuard_unlock :: "Guard \<Rightarrow> Guard \<times> rw_call list" where
  "MutexWriteGuard_unlock g = (if m_locked g then (g\<lparr>m_locked := False\<rparr>, [RwUnlock]) else (g, []))"

definition MutexWriteGuard_dtor :: "Guard \<Rightarrow> rw_call list" where
  "MutexWriteGuard_dtor g = snd (MutexWriteGuard_unlock g)"

datatype guard_op = GLock | GUnlock

fun guard_run ::
  "(Guard \<Rightarrow> Guard \<times> rw_call list) \<Rightarrow> (Guard \<Rightarrow> Guard \<times> rw_call list) \<Rightarrow> guard_op list \<Rightarrow>
   Guard \<Rightarrow> Guard \<times> rw_call list" where
  "guard_run lk ul [] g = (g, [])"
| "guard_run lk ul (c # cs) g =
     (case (case c of GLock \<Rightarrow> lk g | GUnlock \<Rightarrow> ul g) of
        (g', calls) \<Rightarrow> (case guard_run lk ul cs g' of (g'', calls') \<Rightarrow> (g'', calls @ calls')))"

text \<open>The calls of a guard's whole life: construction, any use of it, destruction.\<close>

definition ReadGuard_life :: "guard_op list \<Rightarrow> rw_call list" where
  "ReadGuard_life cs =
     (case MutexReadGuard_ctor of (g, calls) \<Rightarrow>
        (case guard_run MutexReadGuard_lock MutexReadGuard_unlock cs g of
           (g', calls') \<Rightarrow> calls @ calls' @ MutexReadGuard_dtor g'))"

definition WriteGuard_life :: "bool \<Rightarrow> guard_op list \<Rightarrow> rw_call list" where
  "WriteGuard_life uninit cs =
     (case MutexWriteGuard_ctor uninit of (g, calls) \<Rightarrow>
        (case guard_run MutexWriteGuard_lock MutexWriteGuard_unlock cs g of
           (g', calls') \<Rightarrow> calls @ calls' @ MutexWriteGuard_dtor g'))"

text \<open>A well-behaved life: every acquisition is released before the next one.\<close>

fun balanced :: "rw_call \<Rightarrow> rw_call list \<Rightarrow> bool" where
  "balanced l [] = True"
| "balanced l [c] = False"
| "balanced l (c # d # cs) = (c = l \<and> d = RwUnlock \<and> balanced l cs)"

text \<open>The calls made from a guard state on: a held guard first releases.\<close>

definition guard_tail ::
  "(Guard \<Rightarrow> Guard \<times> rw_call list) \<Rightarrow> (Guard \<Rightarrow> Guard \<times> rw_call list) \<Rightarrow> guard_op list \<Rightarrow>
   Guard \<Rightarrow> rw_call list" where
  "guard_tail lk ul cs g = (case guard_run lk ul cs g of (g', calls) \<Rightarrow> calls @ snd (ul g'))"

lemma guard_tail_simps:
  "guard_tail lk ul [] g = snd (ul g)"
  "guard_tail lk ul (GLock # cs) g = snd (lk g) @ guard_tail lk ul cs (fst (lk g))"
  "guard_tail lk ul (GUnlock # cs) g = snd (ul g) @ guard_tail lk ul cs (fst (ul g))"
  by (simp_all add: guard_tail_def split: prod.splits)

lemma read_guard_tail:
  "(m_locked g \<longrightarrow> balanced Rdlock (Rdlock # guard_tail MutexReadGuard_lock MutexReadGuard_unlock cs g)) \<and>
   (\<not> m_locked g \<longrightarrow> balanced Rdlock (guard_tail MutexReadGuard_lock MutexReadGuard_unlock cs g))"
proof (induction cs arbitrary: g)
  case Nil
  then show ?case by (simp add: guard_tail_simps MutexReadGuard_unlock_def)
next
  case (Cons c cs)
  then show ?case
    by (cases c) (simp_all add: guard_tail_simps MutexReadGuard_unlock_def MutexReadGuard_lock_def)
qed

lemma write_guard_tail:
  "(m_locked g \<longrightarrow> balanced Wrlock (Wrlock # guard_tail MutexWriteGuard_lock MutexWriteGuard_unlock cs g)) \<and>
   (\<not> m_locked g \<longrightarrow> balanced Wrlock (guard_tail MutexWriteGuard_lock MutexWriteGuard_unlock cs g))"
proof (induction cs arbitrary: g)
  case Nil
  then show ?case by (simp add: guard_tail_simps MutexWriteGuard_unlock_def)
next
  case (Cons c cs)
  then show ?case
    by (cases c) (simp_all add: guard_tail_simps MutexWriteGuard_unlock_def MutexWriteGuard_lock_def)
qed

lemma balanced_even: "balanced l cs \<Longrightarrow> even (length cs)"
  by (induction l cs rule: balanced.induct) auto

lemma ReadGuard_life_eq:
  "ReadGuard_life cs = Rdlock # guard_tail MutexReadGuard_lock MutexReadGuard_unlock cs \<lparr>m_locked = True\<rparr>"
  by (simp add: ReadGuard_life_def MutexReadGuard_ctor_def guard_tail_def MutexReadGuard_dtor_def
      split: prod.splits)

lemma WriteGuard_life_eq:
  "WriteGuard_life u cs = Wrlock # guard_tail MutexWriteGuard_lock MutexWriteGuard_unlock cs \<lparr>m_locked = u\<rparr>"
  by (simp add: WriteGuard_life_def MutexWriteGuard_ctor_def guard_tail_def MutexWriteGuard_dtor_def
      split: prod.splits)

text \<open>
  A read guard pairs every \<open>rdlock\<close> with one \<open>unlock\<close> whatever is done with it; a write
  guard does so exactly when its uninitialised \<open>m_locked\<close> happens to hold true.
\<close>

lemma guards_release_what_they_acquire:
  "balanced Rdlock (ReadGuard_life cs) \<and> (balanced Wrlock (WriteGuard_life uninit cs) \<longleftrightarrow> uninit)"
proof -
  let ?w = "guard_tail MutexWriteGuard_lock MutexWriteGuard_unlock cs"
  have "\<not> balanced Wrlock (Wrlock # ?w \<lparr>m_locked = False\<rparr>)"
    using write_guard_tail [of "\<lparr>m_locked = False\<rparr>" cs] by (auto dest!: balanced_even)
  moreover have "balanced Wrlock (Wrlock # ?w \<lparr>m_locked = True\<rparr>)"
    using write_guard_tail [of "\<lparr>m_locked = True\<rparr>" cs] by simp
  moreover have "balanced Rdlock (ReadGuard_life cs)"
    using read_guard_tail [of "\<lparr>m_locked = True\<rparr>" cs] by (simp add: ReadGuard_life_eq)
  ultimately show ?thesis
    by (cases uninit) (simp_all add: WriteGuard_life_eq)
qed

end
