(* ===== verification/EVA_RWMutex.thy ===== *)
theory EVA_RWMutex
  imports EVA_Mutex
begin

text \<open>
  \<open>RWMutex\<close> of \<open>src/src/mutex.h\<close>, and threads that use it through scopes of \<open>MutexReadGuard\<close> and
  \<open>MutexWriteGuard\<close>. The pthread lock is a parameter with the documented contract
  \<open>pthread_rwlock_spec\<close>; a thread that does not get the lock makes no step.
\<close>

section \<open>The lock\<close>

record 'l pthread_rwlock_ops =
  pthread_rwlock_rdlock :: "pid \<Rightarrow> 'l \<Rightarrow> 'l option"  \<comment> \<open>\<open>None\<close>: the caller blocks\<close>
  pthread_rwlock_wrlock :: "pid \<Rightarrow> 'l \<Rightarrow> 'l option"
  pthread_rwlock_unlock :: "pid \<Rightarrow> 'l \<Rightarrow> 'l"

text \<open>
  \<open>readers\<close> and \<open>writer\<close> read the holders off the lock. A lock that is free is always given; one that
  a writer holds never is; writers wait for readers. Unlocking by a holder gives its hold up.
\<close>

definition pthread_rwlock_spec ::
  "'l pthread_rwlock_ops \<Rightarrow> 'l \<Rightarrow> ('l \<Rightarrow> pid set) \<Rightarrow> ('l \<Rightarrow> pid option) \<Rightarrow> bool" where
  "pthread_rwlock_spec ops init readers writer \<longleftrightarrow>
     readers init = {} \<and> writer init = None \<and>
     (\<forall>t l l'. pthread_rwlock_rdlock ops t l = Some l' \<longrightarrow>
        writer l = None \<and> writer l' = None \<and> readers l' = insert t (readers l)) \<and>
     (\<forall>t l l'. pthread_rwlock_wrlock ops t l = Some l' \<longrightarrow>
        writer l = None \<and> readers l = {} \<and> writer l' = Some t \<and> readers l' = {}) \<and>
     (\<forall>t l. writer l = None \<and> readers l = {} \<longrightarrow>
        pthread_rwlock_rdlock ops t l \<noteq> None \<and> pthread_rwlock_wrlock ops t l \<noteq> None) \<and>
     (\<forall>t l. t \<in> readers l \<and> writer l = None \<longrightarrow>
        readers (pthread_rwlock_unlock ops t l) = readers l - {t} \<and> writer (pthread_rwlock_unlock ops t l) = None) \<and>
     (\<forall>t l. writer l = Some t \<and> readers l = {} \<longrightarrow>
        readers (pthread_rwlock_unlock ops t l) = {} \<and> writer (pthread_rwlock_unlock ops t l) = None)"

record 'l RWMutex =
  m_lock :: 'l

definition RWMutex_ctor :: "'l \<Rightarrow> 'l RWMutex" where
  "RWMutex_ctor init = \<lparr>m_lock = init\<rparr>"

definition rdlock :: "'l pthread_rwlock_ops \<Rightarrow> pid \<Rightarrow> 'l RWMutex \<Rightarrow> 'l RWMutex option" where
  "rdlock ops t rw = map_option (\<lambda>l. rw\<lparr>m_lock := l\<rparr>) (pthread_rwlock_rdlock ops t (m_lock rw))"

definition wrlock :: "'l pthread_rwlock_ops \<Rightarrow> pid \<Rightarrow> 'l RWMutex \<Rightarrow> 'l RWMutex option" where
  "wrlock ops t rw = map_option (\<lambda>l. rw\<lparr>m_lock := l\<rparr>) (pthread_rwlock_wrlock ops t (m_lock rw))"

definition RWMutex_unlock :: "'l pthread_rwlock_ops \<Rightarrow> pid \<Rightarrow> 'l RWMutex \<Rightarrow> 'l RWMutex" where
  "RWMutex_unlock ops t rw = rw\<lparr>m_lock := pthread_rwlock_unlock ops t (m_lock rw)\<rparr>"

text \<open>The calls a guard makes, one after the other; \<open>None\<close> where one of them blocks.\<close>

primrec rw_do :: "'l pthread_rwlock_ops \<Rightarrow> pid \<Rightarrow> rw_call \<Rightarrow> 'l RWMutex \<Rightarrow> 'l RWMutex option" where
  "rw_do ops t Rdlock rw = rdlock ops t rw"
| "rw_do ops t Wrlock rw = wrlock ops t rw"
| "rw_do ops t RwUnlock rw = Some (RWMutex_unlock ops t rw)"

primrec rw_calls :: "'l pthread_rwlock_ops \<Rightarrow> pid \<Rightarrow> rw_call list \<Rightarrow> 'l RWMutex \<Rightarrow> 'l RWMutex option" where
  "rw_calls ops t [] rw = Some rw"
| "rw_calls ops t (c # cs) rw = Option.bind (rw_do ops t c rw) (rw_calls ops t cs)"

section \<open>Threads and scopes\<close>

text \<open>A thread is outside, or in the scope of a guard with the guard's state.\<close>

datatype rw_pc = Rw_out | Rw_read Guard | Rw_write Guard

record 'l rw_sys =
  rwm :: "'l RWMutex"
  rw_at :: "pid \<Rightarrow> rw_pc"

definition rw_init :: "'l \<Rightarrow> 'l rw_sys" where
  "rw_init init = \<lparr>rwm = RWMutex_ctor init, rw_at = (\<lambda>_. Rw_out)\<rparr>"

text \<open>
  Entering a scope runs the guard's constructor, leaving it the destructor; inside, the guard's
  \<open>lock()\<close> and \<open>unlock()\<close> may be called. The label of a step that enters a write scope is what memory
  held in \<open>m_locked\<close>.
\<close>

inductive rw_step :: "'l pthread_rwlock_ops \<Rightarrow> pid \<Rightarrow> 'l rw_sys \<Rightarrow> bool option \<Rightarrow> 'l rw_sys \<Rightarrow> bool" for ops t where
  rw_enter_read:
    "rw_at s t = Rw_out \<Longrightarrow> MutexReadGuard_ctor = (g, cs) \<Longrightarrow> rw_calls ops t cs (rwm s) = Some rw \<Longrightarrow>
     rw_step ops t s None (s\<lparr>rwm := rw, rw_at := (rw_at s)(t := Rw_read g)\<rparr>)"
| rw_enter_write:
    "rw_at s t = Rw_out \<Longrightarrow> MutexWriteGuard_ctor u = (g, cs) \<Longrightarrow> rw_calls ops t cs (rwm s) = Some rw \<Longrightarrow>
     rw_step ops t s (Some u) (s\<lparr>rwm := rw, rw_at := (rw_at s)(t := Rw_write g)\<rparr>)"
| rw_read_op:
    "rw_at s t = Rw_read g \<Longrightarrow> MutexReadGuard_lock g = (g', cs) \<or> MutexReadGuard_unlock g = (g', cs) \<Longrightarrow>
     rw_calls ops t cs (rwm s) = Some rw \<Longrightarrow>
     rw_step ops t s None (s\<lparr>rwm := rw, rw_at := (rw_at s)(t := Rw_read g')\<rparr>)"
| rw_write_op:
    "rw_at s t = Rw_write g \<Longrightarrow> MutexWriteGuard_lock g = (g', cs) \<or> MutexWriteGuard_unlock g = (g', cs) \<Longrightarrow>
     rw_calls ops t cs (rwm s) = Some rw \<Longrightarrow>
     rw_step ops t s None (s\<lparr>rwm := rw, rw_at := (rw_at s)(t := Rw_write g')\<rparr>)"
| rw_leave_read:
    "rw_at s t = Rw_read g \<Longrightarrow> rw_calls ops t (MutexReadGuard_dtor g) (rwm s) = Some rw \<Longrightarrow>
     rw_step ops t s None (s\<lparr>rwm := rw, rw_at := (rw_at s)(t := Rw_out)\<rparr>)"
| rw_leave_write:
    "rw_at s t = Rw_write g \<Longrightarrow> rw_calls ops t (MutexWriteGuard_dtor g) (rwm s) = Some rw \<Longrightarrow>
     rw_step ops t s None (s\<lparr>rwm := rw, rw_at := (rw_at s)(t := Rw_out)\<rparr>)"

inductive_cases rw_stepE: "rw_step ops t s u s'"

text \<open>Runs from a state; the values found in \<open>m_locked\<close> are collected.\<close>

inductive rw_runs :: "'l pthread_rwlock_ops \<Rightarrow> 'l rw_sys \<Rightarrow> bool set \<Rightarrow> 'l rw_sys \<Rightarrow> bool" for ops s0 where
  rw_runs_refl: "rw_runs ops s0 {} s0"
| rw_runs_step: "rw_runs ops s0 us s \<Longrightarrow> rw_step ops t s u s' \<Longrightarrow> rw_runs ops s0 (us \<union> set_option u) s'"

section \<open>Exclusion\<close>

text \<open>Guards say who holds the lock: the held read scopes are the readers, the held write scope the writer.\<close>

fun holds_read :: "rw_pc \<Rightarrow> bool" where
  "holds_read (Rw_read g) = m_locked g" | "holds_read _ = False"

fun holds_write :: "rw_pc \<Rightarrow> bool" where
  "holds_write (Rw_write g) = m_locked g" | "holds_write _ = False"

definition rw_inv :: "('l \<Rightarrow> pid set) \<Rightarrow> ('l \<Rightarrow> pid option) \<Rightarrow> 'l rw_sys \<Rightarrow> bool" where
  "rw_inv readers writer s \<longleftrightarrow>
     readers (m_lock (rwm s)) = {t. holds_read (rw_at s t)} \<and>
     (\<forall>t. holds_write (rw_at s t) \<longleftrightarrow> writer (m_lock (rwm s)) = Some t) \<and>
     (writer (m_lock (rwm s)) \<noteq> None \<longrightarrow> readers (m_lock (rwm s)) = {})"

lemma rw_inv_init: "pthread_rwlock_spec ops init readers writer \<Longrightarrow> rw_inv readers writer (rw_init init)"
  by (simp add: rw_inv_def rw_init_def RWMutex_ctor_def pthread_rwlock_spec_def)

lemma rw_spec_lock:
  assumes "pthread_rwlock_spec ops init readers writer"
  shows "rdlock ops t rw = Some rw' \<Longrightarrow> writer (m_lock rw) = None \<and> writer (m_lock rw') = None \<and>
           readers (m_lock rw') = insert t (readers (m_lock rw))"
    and "wrlock ops t rw = Some rw' \<Longrightarrow> writer (m_lock rw) = None \<and> readers (m_lock rw) = {} \<and>
           writer (m_lock rw') = Some t \<and> readers (m_lock rw') = {}"
proof -
  show "writer (m_lock rw) = None \<and> writer (m_lock rw') = None \<and> readers (m_lock rw') = insert t (readers (m_lock rw))"
    if lock: "rdlock ops t rw = Some rw'"
  proof -
    obtain l where "pthread_rwlock_rdlock ops t (m_lock rw) = Some l" "rw' = rw\<lparr>m_lock := l\<rparr>"
      using lock by (auto simp: rdlock_def)
    then show ?thesis
      using assms unfolding pthread_rwlock_spec_def by (metis RWMutex.select_convs(1) RWMutex.surjective RWMutex.update_convs(1))
  qed
  show "writer (m_lock rw) = None \<and> readers (m_lock rw) = {} \<and> writer (m_lock rw') = Some t \<and> readers (m_lock rw') = {}"
    if lock: "wrlock ops t rw = Some rw'"
  proof -
    obtain l where "pthread_rwlock_wrlock ops t (m_lock rw) = Some l" "rw' = rw\<lparr>m_lock := l\<rparr>"
      using lock by (auto simp: wrlock_def)
    then show ?thesis
      using assms unfolding pthread_rwlock_spec_def by (metis RWMutex.select_convs(1) RWMutex.surjective RWMutex.update_convs(1))
  qed
qed

lemma rw_spec_unlock:
  assumes "pthread_rwlock_spec ops init readers writer"
  shows "t \<in> readers (m_lock rw) \<Longrightarrow> writer (m_lock rw) = None \<Longrightarrow>
      readers (m_lock (RWMutex_unlock ops t rw)) = readers (m_lock rw) - {t} \<and> writer (m_lock (RWMutex_unlock ops t rw)) = None"
    and "writer (m_lock rw) = Some t \<Longrightarrow> readers (m_lock rw) = {} \<Longrightarrow>
      readers (m_lock (RWMutex_unlock ops t rw)) = {} \<and> writer (m_lock (RWMutex_unlock ops t rw)) = None"
  using assms unfolding pthread_rwlock_spec_def by (simp_all add: RWMutex_unlock_def)

text \<open>The three ways in which a step of a thread can change the lock and what the thread holds.\<close>

lemma rw_inv_rdlock:
  assumes spec: "pthread_rwlock_spec ops init readers writer" and inv: "rw_inv readers writer s"
    and "\<not> holds_read (rw_at s t)" "\<not> holds_write (rw_at s t)" "rdlock ops t (rwm s) = Some rw"
    and "holds_read pc" "\<not> holds_write pc"
  shows "rw_inv readers writer (s\<lparr>rwm := rw, rw_at := (rw_at s)(t := pc)\<rparr>)"
  using rw_spec_lock(1) [OF spec assms(5)] inv assms(3,4,6,7) by (auto simp: rw_inv_def)

lemma rw_inv_wrlock:
  assumes spec: "pthread_rwlock_spec ops init readers writer" and inv: "rw_inv readers writer s"
    and "\<not> holds_read (rw_at s t)" "\<not> holds_write (rw_at s t)" "wrlock ops t (rwm s) = Some rw"
    and "\<not> holds_read pc" "holds_write pc"
  shows "rw_inv readers writer (s\<lparr>rwm := rw, rw_at := (rw_at s)(t := pc)\<rparr>)"
  using rw_spec_lock(2) [OF spec assms(5)] inv assms(3,4,6,7) by (auto simp: rw_inv_def)

lemma rw_inv_unlock:
  assumes spec: "pthread_rwlock_spec ops init readers writer" and inv: "rw_inv readers writer s"
    and held: "holds_read (rw_at s t) \<or> holds_write (rw_at s t)" and "\<not> holds_read pc" "\<not> holds_write pc"
  shows "rw_inv readers writer (s\<lparr>rwm := RWMutex_unlock ops t (rwm s), rw_at := (rw_at s)(t := pc)\<rparr>)"
proof (cases "holds_write (rw_at s t)")
  case True
  then have w: "writer (m_lock (rwm s)) = Some t"
    using inv by (simp add: rw_inv_def)
  then have r: "readers (m_lock (rwm s)) = {}"
    using inv unfolding rw_inv_def by blast
  have "\<not> holds_write (rw_at s u)" if "u \<noteq> t" for u
    using inv w that by (simp add: rw_inv_def)
  moreover have "\<not> holds_read (rw_at s u)" for u
    using inv r unfolding rw_inv_def by blast
  ultimately show ?thesis
    using rw_spec_unlock(2) [OF spec w r] assms(4,5) by (simp add: rw_inv_def)
next
  case False
  then have r: "t \<in> readers (m_lock (rwm s))" "writer (m_lock (rwm s)) = None"
    using inv held by (auto simp: rw_inv_def)
  have "\<not> holds_write (rw_at s u)" for u
    using inv r(2) by (simp add: rw_inv_def)
  moreover have "readers (m_lock (rwm s)) - {t} = {u. holds_read (((rw_at s)(t := pc)) u)}"
    using inv assms(4) by (auto simp: rw_inv_def)
  ultimately show ?thesis
    using rw_spec_unlock(1) [OF spec r] assms(5) by (simp add: rw_inv_def)
qed

lemma rw_inv_same:
  assumes "rw_inv readers writer s" "holds_read pc = holds_read (rw_at s t)" "holds_write pc = holds_write (rw_at s t)"
  shows "rw_inv readers writer (s\<lparr>rwm := rwm s, rw_at := (rw_at s)(t := pc)\<rparr>)"
  using assms by (auto simp: rw_inv_def)

lemmas guard_defs = MutexReadGuard_ctor_def MutexReadGuard_lock_def MutexReadGuard_unlock_def MutexReadGuard_dtor_def
  MutexWriteGuard_ctor_def MutexWriteGuard_lock_def MutexWriteGuard_unlock_def MutexWriteGuard_dtor_def

lemma rw_inv_step:
  assumes spec: "pthread_rwlock_spec ops init readers writer" and inv: "rw_inv readers writer s"
    and step: "rw_step ops t s u s'" and init: "u \<noteq> Some False"
  shows "rw_inv readers writer s'"
  using step
proof cases
  case (rw_enter_read g cs rw)
  then show ?thesis
    using rw_inv_rdlock [OF spec inv, of t rw "Rw_read g"] by (auto simp: guard_defs bind_eq_Some_conv)
next
  case (rw_enter_write u g cs rw)
  then show ?thesis
    using rw_inv_wrlock [OF spec inv, of t rw "Rw_write g"] init by (auto simp: guard_defs bind_eq_Some_conv)
next
  case (rw_read_op g g' cs rw)
  then show ?thesis
    using rw_inv_rdlock [OF spec inv, of t rw "Rw_read g'"] rw_inv_unlock [OF spec inv, of t "Rw_read g'"]
      rw_inv_same [OF inv, of "Rw_read g'" t]
    by (auto simp: guard_defs bind_eq_Some_conv split: if_splits)
next
  case (rw_write_op g g' cs rw)
  then show ?thesis
    using rw_inv_wrlock [OF spec inv, of t rw "Rw_write g'"] rw_inv_unlock [OF spec inv, of t "Rw_write g'"]
      rw_inv_same [OF inv, of "Rw_write g'" t]
    by (auto simp: guard_defs bind_eq_Some_conv split: if_splits)
next
  case (rw_leave_read g rw)
  then show ?thesis
    using rw_inv_unlock [OF spec inv, of t Rw_out] rw_inv_same [OF inv, of Rw_out t]
    by (auto simp: guard_defs bind_eq_Some_conv split: if_splits)
next
  case (rw_leave_write g rw)
  then show ?thesis
    using rw_inv_unlock [OF spec inv, of t Rw_out] rw_inv_same [OF inv, of Rw_out t]
    by (auto simp: guard_defs bind_eq_Some_conv split: if_splits)
qed

lemma rw_runs_inv:
  assumes "rw_runs ops (rw_init init) us s" "pthread_rwlock_spec ops init readers writer" "False \<notin> us"
  shows "rw_inv readers writer s"
  using assms(1,3)
proof (induction)
  case rw_runs_refl
  then show ?case
    using rw_inv_init [OF assms(2)] by simp
next
  case (rw_runs_step us s t u s')
  then show ?case
    using rw_inv_step [OF assms(2), of s t u s'] by auto
qed

text \<open>
  C27. Readers and writers exclude each other: in every interleaving of read and write scopes, with
  any use of the guards inside them, a thread whose write guard is locked is alone with the lock,
  provided that memory held true in the uninitialised \<open>m_locked\<close> of every write guard made. When
  all threads have left their scopes, the lock is free and any thread can take it either way.
\<close>

theorem rwlock_excludes:
  assumes "rw_runs ops (rw_init init) us s" "pthread_rwlock_spec ops init readers writer" "False \<notin> us"
  shows "(holds_write (rw_at s t) \<and> t' \<noteq> t \<longrightarrow> \<not> holds_write (rw_at s t') \<and> \<not> holds_read (rw_at s t')) \<and>
         ((\<forall>u. rw_at s u = Rw_out) \<longrightarrow> rdlock ops t (rwm s) \<noteq> None \<and> wrlock ops t (rwm s) \<noteq> None)"
proof -
  note inv = rw_runs_inv [OF assms]
  have "rdlock ops t (rwm s) \<noteq> None \<and> wrlock ops t (rwm s) \<noteq> None" if out: "\<forall>u. rw_at s u = Rw_out"
  proof -
    have "readers (m_lock (rwm s)) = {}" "\<forall>u. writer (m_lock (rwm s)) \<noteq> Some u"
      using inv out by (simp_all add: rw_inv_def)
    then show ?thesis
      using assms(2) unfolding pthread_rwlock_spec_def rdlock_def wrlock_def by simp
  qed
  moreover have "\<not> holds_write (rw_at s t') \<and> \<not> holds_read (rw_at s t')" if "holds_write (rw_at s t)" "t' \<noteq> t"
  proof -
    have w: "writer (m_lock (rwm s)) = Some t"
      using inv that(1) by (simp add: rw_inv_def)
    then have "readers (m_lock (rwm s)) = {}"
      using inv unfolding rw_inv_def by blast
    then have "\<not> holds_read (rw_at s t')"
      using inv unfolding rw_inv_def by blast
    then show ?thesis
      using inv w that(2) by (simp add: rw_inv_def)
  qed
  ultimately show ?thesis
    by blast
qed

text \<open>A lock for the witnesses: the readers and the writer.\<close>

definition ex_rw_ops :: "(pid set \<times> pid option) pthread_rwlock_ops" where
  "ex_rw_ops =
     \<lparr>pthread_rwlock_rdlock = (\<lambda>t (r, w). if w = None then Some (insert t r, None) else None),
      pthread_rwlock_wrlock = (\<lambda>t (r, w). if w = None \<and> r = {} then Some ({}, Some t) else None),
      pthread_rwlock_unlock = (\<lambda>t (r, w). if w = Some t then (r, None) else (r - {t}, w))\<rparr>"

lemma ex_rw_spec: "pthread_rwlock_spec ex_rw_ops ({}, None) fst snd"
  by (auto simp: pthread_rwlock_spec_def ex_rw_ops_def split: if_splits)

definition ex_rw_writing :: "bool \<Rightarrow> (pid set \<times> pid option) rw_sys" where
  "ex_rw_writing u = \<lparr>rwm = \<lparr>m_lock = ({}, Some 7)\<rparr>, rw_at = (\<lambda>_. Rw_out)(7 := Rw_write \<lparr>m_locked = u\<rparr>)\<rparr>"

lemma ex_rw_enter: "rw_runs ex_rw_ops (rw_init ({}, None)) {u} (ex_rw_writing u)"
proof -
  have "rw_step ex_rw_ops 7 (rw_init ({}, None)) (Some u) (ex_rw_writing u)"
    using rw_enter_write [of "rw_init ({}, None)" 7 u "\<lparr>m_locked = u\<rparr>" "[Wrlock]" ex_rw_ops "\<lparr>m_lock = ({}, Some 7)\<rparr>"]
    by (simp add: rw_init_def RWMutex_ctor_def guard_defs wrlock_def ex_rw_ops_def ex_rw_writing_def)
  from rw_runs_step [OF rw_runs_refl this] show ?thesis
    by simp
qed

theorem rwlock_excludes_witness:
  "holds_write (rw_at (ex_rw_writing True) 7) \<and> \<not> holds_read (rw_at (ex_rw_writing True) 8)"
  using rwlock_excludes [OF ex_rw_enter ex_rw_spec, of True 7 8] by (simp add: ex_rw_writing_def)

text \<open>
  Where memory held false in \<open>m_locked\<close>, a write scope that is entered and left leaves the lock
  held by a thread that is outside: from then on no thread ever enters a scope again, whatever the
  threads do.
\<close>

lemma unreleased_write_lock:
  assumes "pthread_rwlock_spec ops init readers writer"
    and "rw_step ops t s (Some False) s1" "rw_step ops t s1 None s2" "rw_at s2 t = Rw_out"
    and "\<forall>u. rw_at s u = Rw_out" "rw_runs ops s2 us s3"
  shows "s3 = s2 \<and> writer (m_lock (rwm s2)) = Some t"
proof -
  obtain rw where rw: "wrlock ops t (rwm s) = Some rw"
    and s1: "s1 = s\<lparr>rwm := rw, rw_at := (rw_at s)(t := Rw_write \<lparr>m_locked = False\<rparr>)\<rparr>"
    using assms(2) by (auto elim!: rw_stepE simp: guard_defs bind_eq_Some_conv)
  have s2: "s2 = s\<lparr>rwm := rw, rw_at := (rw_at s)(t := Rw_out)\<rparr>"
    using assms(3,4) by (auto elim!: rw_stepE simp: s1 guard_defs bind_eq_Some_conv split: if_splits)
  have w: "writer (m_lock rw) = Some t"
    using rw_spec_lock(2) [OF assms(1) rw] by blast
  have out: "rw_at s2 u = Rw_out" for u
    using assms(5) by (simp add: s2)
  have held: "writer (m_lock (rwm s2)) = Some t"
    using w by (simp add: s2)
  have blocked: "rdlock ops u (rwm s2) = None" "wrlock ops u (rwm s2) = None" for u
    using rw_spec_lock [OF assms(1), of u "rwm s2"] held by force+
  have stuck: "\<not> rw_step ops u s2 l s'" for u l s'
    by (auto elim!: rw_stepE simp: out blocked guard_defs)
  have "s3 = s2"
    using assms(6) by (induction rule: rw_runs.induct) (use stuck in auto)
  then show ?thesis
    using held by simp
qed

end
