(* ===== verification/EVA_Fiber.thy ===== *)
theory EVA_Fiber
  imports EVA_Prelude
begin

text \<open>
  \<open>src/src/fiber.h\<close> and \<open>src/src/fiber.cpp\<close>. Fibers are objects in a heap; \<open>t_fiber\<close> and
  \<open>t_main_fiber\<close> are kept per thread. A fiber's function is a program that performs effects and
  yields; its \<open>ucontext_t\<close> is the point where that program goes on. \<open>getcontext\<close> and
  \<open>swapcontext\<close> are parameters through their return codes. \<open>call\<close> runs the fiber up to its next
  switch back to the main fiber and answers the effects performed on the way.
\<close>

section \<open>Programs, contexts and the state\<close>

type_synonym fid = nat
type_synonym tid = int

datatype State = READY | SUSPEND | RUNNING | TERMINATED  \<comment> \<open>\<open>TERM\<close> of the code\<close> | EXCEPT

datatype 'e prog =
    Return
  | Throw  \<comment> \<open>a \<open>std::exception\<close> leaves the function\<close>
  | Yield_then "'e prog"
  | YieldReady_then "'e prog"
  | Do 'e "'e prog"

datatype 'e ucontext =
    Ctx_thread  \<comment> \<open>the thread's own stack, of a main fiber\<close>
  | Ctx_entry  \<comment> \<open>made by \<open>makecontext\<close>: \<open>MainFunc\<close> from its start\<close>
  | Ctx_saved "'e prog"  \<comment> \<open>inside \<open>m_func\<close>, after a yield\<close>
  | Ctx_end  \<comment> \<open>inside \<open>MainFunc\<close>, after its last \<open>yield()\<close>\<close>

record 'e Fiber =
  fb_id :: u64
  fb_ctx :: "'e ucontext"
  uc_link :: "fid option"
  fb_func :: "'e prog option"
  fb_main :: bool
  fb_state :: State

record 'e fibers =
  fb_heap :: "fid \<rightharpoonup> 'e Fiber"
  s_fiber_id :: u64
  s_fiber_count :: u64
  t_fiber :: "tid \<Rightarrow> fid option"
  t_main_fiber :: "tid \<Rightarrow> fid option"

record ucontext_ops =
  getcontext :: "fid \<Rightarrow> int"
  swapcontext :: "fid \<Rightarrow> fid \<Rightarrow> int"

definition ucontext_ok :: "ucontext_ops \<Rightarrow> bool" where
  "ucontext_ok uc \<longleftrightarrow> (\<forall>a. getcontext uc a = 0) \<and> (\<forall>a b. swapcontext uc a b = 0)"

definition isDone :: "'e Fiber \<Rightarrow> bool" where
  "isDone f \<longleftrightarrow> fb_state f = TERMINATED \<or> fb_state f = EXCEPT"

abbreviation upd_fiber :: "fid \<Rightarrow> ('e Fiber \<Rightarrow> 'e Fiber) \<Rightarrow> 'e fibers \<Rightarrow> 'e fibers" where
  "upd_fiber a f w \<equiv> w\<lparr>fb_heap := (fb_heap w)(a := map_option f (fb_heap w a))\<rparr>"

definition set_t_fiber :: "tid \<Rightarrow> fid option \<Rightarrow> 'e fibers \<Rightarrow> 'e fibers" where
  "set_t_fiber t x w = w\<lparr>t_fiber := (t_fiber w)(t := x)\<rparr>"

text \<open>A member function called through a pointer that holds no live fiber.\<close>

definition deref :: "fid \<Rightarrow> 'e fibers \<Rightarrow> 'e Fiber result" where
  "deref a w = (case fb_heap w a of None \<Rightarrow> Inl NullDeref | Some f \<Rightarrow> Inr f)"

section \<open>Construction and destruction\<close>

text \<open>\<open>Fiber(func, is_main)\<close> for a new object at address \<open>a\<close>, on thread \<open>t\<close>.\<close>

definition Fiber_ctor ::
  "ucontext_ops \<Rightarrow> tid \<Rightarrow> fid \<Rightarrow> 'e prog option \<Rightarrow> bool \<Rightarrow> 'e fibers \<Rightarrow> 'e fibers result" where
  "Fiber_ctor uc t a func is_main w =
     (let nid = s_fiber_id w + 1 in
      ASSERT (t_main_fiber w t \<noteq> None)
        (ASSERT (getcontext uc a = 0)
          (Inr (w\<lparr>s_fiber_id := nid,
                  s_fiber_count := s_fiber_count w + 1,
                  fb_heap := (fb_heap w)(a \<mapsto>
                    \<lparr>fb_id = nid, fb_ctx = Ctx_entry, uc_link = None, fb_func = func,
                     fb_main = is_main, fb_state = READY\<rparr>)\<rparr>))))"

text \<open>The private \<open>Fiber()\<close>, the main fiber of thread \<open>t\<close>.\<close>

definition Fiber_ctor_main :: "ucontext_ops \<Rightarrow> tid \<Rightarrow> fid \<Rightarrow> 'e fibers \<Rightarrow> 'e fibers result" where
  "Fiber_ctor_main uc t a w =
     ASSERT (t_main_fiber w t = None)
       (ASSERT (getcontext uc a = 0)
         (Inr (set_t_fiber t (Some a)
                (w\<lparr>s_fiber_count := s_fiber_count w + 1,
                   fb_heap := (fb_heap w)(a \<mapsto>
                     \<lparr>fb_id = 0, fb_ctx = Ctx_thread, uc_link = None, fb_func = None,
                      fb_main = True, fb_state = RUNNING\<rparr>)\<rparr>))))"

definition MakeMain :: "ucontext_ops \<Rightarrow> tid \<Rightarrow> fid \<Rightarrow> 'e fibers \<Rightarrow> 'e fibers result" where
  "MakeMain uc t a w =
     (if t_main_fiber w t \<noteq> None then Inr w
      else res_bind (Fiber_ctor_main uc t a w)
             (\<lambda>w'. Inr (set_t_fiber t (Some a) (w'\<lparr>t_main_fiber := (t_main_fiber w')(t := Some a)\<rparr>))))"

definition Fiber_dtor :: "tid \<Rightarrow> fid \<Rightarrow> 'e fibers \<Rightarrow> 'e fibers result" where
  "Fiber_dtor t a w =
     res_bind (deref a w) (\<lambda>f.
       let w1 = w\<lparr>s_fiber_count := s_fiber_count w - 1, fb_heap := (fb_heap w)(a := None)\<rparr> in
       if t_main_fiber w t \<noteq> Some a
       then ASSERT (fb_state f \<noteq> RUNNING) (Inr w1)
       else ASSERT (fb_func f = None)
              (ASSERT (fb_state f = RUNNING)
                (Inr (if t_fiber w t = Some a then set_t_fiber t None w1 else w1))))"

definition Fiber_reset ::
  "ucontext_ops \<Rightarrow> tid \<Rightarrow> fid \<Rightarrow> 'e prog option \<Rightarrow> 'e fibers \<Rightarrow> 'e fibers result" where
  "Fiber_reset uc t a func w =
     ASSERT (t_main_fiber w t \<noteq> None)
       (ASSERT (getcontext uc a = 0)
         (res_bind (deref a w) (\<lambda>f.
           Inr (w\<lparr>fb_heap := (fb_heap w)(a \<mapsto>
                   f\<lparr>fb_func := func, fb_state := READY, uc_link := t_main_fiber w t,
                     fb_ctx := Ctx_entry\<rparr>)\<rparr>))))"

section \<open>Switching\<close>

definition GetThis :: "ucontext_ops \<Rightarrow> tid \<Rightarrow> fid \<Rightarrow> 'e fibers \<Rightarrow> (fid \<times> 'e fibers) result" where
  "GetThis uc t new w =
     res_bind (if t_fiber w t = None then MakeMain uc t new w else Inr w)
       (\<lambda>w'. case t_fiber w' t of None \<Rightarrow> Inl NullDeref | Some a \<Rightarrow> Inr (a, w'))"

definition GetMainFiber :: "tid \<Rightarrow> 'e fibers \<Rightarrow> fid option" where
  "GetMainFiber t w = (case t_main_fiber w t of Some m \<Rightarrow> Some m | None \<Rightarrow> None)"

definition GetTotalCount :: "'e fibers \<Rightarrow> u64" where
  "GetTotalCount w = s_fiber_count w"

definition GetFiberId :: "tid \<Rightarrow> 'e fibers \<Rightarrow> u64" where
  "GetFiberId t w =
     (case t_fiber w t of
        None \<Rightarrow> 0
      | Some a \<Rightarrow> (case fb_heap w a of None \<Rightarrow> 0 | Some f \<Rightarrow> fb_id f))"

text \<open>
  The switch from fiber \<open>a\<close> back to the main fiber of its thread: its context is saved as \<open>c\<close>.
\<close>

definition swap_out :: "ucontext_ops \<Rightarrow> tid \<Rightarrow> fid \<Rightarrow> 'e ucontext \<Rightarrow> 'e fibers \<Rightarrow> 'e fibers result" where
  "swap_out uc t a c w =
     (case t_main_fiber w t of
        None \<Rightarrow> Inl NullDeref
      | Some m \<Rightarrow>
          ASSERT (swapcontext uc a m = 0)
            (Inr (upd_fiber a (\<lambda>f. f\<lparr>fb_ctx := c\<rparr>) (set_t_fiber t (Some m) w))))"

text \<open>
  \<open>yield()\<close>, \<open>Yield()\<close> and \<open>YieldReady()\<close> called by fiber \<open>a\<close> on thread \<open>t\<close>, which continues
  with \<open>c\<close> when it is called again; \<open>None\<close> where the call returns at once because the current
  fiber is the main one.
\<close>

definition Fiber_yield ::
  "ucontext_ops \<Rightarrow> tid \<Rightarrow> fid \<Rightarrow> 'e ucontext \<Rightarrow> 'e fibers \<Rightarrow> 'e fibers result option" where
  "Fiber_yield uc t a c w =
     (if t_fiber w t = t_main_fiber w t then None else Some (swap_out uc t a c w))"

definition Fiber_Yield ::
  "ucontext_ops \<Rightarrow> tid \<Rightarrow> fid \<Rightarrow> 'e ucontext \<Rightarrow> 'e fibers \<Rightarrow> 'e fibers result option" where
  "Fiber_Yield uc t a c w =
     (if t_fiber w t = t_main_fiber w t then None
      else Some (swap_out uc t a c (upd_fiber a (\<lambda>f. f\<lparr>fb_state := SUSPEND\<rparr>) w)))"

definition Fiber_YieldReady ::
  "ucontext_ops \<Rightarrow> tid \<Rightarrow> fid \<Rightarrow> 'e ucontext \<Rightarrow> 'e fibers \<Rightarrow> 'e fibers result option" where
  "Fiber_YieldReady uc t a c w =
     (if t_fiber w t = t_main_fiber w t then None
      else Some (swap_out uc t a c (upd_fiber a (\<lambda>f. f\<lparr>fb_state := READY\<rparr>) w)))"

text \<open>The end of \<open>MainFunc\<close>: the final state is set and \<open>yield()\<close> called on the raw pointer.\<close>

definition MainFunc_end :: "ucontext_ops \<Rightarrow> tid \<Rightarrow> fid \<Rightarrow> State \<Rightarrow> 'e fibers \<Rightarrow> 'e fibers result" where
  "MainFunc_end uc t a st w =
     (let w1 = upd_fiber a (\<lambda>f. f\<lparr>fb_state := st\<rparr>) w in
      case Fiber_yield uc t a Ctx_end w1 of None \<Rightarrow> Inl ThreadExit | Some r \<Rightarrow> r)"

text \<open>Running the function's program on fiber \<open>a\<close> up to the next switch.\<close>

fun run_func ::
  "ucontext_ops \<Rightarrow> tid \<Rightarrow> fid \<Rightarrow> 'e prog \<Rightarrow> 'e fibers \<Rightarrow> ('e list \<times> 'e fibers) result" where
  "run_func uc t a Return w = res_bind (MainFunc_end uc t a TERMINATED w) (\<lambda>w'. Inr ([], w'))"
| "run_func uc t a Throw w = res_bind (MainFunc_end uc t a EXCEPT w) (\<lambda>w'. Inr ([], w'))"
| "run_func uc t a (Yield_then k) w =
     (case Fiber_Yield uc t a (Ctx_saved k) w of
        None \<Rightarrow> run_func uc t a k w
      | Some r \<Rightarrow> res_bind r (\<lambda>w'. Inr ([], w')))"
| "run_func uc t a (YieldReady_then k) w =
     (case Fiber_YieldReady uc t a (Ctx_saved k) w of
        None \<Rightarrow> run_func uc t a k w
      | Some r \<Rightarrow> res_bind r (\<lambda>w'. Inr ([], w')))"
| "run_func uc t a (Do e k) w =
     res_bind (run_func uc t a k w) (\<lambda>(es, w'). Inr (e # es, w'))"

text \<open>
  \<open>MainFunc\<close> from its start. An empty \<open>std::function\<close> throws \<open>std::bad_function_call\<close>, which
  the handler catches.
\<close>

definition MainFunc :: "ucontext_ops \<Rightarrow> tid \<Rightarrow> fid \<Rightarrow> 'e fibers \<Rightarrow> ('e list \<times> 'e fibers) result" where
  "MainFunc uc t a w =
     res_bind (deref a w) (\<lambda>f.
       run_func uc t a (case fb_func f of None \<Rightarrow> Throw | Some p \<Rightarrow> p) w)"

text \<open>The program a context goes on with.\<close>

definition context_prog :: "'e Fiber \<Rightarrow> 'e prog option" where
  "context_prog f =
     (case fb_ctx f of
        Ctx_thread \<Rightarrow> None
      | Ctx_entry \<Rightarrow> Some (case fb_func f of None \<Rightarrow> Throw | Some p \<Rightarrow> p)
      | Ctx_saved k \<Rightarrow> Some k
      | Ctx_end \<Rightarrow> None)"

text \<open>
  Resuming a context. After its last \<open>yield()\<close>, \<open>MainFunc\<close> returns into \<open>uc_link\<close>: with none the
  thread ends; with the thread's main fiber, its context continues (inside \<open>call\<close>).
\<close>

definition resume :: "ucontext_ops \<Rightarrow> tid \<Rightarrow> fid \<Rightarrow> 'e fibers \<Rightarrow> ('e list \<times> 'e fibers) result" where
  "resume uc t a w =
     res_bind (deref a w) (\<lambda>f.
       case fb_ctx f of
         Ctx_thread \<Rightarrow> Inl ThreadExit
       | Ctx_entry \<Rightarrow> MainFunc uc t a w
       | Ctx_saved k \<Rightarrow> run_func uc t a k w
       | Ctx_end \<Rightarrow> if uc_link f \<noteq> None \<and> uc_link f = t_main_fiber w t then Inr ([], w)
                    else Inl ThreadExit)"

text \<open>\<open>call()\<close> up to and including the switch into the fiber, and the whole of it.\<close>

definition call_enter :: "ucontext_ops \<Rightarrow> tid \<Rightarrow> fid \<Rightarrow> 'e fibers \<Rightarrow> 'e fibers result" where
  "call_enter uc t a w =
     res_bind (deref a w) (\<lambda>f.
       let w1 = set_t_fiber t (Some a) w in
       ASSERT (fb_state f \<noteq> RUNNING \<and> fb_state f \<noteq> TERMINATED)
         (case t_main_fiber w1 t of
            None \<Rightarrow> Inl NullDeref
          | Some m \<Rightarrow>
              ASSERT (swapcontext uc m a = 0)
                (Inr (upd_fiber a (\<lambda>f. f\<lparr>fb_state := RUNNING\<rparr>) w1))))"

definition Fiber_call :: "ucontext_ops \<Rightarrow> tid \<Rightarrow> fid \<Rightarrow> 'e fibers \<Rightarrow> ('e list \<times> 'e fibers) result" where
  "Fiber_call uc t a w =
     res_bind (deref a w) (\<lambda>f.
       if fb_main f \<and> t_fiber w t = t_main_fiber w t then Inr ([], w)
       else res_bind (call_enter uc t a w) (resume uc t a))"

section \<open>One call\<close>

text \<open>What a program does up to its first switch: effects, state left behind, context saved.\<close>

fun cut :: "'e prog \<Rightarrow> 'e list \<times> State \<times> 'e ucontext" where
  "cut Return = ([], TERMINATED, Ctx_end)"
| "cut Throw = ([], EXCEPT, Ctx_end)"
| "cut (Yield_then k) = ([], SUSPEND, Ctx_saved k)"
| "cut (YieldReady_then k) = ([], READY, Ctx_saved k)"
| "cut (Do e k) = (case cut k of (es, s, c) \<Rightarrow> (e # es, s, c))"

lemmas switch_defs =
  swap_out_def Fiber_yield_def Fiber_Yield_def Fiber_YieldReady_def MainFunc_end_def
  set_t_fiber_def ucontext_ok_def deref_def

lemma run_func_cut:
  assumes "ucontext_ok uc" "t_fiber w t = Some a" "t_main_fiber w t = Some m" "a \<noteq> m"
    and "fb_heap w a = Some f"
  shows "run_func uc t a p w =
           (case cut p of (es, s, c) \<Rightarrow>
              Inr (es, w\<lparr>t_fiber := (t_fiber w)(t := Some m),
                         fb_heap := (fb_heap w)(a \<mapsto> f\<lparr>fb_state := s, fb_ctx := c\<rparr>)\<rparr>))"
  using assms by (induction p) (auto simp: switch_defs Let_def split: prod.splits)

text \<open>A fiber that will run program \<open>p\<close> when it is called.\<close>

definition pending :: "'e Fiber \<Rightarrow> 'e prog \<Rightarrow> bool" where
  "pending f p \<longleftrightarrow>
     \<not> fb_main f \<and> (fb_state f = READY \<or> fb_state f = SUSPEND) \<and>
     (fb_ctx f = Ctx_entry \<and> p = (case fb_func f of None \<Rightarrow> Throw | Some q \<Rightarrow> q) \<or>
      fb_ctx f = Ctx_saved p)"

text \<open>The thread is on its main fiber \<open>m\<close>.\<close>

definition on_main :: "tid \<Rightarrow> fid \<Rightarrow> 'e fibers \<Rightarrow> bool" where
  "on_main t m w \<longleftrightarrow> t_fiber w t = Some m \<and> t_main_fiber w t = Some m"

lemma Fiber_call_cut:
  assumes "ucontext_ok uc" "on_main t m w" "a \<noteq> m" "fb_heap w a = Some f" "pending f p"
  shows "Fiber_call uc t a w =
           (case cut p of (es, s, c) \<Rightarrow>
              Inr (es, w\<lparr>fb_heap := (fb_heap w)(a \<mapsto> f\<lparr>fb_state := s, fb_ctx := c\<rparr>)\<rparr>))"
proof -
  let ?w = "upd_fiber a (\<lambda>f. f\<lparr>fb_state := RUNNING\<rparr>) (set_t_fiber t (Some a) w)"
  have tf: "(t_fiber w)(t := Some m) = t_fiber w"
    using assms(2) by (auto simp: on_main_def)
  have "Fiber_call uc t a w = resume uc t a ?w"
    using assms by (auto simp: Fiber_call_def call_enter_def switch_defs on_main_def pending_def)
  also have "\<dots> = run_func uc t a p ?w"
    using assms by (auto simp: resume_def MainFunc_def switch_defs pending_def)
  also have "\<dots> = (case cut p of (es, s, c) \<Rightarrow>
              Inr (es, w\<lparr>fb_heap := (fb_heap w)(a \<mapsto> f\<lparr>fb_state := s, fb_ctx := c\<rparr>)\<rparr>))"
    using run_func_cut [OF assms(1), of ?w t a m "f\<lparr>fb_state := RUNNING\<rparr>" p] assms tf
    by (simp add: set_t_fiber_def on_main_def split: prod.splits)
  finally show ?thesis .
qed

section \<open>Calling a fiber until it is done\<close>

fun segments :: "'e prog \<Rightarrow> 'e list list" where
  "segments Return = [[]]"
| "segments Throw = [[]]"
| "segments (Yield_then k) = [] # segments k"
| "segments (YieldReady_then k) = [] # segments k"
| "segments (Do e k) = (case segments k of [] \<Rightarrow> [] | es # ess \<Rightarrow> (e # es) # ess)"

fun final_state :: "'e prog \<Rightarrow> State" where
  "final_state Return = TERMINATED"
| "final_state Throw = EXCEPT"
| "final_state (Yield_then k) = final_state k"
| "final_state (YieldReady_then k) = final_state k"
| "final_state (Do e k) = final_state k"

fun run_calls ::
  "ucontext_ops \<Rightarrow> tid \<Rightarrow> fid \<Rightarrow> nat \<Rightarrow> 'e fibers \<Rightarrow> ('e list list \<times> 'e fibers) result" where
  "run_calls uc t a 0 w = Inr ([], w)"
| "run_calls uc t a (Suc n) w =
     res_bind (Fiber_call uc t a w) (\<lambda>(es, w').
       res_bind (run_calls uc t a n w') (\<lambda>(ess, w''). Inr (es # ess, w'')))"

lemma segments_cut:
  "cut p = (es, s, c) \<Longrightarrow>
     (\<exists>k. c = Ctx_saved k \<and> (s = READY \<or> s = SUSPEND) \<and> segments p = es # segments k \<and>
          final_state p = final_state k) \<or>
     (c = Ctx_end \<and> segments p = [es] \<and> s = final_state p \<and> (s = TERMINATED \<or> s = EXCEPT))"
  by (induction p arbitrary: es) (auto split: prod.splits)

lemma segments_nonempty: "segments p \<noteq> []"
  by (induction p) (auto split: list.splits)

lemma run_calls_take:
  assumes "ucontext_ok uc" "on_main t m w" "a \<noteq> m" "fb_heap w a = Some f" "pending f p"
    and "n \<le> length (segments p)"
  shows "\<exists>f'. run_calls uc t a n w = Inr (take n (segments p), w\<lparr>fb_heap := (fb_heap w)(a \<mapsto> f')\<rparr>) \<and>
              (if n = length (segments p) then fb_state f' = final_state p \<and> isDone f'
               else \<exists>q. pending f' q \<and> length (segments q) = length (segments p) - n)"
  using assms(2,4-6)
proof (induction n arbitrary: w f p)
  case 0
  then have "(fb_heap w)(a \<mapsto> f) = fb_heap w"
    by (simp add: fun_upd_idem)
  then show ?case
    using 0 segments_nonempty [of p] by (intro exI [of _ f]) (simp add: exI [of _ p])
next
  case (Suc n)
  obtain es s c where cut: "cut p = (es, s, c)"
    by (cases "cut p") auto
  let ?f = "f\<lparr>fb_state := s, fb_ctx := c\<rparr>"
  let ?w = "w\<lparr>fb_heap := (fb_heap w)(a \<mapsto> ?f)\<rparr>"
  have call: "Fiber_call uc t a w = Inr (es, ?w)"
    using Fiber_call_cut [OF assms(1) Suc.prems(1) assms(3) Suc.prems(2,3)] cut by simp
  have main: "on_main t m ?w"
    using Suc.prems(1) by (simp add: on_main_def)
  from segments_cut [OF cut] consider
    (more) k where "c = Ctx_saved k" "s = READY \<or> s = SUSPEND" "segments p = es # segments k"
      "final_state p = final_state k"
    | (last) "c = Ctx_end" "segments p = [es]" "s = final_state p" "s = TERMINATED \<or> s = EXCEPT"
    by blast
  then show ?case
  proof cases
    case k: (more k)
    have "pending ?f k"
      using k Suc.prems(3) by (auto simp: pending_def)
    moreover have "fb_heap ?w a = Some ?f" by simp
    ultimately obtain f' where
      "run_calls uc t a n ?w = Inr (take n (segments k), ?w\<lparr>fb_heap := (fb_heap ?w)(a \<mapsto> f')\<rparr>)"
      "if n = length (segments k) then fb_state f' = final_state k \<and> isDone f'
       else \<exists>q. pending f' q \<and> length (segments q) = length (segments k) - n"
      using Suc.IH [OF main] Suc.prems(4) k(3) by fastforce
    with call k(3,4) show ?thesis
      by (intro exI [of _ f']) (simp del: fun_upd_apply)
  next
    case e: last
    with Suc.prems(4) have "n = 0" by simp
    with e call show ?thesis
      by (intro exI [of _ ?f]) (simp add: isDone_def del: fun_upd_apply)
  qed
qed

text \<open>
  C13. A fiber performs its function's effects in program order, each exactly once, however often
  it yields: the \<open>n\<close>-th call performs the \<open>n\<close>-th stretch between yields, no other fiber and no
  thread-local changes, and the fiber is done after as many calls as there are stretches, not
  before.
\<close>

theorem fiber_runs_its_function:
  assumes "ucontext_ok uc" and "on_main t m w" and "a \<noteq> m" and "fb_heap w a = Some f" and "pending f p"
    and "n \<le> length (segments p)"
  shows "\<exists>f'. run_calls uc t a n w = Inr (take n (segments p), w\<lparr>fb_heap := (fb_heap w)(a \<mapsto> f')\<rparr>) \<and>
              (isDone f' \<longleftrightarrow> n = length (segments p)) \<and>
              (isDone f' \<longrightarrow> fb_state f' = final_state p)"
proof -
  from run_calls_take [OF assms] obtain f' where
    r: "run_calls uc t a n w = Inr (take n (segments p), w\<lparr>fb_heap := (fb_heap w)(a \<mapsto> f')\<rparr>)" and
    d: "if n = length (segments p) then fb_state f' = final_state p \<and> isDone f'
        else \<exists>q. pending f' q \<and> length (segments q) = length (segments p) - n"
    by blast
  have "\<not> isDone f'" if "n \<noteq> length (segments p)"
    using d that by (auto simp: pending_def isDone_def)
  with r d show ?thesis
    by (intro exI [of _ f']) (auto split: if_splits)
qed

definition ex_uc :: ucontext_ops where
  "ex_uc = \<lparr>getcontext = (\<lambda>_. 0), swapcontext = (\<lambda>_ _. 0)\<rparr>"

lemma ex_uc_ok: "ucontext_ok ex_uc"
  by (simp add: ucontext_ok_def ex_uc_def)

definition ex_fiber :: "nat Fiber" where
  "ex_fiber = \<lparr>fb_id = 1, fb_ctx = Ctx_entry, uc_link = None,
               fb_func = Some (Do 10 (Yield_then (Do 20 (Do 30 Return)))), fb_main = False, fb_state = READY\<rparr>"

definition ex_fibers :: "nat fibers" where
  "ex_fibers = \<lparr>fb_heap = [0 \<mapsto> \<lparr>fb_id = 0, fb_ctx = Ctx_thread, uc_link = None, fb_func = None,
                                   fb_main = True, fb_state = RUNNING\<rparr>, 1 \<mapsto> ex_fiber],
                s_fiber_id = 1, s_fiber_count = 2, t_fiber = (\<lambda>_. Some 0), t_main_fiber = (\<lambda>_. Some 0)\<rparr>"

theorem fiber_runs_its_function_witness:
  "\<exists>w'. run_calls ex_uc 7 1 2 ex_fibers = Inr ([[10], [20, 30]], w') \<and>
        map_option fb_state (fb_heap w' 1) = Some TERMINATED"
  using fiber_runs_its_function [OF ex_uc_ok, of 7 0 ex_fibers 1 ex_fiber
      "Do 10 (Yield_then (Do 20 (Do 30 Return)))" 2]
  by (auto simp: on_main_def ex_fibers_def pending_def ex_fiber_def isDone_def)

text \<open>
  Calling a fiber that has ended. A \<open>TERM\<close> fiber fails the assertion of \<open>call\<close>. An \<open>EXCEPT\<close>
  fiber passes it and runs off the end of \<open>MainFunc\<close>: the thread ends if the fiber still has the
  link of its constructor; after a \<open>reset\<close>, \<open>call\<close> returns with the dead fiber left \<open>RUNNING\<close> and
  as the current fiber of the thread.
\<close>

lemma call_of_ended_fiber:
  assumes "ucontext_ok uc" and "on_main t m w" and "fb_heap w a = Some f" and "\<not> fb_main f"
    and "fb_ctx f = Ctx_end"
  shows "(fb_state f = TERMINATED \<longrightarrow> Fiber_call uc t a w = Inl AssertFail) \<and>
         (fb_state f = EXCEPT \<and> uc_link f = None \<longrightarrow> Fiber_call uc t a w = Inl ThreadExit) \<and>
         (fb_state f = EXCEPT \<and> uc_link f = Some m \<longrightarrow>
            (\<exists>w'. Fiber_call uc t a w = Inr ([], w') \<and> t_fiber w' t = Some a \<and>
                  fb_heap w' a = Some (f\<lparr>fb_state := RUNNING\<rparr>)))"
  using assms by (auto simp: Fiber_call_def call_enter_def resume_def switch_defs on_main_def)

section \<open>All fibers of a process\<close>

text \<open>
  The operations as steps, by any thread in any order. Addresses of new objects are free; the
  64-bit identifier has not run out; a fiber is called or reset only by code that obeys the
  contract of \<open>isDone()\<close> and leaves main fibers alone, as \<open>Scheduler::run\<close> does.
\<close>

inductive fiber_step :: "ucontext_ops \<Rightarrow> 'e fibers \<Rightarrow> 'e fibers \<Rightarrow> bool" for uc where
  step_GetThis:
    "fb_heap w a = None \<Longrightarrow> GetThis uc t a w = Inr (b, w') \<Longrightarrow> fiber_step uc w w'"
| step_ctor:
    "fb_heap w a = None \<Longrightarrow> s_fiber_id w \<noteq> -1 \<Longrightarrow> Fiber_ctor uc t a func False w = Inr w' \<Longrightarrow>
     fiber_step uc w w'"
| step_call:
    "fb_heap w a = Some f \<Longrightarrow> \<not> isDone f \<Longrightarrow> Fiber_call uc t a w = Inr (es, w') \<Longrightarrow> fiber_step uc w w'"
| step_reset:
    "fb_heap w a = Some f \<Longrightarrow> \<not> fb_main f \<Longrightarrow> Fiber_reset uc t a func w = Inr w' \<Longrightarrow> fiber_step uc w w'"
| step_dtor:
    "fb_heap w a = Some f \<Longrightarrow> \<not> fb_main f \<Longrightarrow> Fiber_dtor t a w = Inr w' \<Longrightarrow> fiber_step uc w w'"

definition fibers_init :: "'e fibers" where
  "fibers_init = \<lparr>fb_heap = Map.empty, s_fiber_id = 0, s_fiber_count = 0,
                  t_fiber = (\<lambda>_. None), t_main_fiber = (\<lambda>_. None)\<rparr>"

inductive fiber_reach :: "ucontext_ops \<Rightarrow> 'e fibers \<Rightarrow> bool" for uc where
  fiber_reach_init: "fiber_reach uc fibers_init"
| fiber_reach_step: "fiber_reach uc w \<Longrightarrow> fiber_step uc w w' \<Longrightarrow> fiber_reach uc w'"

definition at_rest :: "'e Fiber \<Rightarrow> bool" where
  "at_rest f \<longleftrightarrow> (\<exists>p. pending f p) \<or> \<not> fb_main f \<and> isDone f"

definition count_inv :: "'e fibers \<Rightarrow> bool" where
  "count_inv w \<longleftrightarrow> finite (dom (fb_heap w)) \<and> s_fiber_count w = of_nat (card (dom (fb_heap w)))"

definition main_inv :: "'e fibers \<Rightarrow> bool" where
  "main_inv w \<longleftrightarrow>
     (\<forall>t. t_fiber w t = t_main_fiber w t) \<and>
     (\<forall>t m. t_main_fiber w t = Some m \<longrightarrow> (\<exists>f. fb_heap w m = Some f \<and> fb_main f))"

definition state_inv :: "'e fibers \<Rightarrow> bool" where
  "state_inv w \<longleftrightarrow>
     (\<forall>a f. fb_heap w a = Some f \<longrightarrow>
        (if fb_main f then fb_state f = RUNNING \<and> fb_func f = None else at_rest f))"

definition id_inv :: "'e fibers \<Rightarrow> bool" where
  "id_inv w \<longleftrightarrow>
     (\<forall>a f. fb_heap w a = Some f \<and> \<not> fb_main f \<longrightarrow> 0 < fb_id f \<and> fb_id f \<le> s_fiber_id w) \<and>
     (\<forall>a b f g. fb_heap w a = Some f \<and> fb_heap w b = Some g \<and> \<not> fb_main f \<and> \<not> fb_main g \<and>
        fb_id f = fb_id g \<longrightarrow> a = b)"

definition fib_inv :: "'e fibers \<Rightarrow> bool" where
  "fib_inv w \<longleftrightarrow> count_inv w \<and> main_inv w \<and> state_inv w \<and> id_inv w"

lemmas fib_inv_defs = fib_inv_def count_inv_def main_inv_def state_inv_def id_inv_def

lemma fib_inv_init: "fib_inv fibers_init"
  by (simp add: fib_inv_defs fibers_init_def)

lemma fib_invD_main: "fib_inv w \<Longrightarrow> t_main_fiber w t = Some m \<Longrightarrow> \<exists>f. fb_heap w m = Some f \<and> fb_main f"
  by (simp add: fib_inv_def main_inv_def)

lemma fib_invD_plain: "fib_inv w \<Longrightarrow> fb_heap w a = Some f \<Longrightarrow> \<not> fb_main f \<Longrightarrow> at_rest f"
  by (simp add: fib_inv_def state_inv_def)

lemma main_inv_heap:
  assumes "main_inv w" "t_fiber w' = t_fiber w" "t_main_fiber w' = t_main_fiber w"
    and "\<And>m f. fb_heap w m = Some f \<Longrightarrow> fb_main f \<Longrightarrow> \<exists>g. fb_heap w' m = Some g \<and> fb_main g"
  shows "main_inv w'"
  using assms unfolding main_inv_def by metis

lemma id_inv_extend:
  assumes inv: "id_inv w" and h: "fb_heap w' = (fb_heap w)(a \<mapsto> g)"
    and le: "s_fiber_id w \<le> s_fiber_id w'"
    and g: "fb_main g \<or> s_fiber_id w < fb_id g \<and> fb_id g \<le> s_fiber_id w'"
  shows "id_inv w'"
proof -
  have old: "0 < fb_id f \<and> fb_id f \<le> s_fiber_id w" if "fb_heap w b = Some f" "\<not> fb_main f" for b f
    using inv that unfolding id_inv_def by blast
  have fresh: "fb_id f \<noteq> fb_id g" if "fb_heap w b = Some f" "\<not> fb_main f" "\<not> fb_main g" for b f
    using old [OF that(1,2)] g that(3) by auto
  have bound: "0 < fb_id f \<and> fb_id f \<le> s_fiber_id w'" if "fb_heap w' b = Some f" "\<not> fb_main f" for b f
  proof (cases "b = a")
    case True
    with that h g show ?thesis by (auto simp: word_gt_0)
  next
    case False
    with that h old [of b f] le show ?thesis by auto
  qed
  have "b = c" if "fb_heap w' b = Some f" "fb_heap w' c = Some f'" "\<not> fb_main f" "\<not> fb_main f'"
      "fb_id f = fb_id f'" for b c f f'
  proof (cases "b = a \<or> c = a")
    case True
    with that h fresh show ?thesis by (metis fun_upd_apply option.inject)
  next
    case False
    with that h inv show ?thesis unfolding id_inv_def by (metis fun_upd_apply)
  qed
  with bound show ?thesis
    unfolding id_inv_def by blast
qed

text \<open>Replacing a fiber that is not a main one by a version of itself that is at rest.\<close>

lemma fib_inv_upd:
  assumes "fib_inv w" "fb_heap w a = Some f" "\<not> fb_main f"
    and "fb_id f' = fb_id f" "\<not> fb_main f'" "at_rest f'"
  shows "fib_inv (w\<lparr>fb_heap := (fb_heap w)(a \<mapsto> f')\<rparr>)"
proof -
  have "insert a (dom (fb_heap w)) = dom (fb_heap w)"
    using assms(2) by auto
  then have "count_inv (w\<lparr>fb_heap := (fb_heap w)(a \<mapsto> f')\<rparr>)"
    using assms(1) by (simp add: fib_inv_def count_inv_def)
  moreover have "main_inv (w\<lparr>fb_heap := (fb_heap w)(a \<mapsto> f')\<rparr>)"
    by (rule main_inv_heap [of w]) (use assms(1-3) in \<open>auto simp: fib_inv_def\<close>)
  moreover have "state_inv (w\<lparr>fb_heap := (fb_heap w)(a \<mapsto> f')\<rparr>)"
    using assms by (simp add: fib_inv_def state_inv_def)
  moreover have "id_inv (w\<lparr>fb_heap := (fb_heap w)(a \<mapsto> f')\<rparr>)"
    using assms unfolding fib_inv_def id_inv_def by (simp, metis)
  ultimately show ?thesis
    by (simp add: fib_inv_def)
qed

lemma cut_at_rest:
  "cut p = (es, s, c) \<Longrightarrow> \<not> fb_main f \<Longrightarrow> at_rest (f\<lparr>fb_state := s, fb_ctx := c\<rparr>)"
  using segments_cut [of p es s c] by (auto simp: at_rest_def pending_def isDone_def)

lemma fib_inv_call:
  assumes uc: "ucontext_ok uc" and inv: "fib_inv w" and f: "fb_heap w a = Some f" "\<not> isDone f"
    and m: "t_main_fiber w t = Some m"
  shows "\<exists>es w'. Fiber_call uc t a w = Inr (es, w') \<and> fib_inv w'"
proof (cases "fb_main f")
  case True
  then have "Fiber_call uc t a w = Inr ([], w)"
    using f inv by (simp add: Fiber_call_def deref_def fib_inv_def main_inv_def)
  with inv show ?thesis by simp
next
  case False
  have "on_main t m w"
    using inv m by (simp add: fib_inv_def main_inv_def on_main_def)
  moreover have "a \<noteq> m"
    using fib_invD_main [OF inv m] f False by auto
  moreover obtain p where p: "pending f p"
    using fib_invD_plain [OF inv f(1) False] f(2) by (auto simp: at_rest_def)
  moreover obtain es s c where cut: "cut p = (es, s, c)"
    by (cases "cut p") auto
  ultimately have "Fiber_call uc t a w = Inr (es, w\<lparr>fb_heap := (fb_heap w)(a \<mapsto> f\<lparr>fb_state := s, fb_ctx := c\<rparr>)\<rparr>)"
    using Fiber_call_cut [OF uc _ _ f(1) p] by simp
  moreover have "fib_inv (w\<lparr>fb_heap := (fb_heap w)(a \<mapsto> f\<lparr>fb_state := s, fb_ctx := c\<rparr>)\<rparr>)"
    using fib_inv_upd [OF inv f(1) False] False cut_at_rest [OF cut] by simp
  ultimately show ?thesis by blast
qed


lemma fib_inv_MakeMain:
  assumes inv: "fib_inv w" and a: "fb_heap w a = None" and r: "MakeMain uc t a w = Inr w'"
  shows "fib_inv w'"
proof (cases "t_main_fiber w t")
  case None
  let ?g = "\<lparr>fb_id = 0, fb_ctx = Ctx_thread, uc_link = None, fb_func = None,
             fb_main = True, fb_state = RUNNING\<rparr>"
  have w': "w' = w\<lparr>s_fiber_count := s_fiber_count w + 1, fb_heap := (fb_heap w)(a \<mapsto> ?g),
                  t_main_fiber := (t_main_fiber w)(t := Some a), t_fiber := (t_fiber w)(t := Some a)\<rparr>"
    using r None by (auto simp: MakeMain_def Fiber_ctor_main_def set_t_fiber_def simp del: fun_upd_apply)
  have "a \<notin> dom (fb_heap w)" using a by auto
  then have "count_inv w'"
    using inv by (simp add: w' fib_inv_def count_inv_def)
  moreover have "main_inv w'"
    using inv by (auto simp: w' fib_inv_def main_inv_def)
  moreover have "state_inv w'"
    using inv by (simp add: w' fib_inv_def state_inv_def)
  moreover have "id_inv w'"
    by (rule id_inv_extend [of w w' a ?g]) (use inv in \<open>simp_all add: w' fib_inv_def\<close>)
  ultimately show ?thesis
    by (simp add: fib_inv_def)
next
  case (Some m)
  with r inv show ?thesis by (simp add: MakeMain_def)
qed

lemma fib_inv_GetThis:
  "fib_inv w \<Longrightarrow> fb_heap w a = None \<Longrightarrow> GetThis uc t a w = Inr (b, w') \<Longrightarrow> fib_inv w'"
  by (auto simp: GetThis_def split: if_splits option.splits dest: fib_inv_MakeMain)

lemma fib_inv_ctor:
  assumes inv: "fib_inv w" and a: "fb_heap w a = None" and id: "s_fiber_id w \<noteq> -1"
    and r: "Fiber_ctor uc t a func False w = Inr w'"
  shows "fib_inv w'"
proof -
  let ?g = "\<lparr>fb_id = s_fiber_id w + 1, fb_ctx = Ctx_entry, uc_link = None, fb_func = func,
             fb_main = False, fb_state = READY\<rparr>"
  have w': "w' = w\<lparr>s_fiber_id := s_fiber_id w + 1, s_fiber_count := s_fiber_count w + 1,
                  fb_heap := (fb_heap w)(a \<mapsto> ?g)\<rparr>"
    using r by (auto simp: Fiber_ctor_def Let_def simp del: fun_upd_apply)
  have up: "s_fiber_id w < s_fiber_id w + 1"
    using id by (rule word_less_Suc)
  have "a \<notin> dom (fb_heap w)" using a by auto
  then have "count_inv w'"
    using inv by (simp add: w' fib_inv_def count_inv_def)
  moreover have "main_inv w'"
    by (rule main_inv_heap [of w]) (use inv a in \<open>auto simp: w' fib_inv_def\<close>)
  moreover have "at_rest ?g"
    by (auto simp: at_rest_def pending_def)
  then have "state_inv w'"
    using inv by (simp add: w' fib_inv_def state_inv_def)
  moreover have "id_inv w'"
    by (rule id_inv_extend [of w w' a ?g]) (use inv up in \<open>simp_all add: w' fib_inv_def\<close>)
  ultimately show ?thesis
    by (simp add: fib_inv_def)
qed


lemma fib_inv_reset:
  assumes inv: "fib_inv w" and f: "fb_heap w a = Some f" "\<not> fb_main f"
    and r: "Fiber_reset uc t a func w = Inr w'"
  shows "fib_inv w'"
proof -
  let ?g = "f\<lparr>fb_func := func, fb_state := READY, uc_link := t_main_fiber w t, fb_ctx := Ctx_entry\<rparr>"
  have "w' = w\<lparr>fb_heap := (fb_heap w)(a \<mapsto> ?g)\<rparr>"
    using r f by (auto simp: Fiber_reset_def deref_def simp del: fun_upd_apply)
  moreover have "at_rest ?g"
    using f by (auto simp: at_rest_def pending_def)
  ultimately show ?thesis
    using fib_inv_upd [OF inv f, of ?g] f by simp
qed

lemma fib_inv_dtor:
  assumes inv: "fib_inv w" and f: "fb_heap w a = Some f" "\<not> fb_main f"
    and r: "Fiber_dtor t a w = Inr w'"
  shows "fib_inv w'"
proof -
  have "t_main_fiber w t \<noteq> Some a"
    using fib_invD_main [OF inv, of t a] f by auto
  then have w': "w' = w\<lparr>s_fiber_count := s_fiber_count w - 1, fb_heap := (fb_heap w)(a := None)\<rparr>"
    using r f by (auto simp: Fiber_dtor_def deref_def Let_def simp del: fun_upd_apply)
  have "card (dom (fb_heap w)) = Suc (card (dom (fb_heap w) - {a}))"
    using inv f by (intro card.remove) (auto simp: fib_inv_def count_inv_def)
  then have "count_inv w'"
    using inv by (simp add: w' fib_inv_def count_inv_def)
  moreover have "main_inv w'"
    by (rule main_inv_heap [of w]) (use inv f in \<open>auto simp: w' fib_inv_def\<close>)
  moreover have "state_inv w'" and "id_inv w'"
    using inv unfolding fib_inv_def state_inv_def id_inv_def w' by (simp_all, metis+)
  ultimately show ?thesis
    by (simp add: fib_inv_def)
qed

lemma fib_inv_step:
  assumes "fiber_step uc w w'" "ucontext_ok uc" "fib_inv w"
  shows "fib_inv w'"
  using assms
proof (induction rule: fiber_step.induct)
  case (step_call w a f t es w')
  then have "t_main_fiber w t \<noteq> None \<or> fb_main f"
    by (auto simp: Fiber_call_def call_enter_def deref_def set_t_fiber_def Let_def split: if_splits option.splits)
  then consider m where "t_main_fiber w t = Some m" | "t_main_fiber w t = None" "fb_main f"
    by auto
  then show ?case
  proof cases
    case 1
    from fib_inv_call [OF step_call.prems step_call.hyps(1,2) 1] step_call.hyps(3) show ?thesis
      by auto
  next
    case 2
    then have "w' = w"
      using step_call by (auto simp: Fiber_call_def deref_def fib_inv_def main_inv_def)
    with step_call.prems show ?thesis by simp
  qed
qed (auto intro: fib_inv_GetThis fib_inv_ctor fib_inv_reset fib_inv_dtor)

lemma fib_inv_reach: "fiber_reach uc w \<Longrightarrow> ucontext_ok uc \<Longrightarrow> fib_inv w"
  by (induction rule: fiber_reach.induct) (auto intro: fib_inv_init fib_inv_step)


lemma ex_fibers_reach:
  "fiber_reach ex_uc (ex_fibers\<lparr>t_fiber := [7 \<mapsto> 0], t_main_fiber := [7 \<mapsto> 0]\<rparr>)"
proof -
  let ?w1 = "ex_fibers\<lparr>t_fiber := [7 \<mapsto> 0], t_main_fiber := [7 \<mapsto> 0], s_fiber_id := 0, s_fiber_count := 1,
               fb_heap := (fb_heap ex_fibers)(1 := None)\<rparr>"
  have "GetThis ex_uc 7 0 fibers_init = Inr (0, ?w1)"
    by (simp add: GetThis_def MakeMain_def Fiber_ctor_main_def fibers_init_def ex_uc_def
        set_t_fiber_def ex_fibers_def)
  then have "fiber_step ex_uc fibers_init ?w1"
    by (rule fiber_step.step_GetThis [rotated]) (simp add: fibers_init_def)
  then have "fiber_reach ex_uc ?w1"
    by (rule fiber_reach.fiber_reach_step [OF fiber_reach.fiber_reach_init])
  moreover have "Fiber_ctor ex_uc 7 1 (fb_func ex_fiber) False ?w1 =
      Inr (ex_fibers\<lparr>t_fiber := [7 \<mapsto> 0], t_main_fiber := [7 \<mapsto> 0]\<rparr>)"
    by (simp add: Fiber_ctor_def ex_uc_def ex_fibers_def ex_fiber_def)
  then have "fiber_step ex_uc ?w1 (ex_fibers\<lparr>t_fiber := [7 \<mapsto> 0], t_main_fiber := [7 \<mapsto> 0]\<rparr>)"
    by (rule fiber_step.step_ctor [rotated 2]) simp_all
  ultimately show ?thesis
    by (rule fiber_reach.fiber_reach_step)
qed


end
