(* ===== verification/Std_Set.thy ===== *)
theory Std_Set
  imports EVA_Prelude
begin

text \<open>
  \<open>std::set\<close> with a user comparator, as the timer manager uses it: an ascending list of keys,
  searched from the front with the comparator only. The locale states what a comparator owes
  the container (a strict total order); the container's laws are proved in it once.
\<close>

section \<open>The container\<close>

text \<open>
  \<open>insert\<close> answers the position of the element it placed or found (the code compares the
  iterator with \<open>begin()\<close>); \<open>erase\<close> by key answers how many elements it removed.
\<close>

fun set_insert :: "('a \<Rightarrow> 'a \<Rightarrow> bool) \<Rightarrow> 'a \<Rightarrow> 'a list \<Rightarrow> nat \<times> 'a list" where
  "set_insert lt x [] = (0, [x])"
| "set_insert lt x (y # ys) =
     (if lt y x then (case set_insert lt x ys of (p, zs) \<Rightarrow> (Suc p, y # zs))
      else if lt x y then (0, x # y # ys)
      else (0, y # ys))"

fun set_erase :: "('a \<Rightarrow> 'a \<Rightarrow> bool) \<Rightarrow> 'a \<Rightarrow> 'a list \<Rightarrow> nat \<times> 'a list" where
  "set_erase lt x [] = (0, [])"
| "set_erase lt x (y # ys) =
     (if lt y x then (case set_erase lt x ys of (n, zs) \<Rightarrow> (n, y # zs))
      else if lt x y then (0, y # ys)
      else (1, ys))"

section \<open>The laws of a comparator and of the container\<close>

locale comparator =
  fixes lt :: "'a \<Rightarrow> 'a \<Rightarrow> bool"
  assumes lt_irrefl: "\<not> lt x x"
    and lt_trans: "lt x y \<Longrightarrow> lt y z \<Longrightarrow> lt x z"
    and lt_total: "x \<noteq> y \<Longrightarrow> lt x y \<or> lt y x"
begin

lemma lt_asym: "lt x y \<Longrightarrow> \<not> lt y x"
  using lt_irrefl lt_trans by blast

lemma lt_equiv: "\<not> lt x y \<Longrightarrow> \<not> lt y x \<Longrightarrow> x = y"
  using lt_total by blast

lemma lt_cases [case_names less equal greater]:
  "(lt x y \<Longrightarrow> \<not> lt y x \<Longrightarrow> x \<noteq> y \<Longrightarrow> P) \<Longrightarrow> (x = y \<Longrightarrow> \<not> lt x y \<Longrightarrow> P) \<Longrightarrow>
   (lt y x \<Longrightarrow> \<not> lt x y \<Longrightarrow> x \<noteq> y \<Longrightarrow> P) \<Longrightarrow> P"
  using lt_total lt_asym lt_irrefl by metis

lemma sorted_distinct: "sorted_wrt lt xs \<Longrightarrow> distinct xs"
  by (induction xs) (auto simp: lt_irrefl)

lemma set_insert_set: "set (snd (set_insert lt x xs)) = insert x (set xs)"
proof (induction xs)
  case (Cons y ys)
  show ?case
    by (cases rule: lt_cases [of x y]) (simp_all add: Cons case_prod_beta insert_commute)
qed simp

lemma set_insert_sorted: "sorted_wrt lt xs \<Longrightarrow> sorted_wrt lt (snd (set_insert lt x xs))"
proof (induction xs)
  case (Cons y ys)
  have "set (snd (set_insert lt x ys)) = insert x (set ys)"
    by (rule set_insert_set)
  with Cons show ?case
    by (cases rule: lt_cases [of x y])
       (auto split: prod.splits dest: lt_trans [of x y])
qed simp

lemma set_insert_first:
  "sorted_wrt lt xs \<Longrightarrow>
     fst (set_insert lt x xs) = 0 \<longleftrightarrow> (\<forall>y \<in> set xs. y = x \<or> lt x y)"
proof (cases xs)
  case (Cons y ys)
  assume "sorted_wrt lt xs"
  then have after: "\<And>z. z \<in> set ys \<Longrightarrow> lt y z" using Cons by simp
  show ?thesis
  proof (cases rule: lt_cases [of x y])
    case less
    then show ?thesis using Cons after lt_trans [OF less(1)] by auto
  next
    case equal
    then show ?thesis using Cons after by auto
  next
    case greater
    then show ?thesis using Cons by (auto split: prod.splits)
  qed
qed simp

lemma set_insert_present: "sorted_wrt lt xs \<Longrightarrow> x \<in> set xs \<Longrightarrow> snd (set_insert lt x xs) = xs"
proof (induction xs)
  case (Cons y ys)
  then show ?case
    by (cases rule: lt_cases [of x y]) (auto split: prod.splits)
qed simp

lemma set_erase_count:
  "sorted_wrt lt xs \<Longrightarrow> fst (set_erase lt x xs) = (if x \<in> set xs then 1 else 0)"
proof (induction xs)
  case (Cons y ys)
  then show ?case
    by (cases rule: lt_cases [of x y]) (auto split: prod.splits)
qed simp

lemma set_erase_set: "sorted_wrt lt xs \<Longrightarrow> set (snd (set_erase lt x xs)) = set xs - {x}"
proof (induction xs)
  case (Cons y ys)
  then show ?case
    by (cases rule: lt_cases [of x y]) (auto split: prod.splits)
qed simp

lemma set_erase_sorted: "sorted_wrt lt xs \<Longrightarrow> sorted_wrt lt (snd (set_erase lt x xs))"
proof (induction xs)
  case (Cons y ys)
  then have "set (snd (set_erase lt x ys)) \<subseteq> set ys"
    by (auto simp: set_erase_set)
  with Cons show ?case
    by (auto split: prod.splits)
qed simp

lemma set_erase_absent: "sorted_wrt lt xs \<Longrightarrow> x \<notin> set xs \<Longrightarrow> snd (set_erase lt x xs) = xs"
proof (induction xs)
  case (Cons y ys)
  then show ?case
    by (cases rule: lt_cases [of x y]) (auto split: prod.splits)
qed simp

text \<open>Two ascending lists with the same elements are the same list: the set is determined by its contents.\<close>

lemma sorted_set_unique:
  "sorted_wrt lt xs \<Longrightarrow> sorted_wrt lt ys \<Longrightarrow> set xs = set ys \<Longrightarrow> xs = ys"
proof (induction xs arbitrary: ys)
  case Nil
  then show ?case by simp
next
  case (Cons x xs)
  then obtain y ys' where ys: "ys = y # ys'" by (cases ys) auto
  have "x = y"
  proof (rule ccontr)
    assume "x \<noteq> y"
    then have "x \<in> set ys'" "y \<in> set xs"
      using Cons.prems(3) unfolding ys by auto
    then have "lt y x" "lt x y"
      using Cons.prems(1,2) unfolding ys by auto
    then show False using lt_asym by blast
  qed
  moreover have "set xs = set ys'"
  proof -
    have "x \<notin> set xs" "y \<notin> set ys'"
      using Cons.prems(1,2) lt_irrefl unfolding ys by auto
    then show ?thesis
      using Cons.prems(3) \<open>x = y\<close> unfolding ys by (simp add: insert_ident)
  qed
  ultimately show ?case
    using Cons ys by simp
qed

lemma set_erase_insert:
  assumes "sorted_wrt lt xs" "x \<notin> set xs"
  shows "snd (set_erase lt x (snd (set_insert lt x xs))) = xs"
  using assms
  by (intro sorted_set_unique) (auto simp: set_erase_sorted set_insert_sorted set_erase_set set_insert_set)

end

text \<open>
  The order of a list depends on the comparator only through the elements of the list, so an
  update of an object that is not in the set leaves the set ascending.
\<close>

lemma sorted_wrt_cong_on:
  "(\<And>x y. x \<in> set xs \<Longrightarrow> y \<in> set xs \<Longrightarrow> f x y = g x y) \<Longrightarrow> sorted_wrt f xs = sorted_wrt g xs"
  by (induction xs) auto

end
