(* ===== verification/EVA_Timer.thy ===== *)
theory EVA_Timer
  imports Std_Set
begin

text \<open>
  \<open>src/src/timer.h\<close> and \<open>src/src/timer.cpp\<close>: timers as objects in a heap, the manager's
  \<open>std::set\<close> of pointers ordered by deadline and then by address, and every operation of
  \<open>TimerManager\<close> and \<open>TimerManager::Timer\<close>. The clock \<open>GetCurrentMs()\<close> and the address chosen
  by the allocator are arguments. Each critical section of the code is a definition of its own,
  so that operations made of two sections can be interleaved.
\<close>

section \<open>State\<close>

type_synonym addr = nat

record 'f Timer =
  m_period :: u64
  m_next :: u64
  m_func :: 'f
  m_recurring :: bool

record 'f TimerManager =
  timer_heap :: "addr \<Rightarrow> 'f Timer"
  m_timers :: "addr list"

definition Timer_cmp :: "(addr \<Rightarrow> 'f Timer) \<Rightarrow> addr option \<Rightarrow> addr option \<Rightarrow> bool" where
  "Timer_cmp h a b =
     (case (a, b) of
        (None, None) \<Rightarrow> False
      | (None, Some q) \<Rightarrow> True
      | (Some p, None) \<Rightarrow> False
      | (Some p, Some q) \<Rightarrow>
          if m_next (h p) < m_next (h q) then True
          else if m_next (h q) < m_next (h p) then False
          else p < q)"

abbreviation before :: "(addr \<Rightarrow> 'f Timer) \<Rightarrow> addr \<Rightarrow> addr \<Rightarrow> bool" where
  "before h p q \<equiv> Timer_cmp h (Some p) (Some q)"

definition Timer_ctor :: "u64 \<Rightarrow> u64 \<Rightarrow> 'f \<Rightarrow> bool \<Rightarrow> 'f Timer" where
  "Timer_ctor now period func recurring =
     \<lparr>m_period = period, m_next = now + period, m_func = func, m_recurring = recurring\<rparr>"

section \<open>Operations\<close>

text \<open>
  The private \<open>addTimer(Timer::ptr)\<close>: the answer is the flag \<open>changed\<close>, on which the code calls
  \<open>onFirstTimerChanged()\<close>.
\<close>

definition addTimer_ptr :: "addr \<Rightarrow> 'f TimerManager \<Rightarrow> 'f TimerManager \<times> bool" where
  "addTimer_ptr p tm =
     (case set_insert (before (timer_heap tm)) p (m_timers tm) of
        (pos, ts) \<Rightarrow> (tm\<lparr>m_timers := ts\<rparr>, pos = 0))"

definition addTimer ::
  "u64 \<Rightarrow> addr \<Rightarrow> u64 \<Rightarrow> 'f \<Rightarrow> bool \<Rightarrow> 'f TimerManager \<Rightarrow> 'f TimerManager \<times> bool" where
  "addTimer now p period func recurring tm =
     addTimer_ptr p (tm\<lparr>timer_heap := (timer_heap tm)(p := Timer_ctor now period func recurring)\<rparr>)"

text \<open>
  Callbacks as the code builds them: a function, or \<open>std::bind(&OnTimer, weak_cond, cb)\<close>.
  Running one calls the functions in the answer; \<open>alive w\<close> says whether \<open>weak_cond.lock()\<close> is
  not null.
\<close>

datatype 'f callback = Callback 'f | Bind_OnTimer nat "'f callback"

fun OnTimer :: "(nat \<Rightarrow> bool) \<Rightarrow> 'f callback \<Rightarrow> 'f list" where
  "OnTimer alive (Callback f) = [f]"
| "OnTimer alive (Bind_OnTimer w cb) = (if alive w then OnTimer alive cb else [])"

definition addConditionTimer ::
  "u64 \<Rightarrow> addr \<Rightarrow> u64 \<Rightarrow> 'f callback \<Rightarrow> nat \<Rightarrow> bool \<Rightarrow> 'f callback TimerManager \<Rightarrow>
   'f callback TimerManager \<times> bool" where
  "addConditionTimer now p ms cb weak_cond recurring tm =
     addTimer now p ms (Bind_OnTimer weak_cond cb) recurring tm"

definition Timer_cancel :: "addr \<Rightarrow> 'f TimerManager \<Rightarrow> 'f TimerManager \<times> bool" where
  "Timer_cancel p tm =
     (case set_erase (before (timer_heap tm)) p (m_timers tm) of
        (n, ts) \<Rightarrow> (tm\<lparr>m_timers := ts\<rparr>, n = 1))"

text \<open>
  \<open>refresh\<close>: the section under the lock, \<open>None\<close> where it returns false, and then the
  unlocked call of \<open>addTimer\<close>. The answer is the new state, the result and \<open>changed\<close>.
\<close>

definition refresh_section :: "u64 \<Rightarrow> addr \<Rightarrow> 'f TimerManager \<Rightarrow> 'f TimerManager option" where
  "refresh_section now p tm =
     (case set_erase (before (timer_heap tm)) p (m_timers tm) of
        (n, ts) \<Rightarrow>
          if n \<noteq> 1 then None
          else Some (tm\<lparr>m_timers := ts,
                        timer_heap := (timer_heap tm)
                          (p := (timer_heap tm p)\<lparr>m_next := now + m_period (timer_heap tm p)\<rparr>)\<rparr>))"

definition Timer_refresh :: "u64 \<Rightarrow> addr \<Rightarrow> 'f TimerManager \<Rightarrow> 'f TimerManager \<times> bool \<times> bool" where
  "Timer_refresh now p tm =
     (case refresh_section now p tm of
        None \<Rightarrow> (tm, False, False)
      | Some tm' \<Rightarrow> (case addTimer_ptr p tm' of (tm'', changed) \<Rightarrow> (tm'', True, changed)))"

definition getNextTimeMs :: "u64 \<Rightarrow> 'f TimerManager \<Rightarrow> u64" where
  "getNextTimeMs now tm =
     (case m_timers tm of
        [] \<Rightarrow> NOT 0
      | p # _ \<Rightarrow> if m_next (timer_heap tm p) > now then m_next (timer_heap tm p) - now else 0)"

definition hasTimers :: "'f TimerManager \<Rightarrow> bool" where
  "hasTimers tm \<longleftrightarrow> m_timers tm \<noteq> []"

text \<open>The first loop of \<open>getExpiredFuncs\<close>: functions, expired timers, timers left in the set.\<close>

fun expire_loop ::
  "(addr \<Rightarrow> 'f Timer) \<Rightarrow> u64 \<Rightarrow> addr list \<Rightarrow> 'f list \<Rightarrow> addr list \<Rightarrow> 'f list \<times> addr list \<times> addr list" where
  "expire_loop h now [] funcs expired = (funcs, expired, [])"
| "expire_loop h now (p # ps) funcs expired =
     (if m_next (h p) \<le> now
      then expire_loop h now ps (funcs @ [m_func (h p)]) (expired @ [p])
      else (case expire_loop h now ps funcs expired of (fs, es, kept) \<Rightarrow> (fs, es, p # kept)))"

text \<open>The second loop: the recurring ones are moved on by their period and put back.\<close>

fun rearm_loop :: "addr list \<Rightarrow> 'f TimerManager \<Rightarrow> 'f TimerManager" where
  "rearm_loop [] tm = tm"
| "rearm_loop (p # ps) tm =
     (if m_recurring (timer_heap tm p)
      then let h = (timer_heap tm)(p := (timer_heap tm p)
                     \<lparr>m_next := m_next (timer_heap tm p) + m_period (timer_heap tm p)\<rparr>)
           in rearm_loop ps (tm\<lparr>timer_heap := h, m_timers := snd (set_insert (before h) p (m_timers tm))\<rparr>)
      else rearm_loop ps tm)"

definition getExpiredFuncs :: "u64 \<Rightarrow> 'f list \<Rightarrow> 'f TimerManager \<Rightarrow> 'f list \<times> 'f TimerManager" where
  "getExpiredFuncs now funcs tm =
     (if m_timers tm = [] then (funcs, tm)
      else case expire_loop (timer_heap tm) now (m_timers tm) funcs [] of
             (fs, expired, kept) \<Rightarrow> (fs, rearm_loop expired (tm\<lparr>m_timers := kept\<rparr>)))"

section \<open>The comparator is a strict total order\<close>

interpretation tcmp: comparator "before h" for h :: "addr \<Rightarrow> 'f Timer"
  by unfold_locales (auto simp: Timer_cmp_def split: if_splits)

lemma before_next: "before h p q \<Longrightarrow> m_next (h p) \<le> m_next (h q)"
  by (auto simp: Timer_cmp_def split: if_splits)

lemma before_upd_other [simp]:
  "x \<noteq> p \<Longrightarrow> y \<noteq> p \<Longrightarrow> before (h(p := t)) x y = before h x y"
  by (simp add: Timer_cmp_def)

definition tm_wf :: "'f TimerManager \<Rightarrow> bool" where
  "tm_wf tm \<longleftrightarrow> sorted_wrt (before (timer_heap tm)) (m_timers tm)"

text \<open>What a manager has promised: the deadline of every timer in its set.\<close>

definition armed :: "'f TimerManager \<Rightarrow> addr \<rightharpoonup> u64" where
  "armed tm p = (if p \<in> set (m_timers tm) then Some (m_next (timer_heap tm p)) else None)"

lemma sorted_upd_absent:
  "p \<notin> set ps \<Longrightarrow> sorted_wrt (before (h(p := t))) ps = sorted_wrt (before h) ps"
  by (rule sorted_wrt_cong_on) (metis before_upd_other)


section \<open>Functional behaviour of the operations\<close>

lemma expire_loop_eq:
  "expire_loop h now ps fs es =
     (fs @ map (\<lambda>p. m_func (h p)) (filter (\<lambda>p. m_next (h p) \<le> now) ps),
      es @ filter (\<lambda>p. m_next (h p) \<le> now) ps,
      filter (\<lambda>p. now < m_next (h p)) ps)"
  by (induction ps arbitrary: fs es) (auto simp: not_le)

definition rearmed :: "'f Timer \<Rightarrow> 'f Timer" where
  "rearmed t = (if m_recurring t then t\<lparr>m_next := m_next t + m_period t\<rparr> else t)"

lemma rearm_loop_spec:
  assumes "tm_wf tm" "distinct ps" "set ps \<inter> set (m_timers tm) = {}"
  shows "tm_wf (rearm_loop ps tm) \<and>
         set (m_timers (rearm_loop ps tm)) =
           set (m_timers tm) \<union> {p \<in> set ps. m_recurring (timer_heap tm p)} \<and>
         timer_heap (rearm_loop ps tm) =
           (\<lambda>p. if p \<in> set ps then rearmed (timer_heap tm p) else timer_heap tm p)"
  using assms
proof (induction ps arbitrary: tm)
  case Nil
  then show ?case by simp
next
  case (Cons p ps)
  show ?case
  proof (cases "m_recurring (timer_heap tm p)")
    case True
    let ?h = "(timer_heap tm)(p := (timer_heap tm p)
                \<lparr>m_next := m_next (timer_heap tm p) + m_period (timer_heap tm p)\<rparr>)"
    let ?tm = "tm\<lparr>timer_heap := ?h, m_timers := snd (set_insert (before ?h) p (m_timers tm))\<rparr>"
    have "sorted_wrt (before ?h) (m_timers tm)"
      using Cons.prems by (simp add: tm_wf_def sorted_upd_absent)
    then have "tm_wf ?tm"
      by (simp add: tm_wf_def tcmp.set_insert_sorted)
    moreover have "set (m_timers ?tm) = insert p (set (m_timers tm))"
      by (simp add: tcmp.set_insert_set)
    moreover have "rearm_loop (p # ps) tm = rearm_loop ps ?tm"
      using True by (simp add: Let_def)
    moreover have "set ps \<inter> insert p (set (m_timers tm)) = {}"
      using Cons.prems by auto
    ultimately show ?thesis
      using Cons.IH [of ?tm] Cons.prems(2) True by (auto simp: rearmed_def fun_eq_iff)
  next
    case False
    then have "rearm_loop (p # ps) tm = rearm_loop ps tm" by simp
    then show ?thesis
      using Cons.IH [of tm] Cons.prems False by (auto simp: rearmed_def fun_eq_iff)
  qed
qed

lemma tm_wf_filter: "tm_wf tm \<Longrightarrow> tm_wf (tm\<lparr>m_timers := filter P (m_timers tm)\<rparr>)"
  by (simp add: tm_wf_def sorted_wrt_filter)

lemma tm_wf_distinct: "tm_wf tm \<Longrightarrow> distinct (m_timers tm)"
  by (simp add: tm_wf_def tcmp.sorted_distinct)

definition expired_timers :: "u64 \<Rightarrow> 'f TimerManager \<Rightarrow> addr list" where
  "expired_timers now tm = filter (\<lambda>p. m_next (timer_heap tm p) \<le> now) (m_timers tm)"

lemma expired_timers_due:
  assumes "tm_wf tm"
  shows "set (expired_timers now tm) = {p \<in> set (m_timers tm). m_next (timer_heap tm p) \<le> now}"
    and "distinct (expired_timers now tm)"
    and "sorted_wrt (\<lambda>p q. m_next (timer_heap tm p) \<le> m_next (timer_heap tm q)) (expired_timers now tm)"
proof -
  show "set (expired_timers now tm) = {p \<in> set (m_timers tm). m_next (timer_heap tm p) \<le> now}"
    and "distinct (expired_timers now tm)"
    using tm_wf_distinct [OF assms] by (auto simp: expired_timers_def)
  have "sorted_wrt (before (timer_heap tm)) (expired_timers now tm)"
    using assms by (simp add: tm_wf_def expired_timers_def sorted_wrt_filter)
  then show "sorted_wrt (\<lambda>p q. m_next (timer_heap tm p) \<le> m_next (timer_heap tm q)) (expired_timers now tm)"
    by (rule sorted_wrt_mono_rel [rotated]) (rule before_next)
qed

lemma getExpiredFuncs_funcs:
  "fst (getExpiredFuncs now fs tm) = fs @ map (\<lambda>p. m_func (timer_heap tm p)) (expired_timers now tm)"
  by (simp add: getExpiredFuncs_def expire_loop_eq expired_timers_def)

lemma getExpiredFuncs_state:
  assumes "tm_wf tm"
  shows "tm_wf (snd (getExpiredFuncs now fs tm))"
    and "set (m_timers (snd (getExpiredFuncs now fs tm))) =
           {p \<in> set (m_timers tm). now < m_next (timer_heap tm p) \<or> m_recurring (timer_heap tm p)}"
    and "timer_heap (snd (getExpiredFuncs now fs tm)) p =
           (if p \<in> set (expired_timers now tm) then rearmed (timer_heap tm p) else timer_heap tm p)"
proof -
  let ?tm = "tm\<lparr>m_timers := filter (\<lambda>p. now < m_next (timer_heap tm p)) (m_timers tm)\<rparr>"
  have eq: "snd (getExpiredFuncs now fs tm) = rearm_loop (expired_timers now tm) ?tm"
    by (cases "m_timers tm = []")
       (simp_all add: getExpiredFuncs_def expire_loop_eq expired_timers_def)
  have "set (expired_timers now tm) \<inter> set (m_timers ?tm) = {}"
    by (auto simp: expired_timers_def)
  moreover have "distinct (expired_timers now tm)"
    using tm_wf_distinct [OF assms] by (simp add: expired_timers_def)
  ultimately have spec:
    "tm_wf (rearm_loop (expired_timers now tm) ?tm)"
    "set (m_timers (rearm_loop (expired_timers now tm) ?tm)) =
       set (m_timers ?tm) \<union> {p \<in> set (expired_timers now tm). m_recurring (timer_heap ?tm p)}"
    "timer_heap (rearm_loop (expired_timers now tm) ?tm) =
       (\<lambda>p. if p \<in> set (expired_timers now tm) then rearmed (timer_heap ?tm p) else timer_heap ?tm p)"
    using rearm_loop_spec [of ?tm "expired_timers now tm"] tm_wf_filter [OF assms] by blast+
  show "tm_wf (snd (getExpiredFuncs now fs tm))"
    unfolding eq by (rule spec(1))
  show "set (m_timers (snd (getExpiredFuncs now fs tm))) =
      {p \<in> set (m_timers tm). now < m_next (timer_heap tm p) \<or> m_recurring (timer_heap tm p)}"
    unfolding eq spec(2) by (auto simp: expired_timers_def not_le)
  show "timer_heap (snd (getExpiredFuncs now fs tm)) p =
      (if p \<in> set (expired_timers now tm) then rearmed (timer_heap tm p) else timer_heap tm p)"
    unfolding eq spec(3) by simp
qed

lemma addTimer_ptr_state:
  assumes "tm_wf tm"
  shows "tm_wf (fst (addTimer_ptr p tm))"
    and "set (m_timers (fst (addTimer_ptr p tm))) = insert p (set (m_timers tm))"
    and "timer_heap (fst (addTimer_ptr p tm)) = timer_heap tm"
    and "snd (addTimer_ptr p tm) \<longleftrightarrow> (\<forall>q \<in> set (m_timers tm). q = p \<or> before (timer_heap tm) p q)"
  using assms
  by (simp_all add: addTimer_ptr_def tm_wf_def case_prod_beta tcmp.set_insert_sorted
      tcmp.set_insert_set tcmp.set_insert_first)

lemma addTimer_state:
  assumes "tm_wf tm" "p \<notin> set (m_timers tm)"
  shows "tm_wf (fst (addTimer now p period f rec tm))"
    and "set (m_timers (fst (addTimer now p period f rec tm))) = insert p (set (m_timers tm))"
    and "timer_heap (fst (addTimer now p period f rec tm)) =
           (timer_heap tm)(p := Timer_ctor now period f rec)"
proof -
  let ?tm = "tm\<lparr>timer_heap := (timer_heap tm)(p := Timer_ctor now period f rec)\<rparr>"
  have "tm_wf ?tm"
    using assms by (simp add: tm_wf_def sorted_upd_absent)
  from addTimer_ptr_state [OF this]
  show "tm_wf (fst (addTimer now p period f rec tm))"
    and "set (m_timers (fst (addTimer now p period f rec tm))) = insert p (set (m_timers tm))"
    and "timer_heap (fst (addTimer now p period f rec tm)) =
           (timer_heap tm)(p := Timer_ctor now period f rec)"
    by (simp_all add: addTimer_def)
qed

lemma Timer_cancel_state:
  assumes "tm_wf tm"
  shows "tm_wf (fst (Timer_cancel p tm))"
    and "set (m_timers (fst (Timer_cancel p tm))) = set (m_timers tm) - {p}"
    and "timer_heap (fst (Timer_cancel p tm)) = timer_heap tm"
    and "snd (Timer_cancel p tm) \<longleftrightarrow> p \<in> set (m_timers tm)"
  using assms
  by (simp_all add: Timer_cancel_def tm_wf_def case_prod_beta tcmp.set_erase_sorted
      tcmp.set_erase_set tcmp.set_erase_count)

lemma refresh_section_None: "tm_wf tm \<Longrightarrow> refresh_section now p tm = None \<longleftrightarrow> p \<notin> set (m_timers tm)"
  by (simp add: refresh_section_def tm_wf_def case_prod_beta tcmp.set_erase_count)

lemma refresh_section_Some:
  assumes "tm_wf tm" "refresh_section now p tm = Some tm'"
  shows "tm_wf tm'" and "set (m_timers tm') = set (m_timers tm) - {p}"
    and "timer_heap tm' = (timer_heap tm)
           (p := (timer_heap tm p)\<lparr>m_next := now + m_period (timer_heap tm p)\<rparr>)"
proof -
  obtain n ts where e: "set_erase (before (timer_heap tm)) p (m_timers tm) = (n, ts)"
    by (cases "set_erase (before (timer_heap tm)) p (m_timers tm)")
  have ts: "sorted_wrt (before (timer_heap tm)) ts" "set ts = set (m_timers tm) - {p}"
    using tcmp.set_erase_sorted [of "timer_heap tm" "m_timers tm" p]
      tcmp.set_erase_set [of "timer_heap tm" "m_timers tm" p] assms(1) e
    by (simp_all add: tm_wf_def)
  moreover have "tm' = tm\<lparr>m_timers := ts, timer_heap := (timer_heap tm)
           (p := (timer_heap tm p)\<lparr>m_next := now + m_period (timer_heap tm p)\<rparr>)\<rparr>"
    using assms(2) e by (simp add: refresh_section_def split: if_splits)
  ultimately show "tm_wf tm'" and "set (m_timers tm') = set (m_timers tm) - {p}"
    and "timer_heap tm' = (timer_heap tm)
           (p := (timer_heap tm p)\<lparr>m_next := now + m_period (timer_heap tm p)\<rparr>)"
    by (simp_all add: tm_wf_def sorted_upd_absent)
qed

lemma Timer_refresh_state:
  assumes "tm_wf tm"
  shows "tm_wf (fst (Timer_refresh now p tm))"
    and "set (m_timers (fst (Timer_refresh now p tm))) = set (m_timers tm)"
    and "fst (snd (Timer_refresh now p tm)) \<longleftrightarrow> p \<in> set (m_timers tm)"
    and "p \<in> set (m_timers tm) \<Longrightarrow> timer_heap (fst (Timer_refresh now p tm)) = (timer_heap tm)
           (p := (timer_heap tm p)\<lparr>m_next := now + m_period (timer_heap tm p)\<rparr>)"
    and "p \<notin> set (m_timers tm) \<Longrightarrow> fst (Timer_refresh now p tm) = tm"
proof -
  show "p \<notin> set (m_timers tm) \<Longrightarrow> fst (Timer_refresh now p tm) = tm"
    using refresh_section_None [OF assms, of now p] by (simp add: Timer_refresh_def)
  note absent = this
  have present:
    "tm_wf (fst (Timer_refresh now p tm)) \<and> set (m_timers (fst (Timer_refresh now p tm))) = set (m_timers tm) \<and>
     fst (snd (Timer_refresh now p tm)) \<and>
     timer_heap (fst (Timer_refresh now p tm)) = (timer_heap tm)
           (p := (timer_heap tm p)\<lparr>m_next := now + m_period (timer_heap tm p)\<rparr>)"
    if mem: "p \<in> set (m_timers tm)"
  proof -
    obtain tm' where tm': "refresh_section now p tm = Some tm'"
      using refresh_section_None [OF assms, of now p] mem by auto
    have "Timer_refresh now p tm = (fst (addTimer_ptr p tm'), True, snd (addTimer_ptr p tm'))"
      by (simp add: Timer_refresh_def tm' split: prod.splits)
    then show ?thesis
      using refresh_section_Some [OF assms tm'] addTimer_ptr_state(1-3) [of tm' p] mem
      by (simp add: insert_absorb)
  qed
  show "tm_wf (fst (Timer_refresh now p tm))"
    and "set (m_timers (fst (Timer_refresh now p tm))) = set (m_timers tm)"
    using present absent assms by fastforce+
  show "fst (snd (Timer_refresh now p tm)) \<longleftrightarrow> p \<in> set (m_timers tm)"
    using present refresh_section_None [OF assms, of now p] by (auto simp: Timer_refresh_def)
  show "p \<in> set (m_timers tm) \<Longrightarrow> timer_heap (fst (Timer_refresh now p tm)) = (timer_heap tm)
           (p := (timer_heap tm p)\<lparr>m_next := now + m_period (timer_heap tm p)\<rparr>)"
    using present by blast
qed


section \<open>Polling a timer service\<close>

text \<open>
  What a poller of the manager (the idle loop of the scheduler) relies on, stated over the
  deadlines only: a poll fires exactly the timers that are due, drops the one-shot ones and
  moves the recurring ones on. The consequences for whole sequences of polls are proved once.
\<close>

fun run_polls :: "(u64 \<Rightarrow> 's \<Rightarrow> addr list \<times> 's) \<Rightarrow> u64 list \<Rightarrow> 's \<Rightarrow> addr list list \<times> 's" where
  "run_polls poll [] s = ([], s)"
| "run_polls poll (t # ts) s =
     (let (es, s') = poll t s; (ess, s'') = run_polls poll ts s' in (es # ess, s''))"

declare run_polls.simps(2) [simp del]

fun first_only :: "bool list \<Rightarrow> bool list" where
  "first_only [] = []"
| "first_only (b # bs) = (if b then True # map (\<lambda>_. False) bs else False # first_only bs)"

locale timer_service =
  fixes deadline :: "'s \<Rightarrow> addr \<Rightarrow> u64 option"
    and period :: "'s \<Rightarrow> addr \<Rightarrow> u64 option"
    and poll :: "u64 \<Rightarrow> 's \<Rightarrow> addr list \<times> 's"
    and inv :: "'s \<Rightarrow> bool"
  assumes poll_inv: "inv s \<Longrightarrow> inv (snd (poll now s))"
    and poll_fires: "inv s \<Longrightarrow> p \<in> set (fst (poll now s)) \<longleftrightarrow> (\<exists>d. deadline s p = Some d \<and> d \<le> now)"
    and poll_deadline: "inv s \<Longrightarrow> deadline (snd (poll now s)) p =
          (case deadline s p of
             None \<Rightarrow> None
           | Some d \<Rightarrow> if d \<le> now then map_option ((+) d) (period s p) else Some d)"
    and poll_period: "inv s \<Longrightarrow> period (snd (poll now s)) p = period s p"
begin

lemma run_polls_Cons:
  "fst (run_polls poll (t # ts) s) = fst (poll t s) # fst (run_polls poll ts (snd (poll t s)))"
  "snd (run_polls poll (t # ts) s) = snd (run_polls poll ts (snd (poll t s)))"
  by (simp_all add: run_polls.simps(2) case_prod_beta Let_def)

lemma unarmed_silent:
  "inv s \<Longrightarrow> deadline s p = None \<Longrightarrow>
   map (\<lambda>es. p \<in> set es) (fst (run_polls poll ts s)) = map (\<lambda>_. False) ts"
proof (induction ts arbitrary: s)
  case (Cons t ts)
  then show ?case
    by (simp add: run_polls_Cons poll_inv poll_fires poll_deadline)
qed simp

lemma one_shot_once:
  "inv s \<Longrightarrow> deadline s p = Some d \<Longrightarrow> period s p = None \<Longrightarrow>
   map (\<lambda>es. p \<in> set es) (fst (run_polls poll ts s)) = first_only (map (\<lambda>t. d \<le> t) ts)"
proof (induction ts arbitrary: s)
  case (Cons t ts)
  show ?case
  proof (cases "d \<le> t")
    case True
    then have "deadline (snd (poll t s)) p = None"
      using Cons.prems by (simp add: poll_deadline)
    from unarmed_silent [OF poll_inv [OF Cons.prems(1)] this, of ts] True Cons.prems
    show ?thesis
      by (simp add: run_polls_Cons poll_fires comp_def)
  next
    case False
    with Cons show ?thesis
      by (simp add: run_polls_Cons poll_fires poll_inv poll_deadline poll_period)
  qed
qed simp

lemma recurring_no_drift:
  "inv s \<Longrightarrow> deadline s p = Some d \<Longrightarrow> period s p = Some per \<Longrightarrow>
   deadline (snd (run_polls poll ts s)) p =
     Some (d + of_nat (length (filter (\<lambda>es. p \<in> set es) (fst (run_polls poll ts s)))) * per)"
proof (induction ts arbitrary: s d)
  case (Cons t ts)
  have "deadline (snd (poll t s)) p = Some (if d \<le> t then d + per else d)"
    using Cons.prems by (simp add: poll_deadline)
  from Cons.IH [OF poll_inv [OF Cons.prems(1)] this] Cons.prems
  show ?case
    by (simp add: run_polls_Cons poll_fires poll_period algebra_simps)
qed simp

end

definition period_of :: "'f TimerManager \<Rightarrow> addr \<Rightarrow> u64 option" where
  "period_of tm p =
     (if m_recurring (timer_heap tm p) then Some (m_period (timer_heap tm p)) else None)"

definition poll_timers :: "u64 \<Rightarrow> 'f TimerManager \<Rightarrow> addr list \<times> 'f TimerManager" where
  "poll_timers now tm = (expired_timers now tm, snd (getExpiredFuncs now [] tm))"

lemma rearmed_simps [simp]:
  "m_recurring (rearmed t) = m_recurring t" "m_period (rearmed t) = m_period t"
  "m_func (rearmed t) = m_func t"
  "m_next (rearmed t) = (if m_recurring t then m_next t + m_period t else m_next t)"
  by (simp_all add: rearmed_def)

interpretation tsvc: timer_service armed period_of poll_timers tm_wf
proof unfold_locales
  fix s :: "'f TimerManager" and now :: u64 and p :: addr
  assume wf: "tm_wf s"
  note st = getExpiredFuncs_state [OF wf, of now "[]"]
  show "tm_wf (snd (poll_timers now s))"
    using st(1) by (simp add: poll_timers_def)
  show "p \<in> set (fst (poll_timers now s)) \<longleftrightarrow> (\<exists>d. armed s p = Some d \<and> d \<le> now)"
    by (auto simp: poll_timers_def expired_timers_def armed_def)
  show "armed (snd (poll_timers now s)) p =
          (case armed s p of
             None \<Rightarrow> None
           | Some d \<Rightarrow> if d \<le> now then map_option ((+) d) (period_of s p) else Some d)"
    using st(2,3) by (auto simp: poll_timers_def armed_def period_of_def expired_timers_def not_le)
  show "period_of (snd (poll_timers now s)) p = period_of s p"
    using st(3) by (simp add: poll_timers_def period_of_def)
qed

section \<open>Properties\<close>

text \<open>
  The manager's set stays strictly ascending by deadline and address under every operation,
  although the deadlines live in the shared timer objects and are changed in place.
\<close>

theorem timer_ops_keep_order:
  assumes "tm_wf tm" and "q \<notin> set (m_timers tm)"
  shows "tm_wf (fst (addTimer now q period f rec tm)) \<and>
         tm_wf (fst (Timer_cancel p tm)) \<and>
         tm_wf (fst (Timer_refresh now p tm)) \<and>
         tm_wf (snd (getExpiredFuncs now fs tm))"
  using assms by (simp add: addTimer_state(1) Timer_cancel_state(1) Timer_refresh_state(1) getExpiredFuncs_state(1))

definition ex_tm :: "nat TimerManager" where
  "ex_tm = \<lparr>timer_heap = (\<lambda>p. if p = 3 then Timer_ctor 0 5 30 True else Timer_ctor 0 9 10 False),
            m_timers = [3, 1]\<rparr>"

lemma ex_tm_simps:
  "m_timers ex_tm = [3, 1]" "timer_heap ex_tm 3 = Timer_ctor 0 5 30 True"
  "timer_heap ex_tm (Suc 0) = Timer_ctor 0 9 10 False"
  by (simp_all add: ex_tm_def)

lemma ex_tm_wf: "tm_wf ex_tm"
  by (simp add: tm_wf_def ex_tm_def Timer_cmp_def Timer_ctor_def)

theorem timer_ops_keep_order_witness:
  "tm_wf (fst (addTimer 1 2 4 0 False ex_tm)) \<and> tm_wf (fst (Timer_refresh 7 3 ex_tm))"
  using timer_ops_keep_order [OF ex_tm_wf, of 2 1 4 0 False 3 "[]"]
    timer_ops_keep_order [OF ex_tm_wf, of 2 7 4 0 False 3 "[]"]
  by (simp add: ex_tm_simps)

text \<open>
  C12. \<open>getExpiredFuncs\<close> appends the functions of exactly the timers that are due, in order of
  their deadlines; afterwards the set holds the timers that were not due and the recurring ones
  that were, each recurring one moved on by its period, and no other timer object has changed.
\<close>

theorem getExpiredFuncs_correct:
  assumes "tm_wf tm" and "getExpiredFuncs now fs tm = (fs', tm')"
  shows "\<exists>es. fs' = fs @ map (\<lambda>p. m_func (timer_heap tm p)) es \<and>
              set es = {p \<in> set (m_timers tm). m_next (timer_heap tm p) \<le> now} \<and>
              distinct es \<and> sorted_wrt (\<lambda>p q. m_next (timer_heap tm p) \<le> m_next (timer_heap tm q)) es \<and>
              set (m_timers tm') =
                {p \<in> set (m_timers tm). now < m_next (timer_heap tm p) \<or> m_recurring (timer_heap tm p)} \<and>
              (\<forall>p. timer_heap tm' p = (if p \<in> set es then rearmed (timer_heap tm p) else timer_heap tm p))"
proof (intro exI [of _ "expired_timers now tm"] conjI)
  have fs': "fs' = fst (getExpiredFuncs now fs tm)" and tm': "tm' = snd (getExpiredFuncs now fs tm)"
    using assms(2) by simp_all
  note st = getExpiredFuncs_state [OF assms(1), of now fs, folded tm']
  show "fs' = fs @ map (\<lambda>p. m_func (timer_heap tm p)) (expired_timers now tm)"
    unfolding fs' by (rule getExpiredFuncs_funcs)
  show "set (expired_timers now tm) = {p \<in> set (m_timers tm). m_next (timer_heap tm p) \<le> now}"
    and "distinct (expired_timers now tm)"
    and "sorted_wrt (\<lambda>p q. m_next (timer_heap tm p) \<le> m_next (timer_heap tm q)) (expired_timers now tm)"
    by (rule expired_timers_due [OF assms(1)])+
  show "set (m_timers tm') =
          {p \<in> set (m_timers tm). now < m_next (timer_heap tm p) \<or> m_recurring (timer_heap tm p)}"
    by (rule st(2))
  show "\<forall>p. timer_heap tm' p =
          (if p \<in> set (expired_timers now tm) then rearmed (timer_heap tm p) else timer_heap tm p)"
    using st(3) by simp
qed

theorem getExpiredFuncs_correct_witness:
  "\<exists>tm'. getExpiredFuncs 6 [] ex_tm = ([30], tm') \<and> set (m_timers tm') = {3, 1}"
proof -
  have "fst (getExpiredFuncs 6 [] ex_tm) = [30]"
    by (simp add: getExpiredFuncs_def ex_tm_simps Timer_ctor_def)
  then obtain tm' where "getExpiredFuncs 6 [] ex_tm = ([30], tm')"
    by (metis prod.collapse)
  moreover have "{p \<in> set (m_timers ex_tm). 6 < m_next (timer_heap ex_tm p) \<or> m_recurring (timer_heap ex_tm p)} = {3, 1}"
    by (auto simp: ex_tm_simps Timer_ctor_def)
  ultimately show ?thesis
    using getExpiredFuncs_correct [OF ex_tm_wf, of 6 "[]" "[30]" tm'] by auto
qed

text \<open>
  \<open>getNextTimeMs\<close> is the time to the earliest deadline: it is 0 exactly when a call of
  \<open>getExpiredFuncs\<close> at the same time has something to run; otherwise nothing is due for that
  long and something is due then.
\<close>

lemma getNextTimeMs_correct:
  assumes "tm_wf tm"
  shows "(getNextTimeMs now tm = 0 \<longleftrightarrow> fst (getExpiredFuncs now [] tm) \<noteq> []) \<and>
         (hasTimers tm \<and> getNextTimeMs now tm \<noteq> 0 \<longrightarrow>
            fst (getExpiredFuncs (now + getNextTimeMs now tm) [] tm) \<noteq> [] \<and>
            (\<forall>t < now + getNextTimeMs now tm. fst (getExpiredFuncs t [] tm) = []))"
proof (cases "m_timers tm")
  case Nil
  then show ?thesis
    by (simp add: getNextTimeMs_def hasTimers_def getExpiredFuncs_funcs expired_timers_def)
next
  case (Cons p ps)
  have least: "m_next (timer_heap tm p) \<le> m_next (timer_heap tm q)" if "q \<in> set (m_timers tm)" for q
    using assms that Cons before_next by (auto simp: tm_wf_def)
  have due: "fst (getExpiredFuncs t [] tm) = [] \<longleftrightarrow> t < m_next (timer_heap tm p)" for t
  proof -
    have "expired_timers t tm \<noteq> [] \<longleftrightarrow> (\<exists>q \<in> set (m_timers tm). m_next (timer_heap tm q) \<le> t)"
      by (simp add: expired_timers_def filter_empty_conv)
    also have "\<dots> \<longleftrightarrow> m_next (timer_heap tm p) \<le> t"
      using least Cons by (auto intro: order_trans)
    finally show ?thesis by (auto simp: getExpiredFuncs_funcs not_le)
  qed
  have "getNextTimeMs now tm = (if now < m_next (timer_heap tm p) then m_next (timer_heap tm p) - now else 0)"
    by (simp add: getNextTimeMs_def Cons)
  then show ?thesis
    by (cases "now < m_next (timer_heap tm p)") (auto simp: due)
qed



text \<open>
  A recurring timer keeps its phase: after any polls its deadline is its first deadline plus
  its period once for every time it fired, so late polls do not accumulate drift.
\<close>

theorem recurring_timer_keeps_phase:
  assumes "tm_wf tm" and "p \<notin> set (m_timers tm)"
    and "run_polls poll_timers ts (fst (addTimer now p period f True tm)) = (ess, tm')"
  shows "armed tm' p =
         Some (now + period + of_nat (length (filter (\<lambda>es. p \<in> set es) ess)) * period)"
proof -
  let ?tm = "fst (addTimer now p period f True tm)"
  note st = addTimer_state [OF assms(1,2), of now period f True]
  have "armed ?tm p = Some (now + period)" and "period_of ?tm p = Some period"
    using st by (simp_all add: armed_def period_of_def Timer_ctor_def)
  from tsvc.recurring_no_drift [OF st(1) this, of ts] assms(3) show ?thesis
    by simp
qed

theorem recurring_timer_keeps_phase_witness:
  "\<exists>ess tm'. run_polls poll_timers [4, 12] (fst (addTimer 1 2 10 50 True ex_tm)) = (ess, tm') \<and>
     armed tm' 2 = Some (1 + 10 + of_nat (length (filter (\<lambda>es. 2 \<in> set es) ess)) * 10)"
proof -
  obtain ess tm' where "run_polls poll_timers [4, 12] (fst (addTimer 1 2 10 50 True ex_tm)) = (ess, tm')"
    by fastforce
  with recurring_timer_keeps_phase [OF ex_tm_wf _ this] show ?thesis
    by (auto simp: ex_tm_simps)
qed

text \<open>
  \<open>cancel()\<close> answers true exactly for a timer in the set, and a cancelled timer does not fire
  in any later poll; cancelling what was just added restores the set.
\<close>

lemma cancel_correct:
  assumes "tm_wf tm"
  shows "(snd (Timer_cancel p tm) \<longleftrightarrow> armed tm p \<noteq> None) \<and>
         map (\<lambda>es. p \<in> set es) (fst (run_polls poll_timers ts (fst (Timer_cancel p tm)))) =
           map (\<lambda>_. False) ts \<and>
         (p \<notin> set (m_timers tm) \<longrightarrow>
            m_timers (fst (Timer_cancel p (fst (addTimer now p period f rec tm)))) = m_timers tm)"
proof (intro conjI impI)
  note st = Timer_cancel_state [OF assms, of p]
  show "snd (Timer_cancel p tm) \<longleftrightarrow> armed tm p \<noteq> None"
    using st by (simp add: armed_def)
  have "armed (fst (Timer_cancel p tm)) p = None"
    using st by (simp add: armed_def)
  then show "map (\<lambda>es. p \<in> set es) (fst (run_polls poll_timers ts (fst (Timer_cancel p tm)))) =
      map (\<lambda>_. False) ts"
    by (rule tsvc.unarmed_silent [OF st(1)])
  assume p: "p \<notin> set (m_timers tm)"
  let ?h = "(timer_heap tm)(p := Timer_ctor now period f rec)"
  have "sorted_wrt (before ?h) (m_timers tm)"
    using assms p by (simp add: tm_wf_def sorted_upd_absent)
  from tcmp.set_erase_insert [OF this p]
  show "m_timers (fst (Timer_cancel p (fst (addTimer now p period f rec tm)))) = m_timers tm"
    by (simp add: Timer_cancel_def addTimer_def addTimer_ptr_def case_prod_beta)
qed

text \<open>
  \<open>refresh()\<close> releases the lock between taking the timer out of the set and putting it back.
  A \<open>cancel()\<close> of the same timer by another thread in between answers false, and the timer is
  armed again afterwards: the cancellation is lost.
\<close>

lemma cancel_lost_during_refresh:
  assumes "tm_wf tm" and "p \<in> set (m_timers tm)"
  shows "\<exists>tm1. refresh_section now p tm = Some tm1 \<and>
           (case Timer_cancel p tm1 of (tm2, cancelled) \<Rightarrow>
              \<not> cancelled \<and>
              armed (fst (addTimer_ptr p tm2)) p = Some (now + m_period (timer_heap tm p)))"
proof -
  obtain tm1 where tm1: "refresh_section now p tm = Some tm1"
    using refresh_section_None [OF assms(1), of now p] assms(2) by auto
  note st = refresh_section_Some [OF assms(1) tm1]
  note ca = Timer_cancel_state [OF st(1), of p]
  from addTimer_ptr_state [OF ca(1), of p] ca st tm1 show ?thesis
    by (simp add: case_prod_beta armed_def)
qed

text \<open>
  \<open>refresh()\<close> alone succeeds exactly on a timer in the set, gives it the deadline one period
  from now and leaves every other deadline as it was; it reports a new first timer exactly when
  the refreshed one is not after any other.
\<close>

lemma refresh_correct:
  assumes "tm_wf tm" and "Timer_refresh now p tm = (tm', ok, changed)"
  shows "(ok \<longleftrightarrow> armed tm p \<noteq> None) \<and>
         armed tm' = (if ok then (armed tm)(p \<mapsto> now + m_period (timer_heap tm p)) else armed tm) \<and>
         (changed \<longleftrightarrow> ok \<and> (\<forall>q. q \<noteq> p \<and> armed tm' q \<noteq> None \<longrightarrow> before (timer_heap tm') p q))"
proof -
  have tm': "tm' = fst (Timer_refresh now p tm)" and ok: "ok = fst (snd (Timer_refresh now p tm))"
    using assms(2) by simp_all
  note st = Timer_refresh_state [OF assms(1), where now = now and p = p, folded tm' ok]
  show ?thesis
  proof (cases "p \<in> set (m_timers tm)")
    case True
    obtain tm1 where tm1: "refresh_section now p tm = Some tm1"
      using refresh_section_None [OF assms(1), of now p] True by auto
    have changed: "changed = snd (addTimer_ptr p tm1)" and eq: "tm' = fst (addTimer_ptr p tm1)"
      using assms(2) tm1 by (simp_all add: Timer_refresh_def case_prod_beta)
    note s1 = refresh_section_Some [OF assms(1) tm1]
    note ad = addTimer_ptr_state [OF s1(1), of p, folded changed eq]
    have "armed tm' = (armed tm)(p \<mapsto> now + m_period (timer_heap tm p))"
      using st True by (auto simp: armed_def fun_eq_iff)
    moreover have "armed tm p \<noteq> None" using True by (simp add: armed_def)
    moreover have "changed \<longleftrightarrow> (\<forall>q. q \<noteq> p \<and> armed tm' q \<noteq> None \<longrightarrow> before (timer_heap tm') p q)"
      using ad by (auto simp: armed_def)
    ultimately show ?thesis using st True by simp
  next
    case False
    with refresh_section_None [OF assms(1), of now p] assms(2) show ?thesis
      by (simp add: Timer_refresh_def armed_def)
  qed
qed

end
