(* ===== verification/EVA_Scheduler.thy ===== *)
theory EVA_Scheduler
  imports EVA_Fiber EVA_Timer
begin

text \<open>
  \<open>src/src/scheduler.h\<close> and \<open>src/src/scheduler.cpp\<close>. First the operations on the scheduler's own
  state, one definition per method; then \<open>run()\<close> and \<open>idle()\<close> as a step relation over any number
  of worker threads, one rule per atomic action (a critical section or an access of an atomic
  counter), so that every interleaving of workers, callers of \<open>schedule\<close> and a caller of \<open>stop\<close>
  is a run. Functions given to the scheduler are programs that may call \<open>schedule\<close>, add timers and
  sleep through the hooked calls.
  The results of \<open>write\<close> on the tickle pipe, the clock and the pipe's readiness are arguments.
\<close>

section \<open>Tasks and the scheduler's state\<close>

datatype eff =
    Schedule_func "eff prog" int
  | Schedule_fiber fid int
  | Add_timer u64 "eff prog" bool
  | Add_wake u64  \<comment> \<open>the timer of the hooked sleeps, which queues the fiber that adds it\<close>
  | Act nat  \<comment> \<open>anything that does not touch the scheduler\<close>

type_synonym func = "eff prog"

record Task =
  tk_fiber :: "fid option"
  tk_func :: "func option"
  tk_thread :: tid

definition Task_reset :: Task where
  "Task_reset = \<lparr>tk_fiber = None, tk_func = None, tk_thread = -1\<rparr>"

definition Task_of_fiber :: "fid \<Rightarrow> tid \<Rightarrow> Task" where
  "Task_of_fiber fb thr_id = \<lparr>tk_fiber = Some fb, tk_func = None, tk_thread = thr_id\<rparr>"

definition Task_of_func :: "func \<Rightarrow> tid \<Rightarrow> Task" where
  "Task_of_func fc thr_id = \<lparr>tk_fiber = None, tk_func = Some fc, tk_thread = thr_id\<rparr>"

record Scheduler =
  m_tasks :: "Task list"
  m_threads :: "tid list"
  m_thread_count :: nat
  m_stopped :: bool
  m_stopping :: bool
  m_auto_stop :: bool
  m_active_threads :: u64
  m_idle_threads :: u64
  m_pending_count :: u64
  m_tickle_bytes :: nat  \<comment> \<open>bytes in the pipe \<open>m_tickle_fds\<close>\<close>
  m_timer_manager :: "func TimerManager"

text \<open>
  The constructor: the assertions on \<open>epoll_create\<close>, \<open>pipe\<close>, \<open>fcntl\<close> and \<open>epoll_ctl\<close>, whose results
  are the arguments, and the members' initial values.
\<close>

definition Scheduler_ctor ::
  "int \<Rightarrow> int \<Rightarrow> int \<Rightarrow> int \<Rightarrow> int \<Rightarrow> (addr \<Rightarrow> func Timer) \<Rightarrow> Scheduler result" where
  "Scheduler_ctor threads epfd pipe_rc fcntl_rc epoll_ctl_rc mem =
     ASSERT (threads > 0)
       (ASSERT (epfd > 0)
         (ASSERT (pipe_rc = 0)
           (ASSERT (fcntl_rc = 0)
             (ASSERT (epoll_ctl_rc = 0)
               (Inr \<lparr>m_tasks = [], m_threads = [], m_thread_count = nat threads,
                     m_stopped = True, m_stopping = False, m_auto_stop = False,
                     m_active_threads = 0, m_idle_threads = 0, m_pending_count = 0,
                     m_tickle_bytes = 0, m_timer_manager = \<lparr>timer_heap = mem, m_timers = []\<rparr>\<rparr>)))))"

definition Scheduler_dtor :: "Scheduler \<Rightarrow> unit result" where
  "Scheduler_dtor s = ASSERT (\<not> m_stopping s) (ASSERT (m_stopped s) (Inr ()))"

section \<open>Operations\<close>

definition tickle :: "int \<Rightarrow> Scheduler \<Rightarrow> Scheduler result" where
  "tickle write_rc s =
     (if m_idle_threads s \<le> 0 then Inr s
      else ASSERT (write_rc = 1) (Inr (s\<lparr>m_tickle_bytes := Suc (m_tickle_bytes s)\<rparr>)))"

definition schedule :: "int \<Rightarrow> Task \<Rightarrow> Scheduler \<Rightarrow> Scheduler result" where
  "schedule write_rc tk s =
     (let need_tickle = (m_tasks s = []);
          s' = s\<lparr>m_tasks := m_tasks s @ [tk]\<rparr>
      in if need_tickle then tickle write_rc s' else Inr s')"

definition schedule_range :: "int \<Rightarrow> func list \<Rightarrow> tid \<Rightarrow> Scheduler \<Rightarrow> Scheduler result" where
  "schedule_range write_rc fs thr s =
     (let need_tickle = (m_tasks s = []);
          s' = s\<lparr>m_tasks := m_tasks s @ map (\<lambda>f. Task_of_func f thr) fs\<rparr>
      in if need_tickle then tickle write_rc s' else Inr s')"

text \<open>\<open>start()\<close>; the identifiers of the threads it creates are the argument.\<close>

definition Scheduler_start :: "tid list \<Rightarrow> Scheduler \<Rightarrow> Scheduler result" where
  "Scheduler_start tids s =
     (if m_stopping s then Inr s
      else ASSERT (m_threads s = [])
             (Inr (s\<lparr>m_stopped := False, m_threads := take (m_thread_count s) tids\<rparr>)))"

text \<open>\<open>stop()\<close>: its first critical section, its loop of tickles and its last critical section.\<close>

definition stop_begin :: "Scheduler \<Rightarrow> Scheduler" where
  "stop_begin s = s\<lparr>m_auto_stop := True, m_stopping := True\<rparr>"

definition stop_end :: "Scheduler \<Rightarrow> Scheduler" where
  "stop_end s = s\<lparr>m_threads := [], m_stopping := False, m_stopped := True, m_auto_stop := False\<rparr>"

definition shouldStop :: "Scheduler \<Rightarrow> bool" where
  "shouldStop s \<longleftrightarrow>
     \<not> hasTimers (m_timer_manager s) \<and> m_auto_stop s \<and> m_stopping s \<and> m_tasks s = [] \<and>
     m_active_threads s = 0 \<and> m_pending_count s = 0"

text \<open>The override of \<open>onFirstTimerChanged\<close>, on top of the timer manager's \<open>addTimer\<close>.\<close>

definition Scheduler_addTimer ::
  "int \<Rightarrow> u64 \<Rightarrow> addr \<Rightarrow> u64 \<Rightarrow> func \<Rightarrow> bool \<Rightarrow> Scheduler \<Rightarrow> Scheduler result" where
  "Scheduler_addTimer write_rc now p period func recurring s =
     (case addTimer now p period func recurring (m_timer_manager s) of
        (tm, changed) \<Rightarrow>
          let s' = s\<lparr>m_timer_manager := tm\<rparr> in if changed then tickle write_rc s' else Inr s')"

text \<open>How long \<open>idle()\<close> lets \<open>epoll_wait\<close> block.\<close>

definition EPOLL_WAIT_TIMEOUT_MS :: u64 where
  "EPOLL_WAIT_TIMEOUT_MS = 3000"

definition idle_timeout :: "u64 \<Rightarrow> u64" where
  "idle_timeout next_time =
     (if next_time \<noteq> NOT 0 \<and> next_time < EPOLL_WAIT_TIMEOUT_MS then next_time else EPOLL_WAIT_TIMEOUT_MS)"

text \<open>
  The search of \<open>run()\<close> for a task: the iterator is an index. The branch for a task of another
  thread continues the loop without advancing the iterator. \<open>None\<close> is a search that never ends.
\<close>

partial_function (option) find_task :: "tid \<Rightarrow> Task list \<Rightarrow> nat \<Rightarrow> nat option option" where
  "find_task t ts it =
     (if it < length ts
      then if tk_thread (ts ! it) \<noteq> -1 \<and> tk_thread (ts ! it) \<noteq> t
           then find_task t ts it
           else Some (Some it)
      else Some None)"

definition task_ok :: "eff fibers \<Rightarrow> Task \<Rightarrow> bool" where
  "task_ok w tk \<longleftrightarrow>
     (case tk_fiber tk of
        None \<Rightarrow> False
      | Some a \<Rightarrow> (case fb_heap w a of None \<Rightarrow> False | Some f \<Rightarrow> fb_state f \<noteq> RUNNING)) \<or>
     tk_func tk \<noteq> None"

text \<open>The critical section at the top of the loop: the task taken, \<open>need_tickle\<close>, the new state.\<close>

definition take_task ::
  "tid \<Rightarrow> eff fibers \<Rightarrow> Scheduler \<Rightarrow> (Task \<times> bool \<times> Scheduler) result option" where
  "take_task t w s =
     (case find_task t (m_tasks s) 0 of
        None \<Rightarrow> None
      | Some None \<Rightarrow> Some (Inr (Task_reset, m_tasks s \<noteq> [], s))
      | Some (Some it) \<Rightarrow>
          let tk = m_tasks s ! it;
              rest = take it (m_tasks s) @ drop (Suc it) (m_tasks s)
          in Some (ASSERT (task_ok w tk) (Inr (tk, rest \<noteq> [], s\<lparr>m_tasks := rest\<rparr>))))"


section \<open>Worker threads\<close>

text \<open>
  Where a worker is in \<open>run()\<close>. \<open>Exec a k from_func\<close> is a worker inside fiber \<open>a\<close> with program \<open>k\<close>
  still to do; the \<open>Idle_\<close> positions are inside \<open>idle()\<close> on the worker's idle fiber.
\<close>

datatype wpc =
    Not_started
  | Started
  | Top
  | Took Task bool  \<comment> \<open>out of the critical section, with \<open>tk\<close> and \<open>need_tickle\<close>\<close>
  | Counted Task bool  \<comment> \<open>after the increment of \<open>m_active_threads\<close>\<close>
  | Dispatch Task  \<comment> \<open>after the tickle\<close>
  | Exec fid func bool
  | Back_fiber fid  \<comment> \<open>\<open>call()\<close> of \<open>tk.fiber\<close> has returned\<close>
  | Back_func fid  \<comment> \<open>\<open>call()\<close> of \<open>func_fiber\<close> has returned\<close>
  | Resched_fiber fid  \<comment> \<open>after the decrement of \<open>m_active_threads\<close>\<close>
  | Resched_func fid
  | Idle_top
  | Idle_wait
  | Idle_fired "func list"
  | Idle_events
  | Back_idle
  | Exited

text \<open>Where the caller of \<open>stop()\<close> is: the number of tickles left, or the joins.\<close>

datatype stop_pc = No_stop | Stop_tickle nat | Stop_join

record sys =
  sch :: Scheduler
  fibs :: "eff fibers"
  wpc :: "tid \<Rightarrow> wpc"
  idle_fiber :: "tid \<Rightarrow> State"  \<comment> \<open>state of the worker's idle fiber\<close>
  func_fiber :: "tid \<Rightarrow> fid option"
  stopper :: stop_pc

abbreviation goto :: "tid \<Rightarrow> wpc \<Rightarrow> sys \<Rightarrow> sys" where
  "goto t pc s \<equiv> s\<lparr>wpc := (wpc s)(t := pc)\<rparr>"

definition has_task :: "Task \<Rightarrow> bool" where
  "has_task tk \<longleftrightarrow> tk_fiber tk \<noteq> None \<or> tk_func tk \<noteq> None"

text \<open>\<open>tk.fiber && !tk.fiber->isDone()\<close>\<close>

definition fiber_runnable :: "eff fibers \<Rightarrow> Task \<Rightarrow> bool" where
  "fiber_runnable w tk \<longleftrightarrow>
     (case tk_fiber tk of
        None \<Rightarrow> False
      | Some a \<Rightarrow> (case fb_heap w a of None \<Rightarrow> False | Some f \<Rightarrow> \<not> isDone f))"

text \<open>The fiber a function task runs on: the worker's own one reset, or a new one at address \<open>a\<close>.\<close>

definition prepare_func_fiber ::
  "ucontext_ops \<Rightarrow> tid \<Rightarrow> fid \<Rightarrow> func \<Rightarrow> fid option \<Rightarrow> eff fibers \<Rightarrow> (fid \<times> eff fibers) result" where
  "prepare_func_fiber uc t a p ff w =
     (case ff of
        Some b \<Rightarrow> res_bind (Fiber_reset uc t b (Some p) w) (\<lambda>w'. Inr (b, w'))
      | None \<Rightarrow> res_bind (Fiber_ctor uc t a (Some p) False w) (\<lambda>w'. Inr (a, w')))"

text \<open>The function \<open>std::bind(&IOManager::schedule, iom, fiber, -1)\<close> that the hooked sleeps give to their timer.\<close>

definition wake_func :: "fid \<Rightarrow> func" where
  "wake_func fiber = Do (Schedule_fiber fiber (-1)) Return"

text \<open>
  The effect of a function running on fiber \<open>b\<close> on the scheduler; the tasks it queued are the first
  answer. The clock and the address of a new timer are arguments.
\<close>

fun do_eff :: "int \<Rightarrow> u64 \<Rightarrow> addr \<Rightarrow> fid \<Rightarrow> eff \<Rightarrow> Scheduler \<Rightarrow> (Task list \<times> Scheduler) result" where
  "do_eff wr now p b (Schedule_func f thr) s =
     res_bind (schedule wr (Task_of_func f thr) s) (\<lambda>s'. Inr ([Task_of_func f thr], s'))"
| "do_eff wr now p b (Schedule_fiber a thr) s =
     res_bind (schedule wr (Task_of_fiber a thr) s) (\<lambda>s'. Inr ([Task_of_fiber a thr], s'))"
| "do_eff wr now p b (Add_timer period f rec) s =
     res_bind (Scheduler_addTimer wr now p period f rec s) (\<lambda>s'. Inr ([], s'))"
| "do_eff wr now p b (Add_wake ms) s =
     res_bind (Scheduler_addTimer wr now p ms (wake_func b) False s) (\<lambda>s'. Inr ([], s'))"
| "do_eff wr now p b (Act n) s = Inr ([], s)"

text \<open>The set holds its timers through shared pointers, so that a new timer is at none of their addresses.\<close>

definition timer_addr_free :: "addr \<Rightarrow> Scheduler \<Rightarrow> bool" where
  "timer_addr_free p s \<longleftrightarrow> p \<notin> set (m_timers (m_timer_manager s))"

text \<open>
  The steps of worker \<open>t\<close>. Each step carries the tasks it queued, the tasks it took out of the
  queue, and 1 where a worker turns to its idle fiber, or leaves \<open>run()\<close>, with a task in its hands
  that it has counted in \<open>m_active_threads\<close>. The idle fiber runs \<open>idle()\<close>, whose positions are
  those of its thread, so only its state is kept.
\<close>

inductive wstep ::
  "ucontext_ops \<Rightarrow> tid \<Rightarrow> sys \<Rightarrow> Task list \<Rightarrow> Task list \<Rightarrow> nat \<Rightarrow> sys \<Rightarrow> bool" for uc t where
  w_begin:
    "wpc s t = Started \<Longrightarrow> fb_heap (fibs s) a = None \<Longrightarrow> GetThis uc t a (fibs s) = Inr (m, w) \<Longrightarrow>
     wstep uc t s [] [] 0
       (goto t Top (s\<lparr>fibs := w, idle_fiber := (idle_fiber s)(t := READY), func_fiber := (func_fiber s)(t := None)\<rparr>))"
| w_take:
    "wpc s t = Top \<Longrightarrow> take_task t (fibs s) (sch s) = Some (Inr (tk, nt, c)) \<Longrightarrow>
     wstep uc t s [] (if has_task tk then [tk] else []) 0 (goto t (Took tk nt) (s\<lparr>sch := c\<rparr>))"
| w_count:
    "wpc s t = Took tk nt \<Longrightarrow>
     wstep uc t s [] [] 0
       (goto t (Counted tk nt)
         (s\<lparr>sch := (if has_task tk then (sch s)\<lparr>m_active_threads := m_active_threads (sch s) + 1\<rparr>
                   else sch s)\<rparr>))"
| w_tickle:
    "wpc s t = Counted tk nt \<Longrightarrow> (if nt then tickle wr (sch s) else Inr (sch s)) = Inr c \<Longrightarrow>
     wstep uc t s [] [] 0 (goto t (Dispatch tk) (s\<lparr>sch := c\<rparr>))"
| w_call_fiber:
    "wpc s t = Dispatch tk \<Longrightarrow> fiber_runnable (fibs s) tk \<Longrightarrow> tk_fiber tk = Some a \<Longrightarrow>
     call_enter uc t a (fibs s) = Inr w \<Longrightarrow> fb_heap w a = Some f \<Longrightarrow> context_prog f = Some k \<Longrightarrow>
     wstep uc t s [] [] 0 (goto t (Exec a k False) (s\<lparr>fibs := w\<rparr>))"
| w_call_func:
    "wpc s t = Dispatch tk \<Longrightarrow> \<not> fiber_runnable (fibs s) tk \<Longrightarrow> tk_func tk = Some p \<Longrightarrow>
     fb_heap (fibs s) a = None \<Longrightarrow>
     prepare_func_fiber uc t a p (func_fiber s t) (fibs s) = Inr (b, w) \<Longrightarrow>
     call_enter uc t b w = Inr w' \<Longrightarrow> fb_heap w' b = Some f \<Longrightarrow> context_prog f = Some k \<Longrightarrow>
     wstep uc t s [] [] 0
       (goto t (Exec b k True) (s\<lparr>fibs := w', func_fiber := (func_fiber s)(t := Some b)\<rparr>))"
| w_exit:
    "wpc s t = Dispatch tk \<Longrightarrow> \<not> fiber_runnable (fibs s) tk \<Longrightarrow> tk_func tk = None \<Longrightarrow>
     idle_fiber s t = TERMINATED \<Longrightarrow>
     wstep uc t s [] [] (if has_task tk then 1 else 0) (goto t Exited s)"
| w_idle:
    "wpc s t = Dispatch tk \<Longrightarrow> \<not> fiber_runnable (fibs s) tk \<Longrightarrow> tk_func tk = None \<Longrightarrow>
     idle_fiber s t \<noteq> TERMINATED \<Longrightarrow>
     wstep uc t s [] [] (if has_task tk then 1 else 0)
       (goto t Idle_top
         (s\<lparr>sch := (sch s)\<lparr>m_idle_threads := m_idle_threads (sch s) + 1\<rparr>,
            idle_fiber := (idle_fiber s)(t := RUNNING)\<rparr>))"
| w_exec:
    "wpc s t = Exec a (Do e k) b \<Longrightarrow> timer_addr_free p (sch s) \<Longrightarrow> do_eff wr now p a e (sch s) = Inr (q, c) \<Longrightarrow>
     wstep uc t s q [] 0 (goto t (Exec a k b) (s\<lparr>sch := c\<rparr>))"
| w_yield:
    "wpc s t = Exec a (Yield_then k) b \<Longrightarrow> Fiber_Yield uc t a (Ctx_saved k) (fibs s) = Some (Inr w) \<Longrightarrow>
     wstep uc t s [] [] 0 (goto t (if b then Back_func a else Back_fiber a) (s\<lparr>fibs := w\<rparr>))"
| w_yield_ready:
    "wpc s t = Exec a (YieldReady_then k) b \<Longrightarrow>
     Fiber_YieldReady uc t a (Ctx_saved k) (fibs s) = Some (Inr w) \<Longrightarrow>
     wstep uc t s [] [] 0 (goto t (if b then Back_func a else Back_fiber a) (s\<lparr>fibs := w\<rparr>))"
| w_return:
    "wpc s t = Exec a Return b \<Longrightarrow> MainFunc_end uc t a TERMINATED (fibs s) = Inr w \<Longrightarrow>
     wstep uc t s [] [] 0 (goto t (if b then Back_func a else Back_fiber a) (s\<lparr>fibs := w\<rparr>))"
| w_throw:
    "wpc s t = Exec a Throw b \<Longrightarrow> MainFunc_end uc t a EXCEPT (fibs s) = Inr w \<Longrightarrow>
     wstep uc t s [] [] 0 (goto t (if b then Back_func a else Back_fiber a) (s\<lparr>fibs := w\<rparr>))"
| w_done_fiber:
    "wpc s t = Back_fiber a \<Longrightarrow>
     wstep uc t s [] [] 0
       (goto t (Resched_fiber a)
         (s\<lparr>sch := (sch s)\<lparr>m_active_threads := m_active_threads (sch s) - 1\<rparr>\<rparr>))"
| w_done_func:
    "wpc s t = Back_func a \<Longrightarrow>
     wstep uc t s [] [] 0
       (goto t (Resched_func a)
         (s\<lparr>sch := (sch s)\<lparr>m_active_threads := m_active_threads (sch s) - 1\<rparr>\<rparr>))"
| w_resched_fiber:
    "wpc s t = Resched_fiber a \<Longrightarrow> fb_heap (fibs s) a = Some f \<Longrightarrow>
     q = (if fb_state f = READY then [Task_of_fiber a (-1)] else []) \<Longrightarrow>
     (if fb_state f = READY then schedule wr (Task_of_fiber a (-1)) (sch s) else Inr (sch s)) = Inr c \<Longrightarrow>
     wstep uc t s q [] 0 (goto t Top (s\<lparr>sch := c\<rparr>))"
| w_resched_func:
    "wpc s t = Resched_func a \<Longrightarrow> fb_heap (fibs s) a = Some f \<Longrightarrow>
     q = (if fb_state f = READY then [Task_of_fiber a (-1)] else []) \<Longrightarrow>
     (if fb_state f = READY then schedule wr (Task_of_fiber a (-1)) (sch s) else Inr (sch s)) = Inr c \<Longrightarrow>
     (if isDone f then Fiber_reset uc t a None (fibs s) else Inr (fibs s)) = Inr w \<Longrightarrow>
     wstep uc t s q [] 0
       (goto t Top (s\<lparr>sch := c, fibs := w,
                     func_fiber := (func_fiber s)(t := if isDone f then Some a else None)\<rparr>))"
| i_stop:
    "wpc s t = Idle_top \<Longrightarrow> shouldStop (sch s) \<Longrightarrow>
     wstep uc t s [] [] 0 (goto t Back_idle (s\<lparr>idle_fiber := (idle_fiber s)(t := TERMINATED)\<rparr>))"
| i_wait:
    "wpc s t = Idle_top \<Longrightarrow> \<not> shouldStop (sch s) \<Longrightarrow> wstep uc t s [] [] 0 (goto t Idle_wait s)"
| i_woken:
    "wpc s t = Idle_wait \<Longrightarrow> getExpiredFuncs now [] (m_timer_manager (sch s)) = (fs, tm) \<Longrightarrow>
     wstep uc t s [] [] 0 (goto t (Idle_fired fs) (s\<lparr>sch := (sch s)\<lparr>m_timer_manager := tm\<rparr>\<rparr>))"
| i_fired:
    "wpc s t = Idle_fired fs \<Longrightarrow>
     (if fs \<noteq> [] then schedule_range wr fs (-1) (sch s) else Inr (sch s)) = Inr c \<Longrightarrow>
     wstep uc t s (map (\<lambda>f. Task_of_func f (-1)) fs) [] 0 (goto t Idle_events (s\<lparr>sch := c\<rparr>))"
| i_yield:
    "wpc s t = Idle_events \<Longrightarrow>
     wstep uc t s [] [] 0 (goto t Back_idle (s\<lparr>idle_fiber := (idle_fiber s)(t := SUSPEND)\<rparr>))"
| w_idle_back:
    "wpc s t = Back_idle \<Longrightarrow>
     wstep uc t s [] [] 0
       (goto t Top (s\<lparr>sch := (sch s)\<lparr>m_idle_threads := m_idle_threads (sch s) - 1\<rparr>\<rparr>))"
| i_drain:
    "wpc s t = Idle_events \<Longrightarrow> m_tickle_bytes (sch s) \<noteq> 0 \<Longrightarrow>
     wstep uc t s [] [] 0 (goto t Idle_events (s\<lparr>sch := (sch s)\<lparr>m_tickle_bytes := 0\<rparr>\<rparr>))"

inductive_cases wstepE: "wstep uc t s q k l s'"

text \<open>
  The steps of every other thread: creating fibers, \<open>schedule\<close>, \<open>addTimer\<close>, the counter of pending
  events that the IO manager keeps, \<open>start()\<close>, and \<open>stop()\<close> in its four parts.
\<close>

inductive xstep :: "ucontext_ops \<Rightarrow> sys \<Rightarrow> Task list \<Rightarrow> sys \<Rightarrow> bool" for uc where
  x_get_this:
    "fb_heap (fibs s) a = None \<Longrightarrow> GetThis uc t a (fibs s) = Inr (m, w) \<Longrightarrow> xstep uc s [] (s\<lparr>fibs := w\<rparr>)"
| x_fiber:
    "fb_heap (fibs s) a = None \<Longrightarrow> Fiber_ctor uc t a (Some p) False (fibs s) = Inr w \<Longrightarrow>
     xstep uc s [] (s\<lparr>fibs := w\<rparr>)"
| x_schedule_func:
    "schedule wr (Task_of_func p thr) (sch s) = Inr c \<Longrightarrow> xstep uc s [Task_of_func p thr] (s\<lparr>sch := c\<rparr>)"
| x_schedule_fiber:
    "schedule wr (Task_of_fiber a thr) (sch s) = Inr c \<Longrightarrow> xstep uc s [Task_of_fiber a thr] (s\<lparr>sch := c\<rparr>)"
| x_timer:
    "timer_addr_free p (sch s) \<Longrightarrow> Scheduler_addTimer wr now p period f rec (sch s) = Inr c \<Longrightarrow>
     xstep uc s [] (s\<lparr>sch := c\<rparr>)"
| x_pending:
    "xstep uc s [] (s\<lparr>sch := (sch s)\<lparr>m_pending_count := n\<rparr>\<rparr>)"
| x_start:
    "\<not> m_stopping (sch s) \<Longrightarrow> distinct tids \<Longrightarrow> length tids = m_thread_count (sch s) \<Longrightarrow>
     \<forall>t\<in>set tids. wpc s t = Not_started \<Longrightarrow> Scheduler_start tids (sch s) = Inr c \<Longrightarrow>
     xstep uc s [] (s\<lparr>sch := c, wpc := (\<lambda>t. if t \<in> set tids then Started else wpc s t)\<rparr>)"
| x_stop:
    "stopper s = No_stop \<Longrightarrow>
     xstep uc s [] (s\<lparr>sch := stop_begin (sch s), stopper := Stop_tickle (m_thread_count (sch s))\<rparr>)"
| x_stop_tickle:
    "stopper s = Stop_tickle (Suc n) \<Longrightarrow> tickle wr (sch s) = Inr c \<Longrightarrow>
     xstep uc s [] (s\<lparr>sch := c, stopper := Stop_tickle n\<rparr>)"
| x_stop_join:
    "stopper s = Stop_tickle 0 \<Longrightarrow> xstep uc s [] (s\<lparr>stopper := Stop_join\<rparr>)"
| x_stop_end:
    "stopper s = Stop_join \<Longrightarrow> \<forall>t\<in>set (m_threads (sch s)). wpc s t = Exited \<Longrightarrow>
     xstep uc s [] (s\<lparr>sch := stop_end (sch s), stopper := No_stop\<rparr>)"

inductive_cases xstepE: "xstep uc s q s'"

text \<open>Runs: everything queued, everything taken, in order, and the number of leaks.\<close>

inductive sruns :: "ucontext_ops \<Rightarrow> sys \<Rightarrow> Task list \<Rightarrow> Task list \<Rightarrow> nat \<Rightarrow> sys \<Rightarrow> bool" for uc s0 where
  sruns_refl: "sruns uc s0 [] [] 0 s0"
| sruns_worker:
    "sruns uc s0 q k l s \<Longrightarrow> wstep uc t s q' k' l' s' \<Longrightarrow> sruns uc s0 (q @ q') (k @ k') (l + l') s'"
| sruns_other:
    "sruns uc s0 q k l s \<Longrightarrow> xstep uc s q' s' \<Longrightarrow> sruns uc s0 (q @ q') k l s'"

definition sys_init :: "Scheduler \<Rightarrow> sys" where
  "sys_init c =
     \<lparr>sch = c, fibs = fibers_init, wpc = (\<lambda>_. Not_started), idle_fiber = (\<lambda>_. READY),
      func_fiber = (\<lambda>_. None), stopper = No_stop\<rparr>"

section \<open>What the operations do to the scheduler\<close>

lemma tickle_Inr:
  assumes "tickle wr s = Inr s'"
  obtains n where "s' = s\<lparr>m_tickle_bytes := n\<rparr>"
proof -
  have "s' = s\<lparr>m_tickle_bytes := m_tickle_bytes s'\<rparr>"
    using assms by (auto simp: tickle_def split: if_splits)
  then show ?thesis
    by (rule that)
qed

lemma queue_then_tickle:
  assumes "(if b then tickle wr (s\<lparr>m_tasks := ts\<rparr>) else Inr (s\<lparr>m_tasks := ts\<rparr>)) = Inr s'"
  obtains n where "s' = s\<lparr>m_tasks := ts, m_tickle_bytes := n\<rparr>"
proof -
  have "s' = s\<lparr>m_tasks := ts, m_tickle_bytes := m_tickle_bytes s'\<rparr>"
    using assms by (auto simp: tickle_def split: if_splits)
  then show ?thesis
    by (rule that)
qed

lemma schedule_Inr:
  assumes "schedule wr tk s = Inr s'"
  obtains n where "s' = s\<lparr>m_tasks := m_tasks s @ [tk], m_tickle_bytes := n\<rparr>"
  using assms by (auto simp: schedule_def Let_def elim: queue_then_tickle)

lemma schedule_total:
  "\<exists>n. schedule 1 tk s = Inr (s\<lparr>m_tasks := m_tasks s @ [tk], m_tickle_bytes := n\<rparr>)"
proof -
  obtain s' where "schedule 1 tk s = Inr s'"
    by (cases "schedule 1 tk s") (auto simp: schedule_def tickle_def Let_def split: if_splits)
  then show ?thesis
    by (auto elim!: schedule_Inr)
qed

lemma schedule_range_Inr:
  assumes "schedule_range wr fs thr s = Inr s'"
  obtains n where "s' = s\<lparr>m_tasks := m_tasks s @ map (\<lambda>f. Task_of_func f thr) fs, m_tickle_bytes := n\<rparr>"
  using assms unfolding schedule_range_def Let_def by (rule queue_then_tickle)

lemma Scheduler_addTimer_Inr:
  assumes "Scheduler_addTimer wr now p period f rec s = Inr s'"
  obtains n tm where "s' = s\<lparr>m_timer_manager := tm, m_tickle_bytes := n\<rparr>"
proof -
  have "s' = s\<lparr>m_timer_manager := m_timer_manager s', m_tickle_bytes := m_tickle_bytes s'\<rparr>"
    using assms by (auto simp: Scheduler_addTimer_def Let_def elim!: tickle_Inr split: prod.splits if_splits)
  then show ?thesis
    by (rule that)
qed

lemma do_eff_Inr:
  assumes "do_eff wr now p b e s = Inr (q, s')"
  obtains n tm where "s' = s\<lparr>m_tasks := m_tasks s @ q, m_tickle_bytes := n, m_timer_manager := tm\<rparr>"
proof -
  have "s' = s\<lparr>m_tasks := m_tasks s @ q, m_tickle_bytes := m_tickle_bytes s', m_timer_manager := m_timer_manager s'\<rparr>"
    using assms by (cases e) (auto elim!: schedule_Inr Scheduler_addTimer_Inr)
  then show ?thesis
    by (rule that)
qed

text \<open>The search for a task looks at the head of the queue only.\<close>

lemma find_task_Nil: "find_task t [] 0 = Some None"
  by (subst find_task.simps) simp

lemma find_task_mine:
  "tk_thread tk = -1 \<or> tk_thread tk = t \<Longrightarrow> find_task t (tk # ts) 0 = Some (Some 0)"
  by (subst find_task.simps) auto

lemma find_task_pinned:
  assumes "tk_thread tk \<noteq> -1" "tk_thread tk \<noteq> t"
  shows "find_task t (tk # ts) 0 = None"
proof -
  have "it = 0 \<Longrightarrow> xs = tk # ts \<Longrightarrow> u = t \<Longrightarrow> False" if "find_task u xs it = Some y" for u xs it y
    using that
  proof (induction rule: find_task.raw_induct [rotated, consumes 1])
    case (1 g u xs it y)
    then show ?case
      using assms by (auto split: if_splits)
  qed
  then show ?thesis
    by (cases "find_task t (tk # ts) 0") auto
qed

lemma take_task_simps:
  "m_tasks s = [] \<Longrightarrow> take_task t w s = Some (Inr (Task_reset, False, s))"
  "m_tasks s = tk # ts \<Longrightarrow> tk_thread tk \<noteq> -1 \<Longrightarrow> tk_thread tk \<noteq> t \<Longrightarrow> take_task t w s = None"
  "m_tasks s = tk # ts \<Longrightarrow> tk_thread tk = -1 \<or> tk_thread tk = t \<Longrightarrow>
     take_task t w s = Some (ASSERT (task_ok w tk) (Inr (tk, ts \<noteq> [], s\<lparr>m_tasks := ts\<rparr>)))"
  by (simp_all add: take_task_def find_task_Nil find_task_pinned find_task_mine)

lemma task_ok_has_task: "task_ok w tk \<Longrightarrow> has_task tk"
  by (auto simp: task_ok_def has_task_def split: option.splits)

lemma Task_reset_no_task [simp]: "\<not> has_task Task_reset"
  by (simp add: Task_reset_def has_task_def)

lemma take_task_Inr:
  assumes "take_task t w s = Some (Inr (tk, nt, s'))"
  obtains (none) "tk = Task_reset" "\<not> nt" "m_tasks s = []" "s' = s"
    | (some) ts where "has_task tk" "m_tasks s = tk # ts" "s' = s\<lparr>m_tasks := ts\<rparr>" "nt \<longleftrightarrow> ts \<noteq> []"
proof (cases "m_tasks s")
  case Nil
  then show ?thesis
    using assms by (auto simp: take_task_simps intro!: none)
next
  case (Cons x ts)
  then have "tk_thread x = -1 \<or> tk_thread x = t"
    using assms take_task_simps(2) [OF Cons, of t w] by auto
  then show ?thesis
    using assms Cons by (auto simp: take_task_simps task_ok_has_task intro!: some)
qed

section \<open>The queue\<close>

lemmas sched_elims = tickle_Inr schedule_Inr schedule_range_Inr do_eff_Inr

lemma wstep_queue:
  assumes "wstep uc t s q k l s'"
  shows "m_tasks (sch s) @ q = k @ m_tasks (sch s')"
  using assms
  by (cases rule: wstep.cases)
     (auto elim!: sched_elims take_task_Inr split: if_splits)

lemma xstep_queue:
  assumes "xstep uc s q s'"
  shows "m_tasks (sch s') = m_tasks (sch s) @ q"
  using assms
  by (cases rule: xstep.cases)
     (auto simp: Scheduler_start_def stop_begin_def stop_end_def
           elim!: sched_elims Scheduler_addTimer_Inr split: if_splits)

lemma sruns_queue:
  assumes "sruns uc s0 q k l s"
  shows "m_tasks (sch s0) @ q = k @ m_tasks (sch s)"
  using assms
proof induction
  case (sruns_worker q k l s t q' k' l' s')
  then show ?case
    using wstep_queue [OF sruns_worker.hyps(2)] by (metis append.assoc)
next
  case (sruns_other q k l s q' s')
  then show ?case
    using xstep_queue [OF sruns_other.hyps(2)] by (metis append.assoc)
qed simp

section \<open>The counters\<close>

text \<open>The positions between the increment and the decrement of each counter.\<close>

fun counted :: "wpc \<Rightarrow> bool" where
  "counted (Counted tk nt) \<longleftrightarrow> has_task tk"
| "counted (Dispatch tk) \<longleftrightarrow> has_task tk"
| "counted (Exec a k b) \<longleftrightarrow> True"
| "counted (Back_fiber a) \<longleftrightarrow> True"
| "counted (Back_func a) \<longleftrightarrow> True"
| "counted pc \<longleftrightarrow> False"

fun idling :: "wpc \<Rightarrow> bool" where
  "idling Idle_top \<longleftrightarrow> True"
| "idling Idle_wait \<longleftrightarrow> True"
| "idling (Idle_fired fs) \<longleftrightarrow> True"
| "idling Idle_events \<longleftrightarrow> True"
| "idling Back_idle \<longleftrightarrow> True"
| "idling pc \<longleftrightarrow> False"

definition counter_inv :: "nat \<Rightarrow> sys \<Rightarrow> bool" where
  "counter_inv l s \<longleftrightarrow>
     finite {t. wpc s t \<noteq> Not_started} \<and>
     m_active_threads (sch s) = of_nat (card {t. counted (wpc s t)}) + of_nat l \<and>
     m_idle_threads (sch s) = of_nat (card {t. idling (wpc s t)})"

lemma finite_in_position:
  assumes "finite {t. wpc s t \<noteq> Not_started}"
  shows "finite {t. counted (wpc s t)}" "finite {t. idling (wpc s t)}"
  by (rule finite_subset [OF _ assms], auto)+

lemma goto_counts:
  assumes "finite {t. wpc s t \<noteq> Not_started}"
  shows "finite {u. ((wpc s)(t := pc)) u \<noteq> Not_started}"
    and "(of_nat (card {u. counted (((wpc s)(t := pc)) u)}) :: u64) =
         of_nat (card {u. counted (wpc s u)}) + of_bool (counted pc) - of_bool (counted (wpc s t))"
    and "(of_nat (card {u. idling (((wpc s)(t := pc)) u)}) :: u64) =
         of_nat (card {u. idling (wpc s u)}) + of_bool (idling pc) - of_bool (idling (wpc s t))"
  using assms finite_in_position [OF assms]
  by (simp_all only: finite_fun_upd [where P = "\<lambda>pc. pc \<noteq> Not_started"] card_fun_upd)

text \<open>A step of a worker that moves it and changes the counters by what the positions say.\<close>

lemma counter_inv_move:
  assumes "counter_inv l s" and "wpc s' = (wpc s)(t := wpc s' t)"
    and "m_active_threads (sch s') = m_active_threads (sch s)
           + of_bool (counted (wpc s' t)) + of_nat l' - of_bool (counted (wpc s t))"
    and "m_idle_threads (sch s') = m_idle_threads (sch s)
           + of_bool (idling (wpc s' t)) - of_bool (idling (wpc s t))"
  shows "counter_inv (l + l') s'"
proof -
  have fin: "finite {t. wpc s t \<noteq> Not_started}"
    using assms(1) by (simp add: counter_inv_def)
  have sum: "(a' :: u64) = c' + (d + d')"
    if "a' = a + x + d' - y" "a = c + d" "c' = c + x - y" for a a' c c' d d' x y
    using that by simp
  note new = goto_counts [OF fin, of t "wpc s' t", folded assms(2)]
  show ?thesis
    using assms(1,4) new sum [OF assms(3) _ new(2)] by (simp add: counter_inv_def)
qed

lemma has_task_if_runs:
  "fiber_runnable w tk \<Longrightarrow> has_task tk" "tk_func tk = Some p \<Longrightarrow> has_task tk"
  by (auto simp: fiber_runnable_def has_task_def split: option.splits)

lemma wstep_moves:
  assumes "wstep uc t s q k l s'"
  shows "wpc s' = (wpc s)(t := wpc s' t)"
    and "m_active_threads (sch s') = m_active_threads (sch s)
           + of_bool (counted (wpc s' t)) + of_nat l - of_bool (counted (wpc s t))"
    and "m_idle_threads (sch s') = m_idle_threads (sch s)
           + of_bool (idling (wpc s' t)) - of_bool (idling (wpc s t))"
  using assms(1)
  by (cases rule: wstep.cases;
      force elim!: sched_elims take_task_Inr simp: has_task_if_runs split: if_splits)+

lemma wstep_counts:
  assumes "wstep uc t s q k l' s'" "counter_inv l s"
  shows "counter_inv (l + l') s'"
  by (rule counter_inv_move [OF assms(2) wstep_moves [OF assms(1)]])

lemma xstep_counts:
  assumes "xstep uc s q s'" "counter_inv l s"
  shows "counter_inv l s'"
  using assms(1)
proof (cases rule: xstep.cases)
  case (x_start tids c)
  have "counted (if t \<in> set tids then Started else wpc s t) \<longleftrightarrow> counted (wpc s t)"
    "idling (if t \<in> set tids then Started else wpc s t) \<longleftrightarrow> idling (wpc s t)" for t
    using x_start by auto
  moreover have "{t. wpc s' t \<noteq> Not_started} = {t. wpc s t \<noteq> Not_started} \<union> set tids"
    using x_start by auto
  ultimately show ?thesis
    using x_start assms(2) by (auto simp: counter_inv_def Scheduler_start_def)
qed (use assms(2) in \<open>auto simp: counter_inv_def stop_begin_def stop_end_def
       elim!: sched_elims Scheduler_addTimer_Inr\<close>)

definition fresh_scheduler :: "Scheduler \<Rightarrow> bool" where
  "fresh_scheduler c \<longleftrightarrow>
     (\<exists>threads epfd pipe_rc fcntl_rc epoll_ctl_rc mem.
        Scheduler_ctor threads epfd pipe_rc fcntl_rc epoll_ctl_rc mem = Inr c)"

lemma fresh_scheduler_fields:
  assumes "fresh_scheduler c"
  shows "m_tasks c = []" "m_threads c = []" "m_stopped c" "\<not> m_stopping c" "\<not> m_auto_stop c"
    "m_active_threads c = 0" "m_idle_threads c = 0" "m_pending_count c = 0"
  using assms by (auto simp: fresh_scheduler_def Scheduler_ctor_def)

lemma sruns_counts:
  assumes "sruns uc (sys_init c) q k l s" "fresh_scheduler c"
  shows "counter_inv l s"
  using assms(1)
proof induction
  case sruns_refl
  then show ?case
    using fresh_scheduler_fields [OF assms(2)] by (simp add: counter_inv_def sys_init_def)
qed (auto intro: wstep_counts xstep_counts)

section \<open>Stopping\<close>

text \<open>Threads between \<open>start()\<close> and the joins of \<open>stop()\<close>.\<close>

definition running :: "wpc \<Rightarrow> bool" where
  "running pc \<longleftrightarrow> pc \<noteq> Not_started \<and> pc \<noteq> Exited"

definition stop_inv :: "sys \<Rightarrow> bool" where
  "stop_inv s \<longleftrightarrow>
     (\<forall>t. running (wpc s t) \<longrightarrow> t \<in> set (m_threads (sch s))) \<and>
     (\<forall>t. wpc s t = Not_started \<or> wpc s t = Started \<longrightarrow> idle_fiber s t = READY) \<and>
     (\<forall>t\<in>set (m_threads (sch s)). wpc s t \<noteq> Not_started) \<and>
     (\<not> m_stopping (sch s) \<longrightarrow>
        (\<forall>t\<in>set (m_threads (sch s)). wpc s t \<noteq> Exited \<and> idle_fiber s t \<noteq> TERMINATED))"

lemma wstep_frame:
  assumes "wstep uc t s q k l s'"
  shows "m_threads (sch s') = m_threads (sch s)" "m_stopping (sch s') = m_stopping (sch s)"
    "m_auto_stop (sch s') = m_auto_stop (sch s)" "m_thread_count (sch s') = m_thread_count (sch s)"
    "u \<noteq> t \<Longrightarrow> wpc s' u = wpc s u" "u \<noteq> t \<Longrightarrow> idle_fiber s' u = idle_fiber s u"
    "running (wpc s t)" "wpc s' t \<noteq> Not_started \<and> wpc s' t \<noteq> Started"
    "idle_fiber s' t = TERMINATED \<Longrightarrow> idle_fiber s t = TERMINATED \<or> shouldStop (sch s)"
    "wpc s' t = Exited \<Longrightarrow> idle_fiber s t = TERMINATED"
  using assms
  by (cases rule: wstep.cases;
      force elim!: sched_elims take_task_Inr simp: running_def split: if_splits)+

lemma wstep_stop_inv:
  assumes "wstep uc t s q k l s'" "stop_inv s"
  shows "stop_inv s'"
proof -
  note fr = wstep_frame [OF assms(1)]
  have t: "t \<in> set (m_threads (sch s))"
    using assms(2) fr(7) by (simp add: stop_inv_def)
  have pc: "wpc s' u \<noteq> Not_started" "wpc s u \<noteq> Not_started" if "u \<in> set (m_threads (sch s))" for u
    using assms(2) fr(5,8) that by (cases "u = t"; auto simp: stop_inv_def)+
  have "wpc s' u \<noteq> Exited \<and> idle_fiber s' u \<noteq> TERMINATED"
    if "\<not> m_stopping (sch s)" "u \<in> set (m_threads (sch s))" for u
    using assms(2) fr(5,6,9,10) that
    by (cases "u = t") (auto simp: stop_inv_def shouldStop_def)
  moreover have "idle_fiber s' u = READY" if "wpc s' u = Not_started \<or> wpc s' u = Started" for u
    using assms(2) fr(5,6,8) that by (cases "u = t") (auto simp: stop_inv_def)
  moreover have "u \<in> set (m_threads (sch s))" if "running (wpc s' u)" for u
    using assms(2) t fr(5) that by (cases "u = t") (auto simp: stop_inv_def)
  ultimately show ?thesis
    using pc by (simp add: stop_inv_def fr(1,2))
qed

lemma xstep_stop_inv:
  assumes "xstep uc s q s'" "stop_inv s"
  shows "stop_inv s'"
  using assms(1)
proof (cases rule: xstep.cases)
  case (x_start tids c)
  then have c: "c = (sch s)\<lparr>m_stopped := False, m_threads := tids\<rparr>" "m_threads (sch s) = []"
    by (auto simp: Scheduler_start_def)
  show ?thesis
    using assms(2) x_start(4-6) c by (auto simp: stop_inv_def x_start(2))
next
  case x_stop_end
  have "\<not> running (wpc s t)" for t
    using assms(2) x_stop_end(4) unfolding stop_inv_def running_def by blast
  moreover have "wpc s t = Not_started \<or> wpc s t = Started \<longrightarrow> idle_fiber s t = READY" for t
    using assms(2) unfolding stop_inv_def by blast
  ultimately show ?thesis
    unfolding x_stop_end(2) by (simp add: stop_inv_def stop_end_def)
qed (use assms(2) in \<open>auto simp: stop_inv_def stop_begin_def
       elim!: sched_elims Scheduler_addTimer_Inr\<close>)

lemma sruns_stop_inv:
  assumes "sruns uc (sys_init c) q k l s" "fresh_scheduler c"
  shows "stop_inv s"
  using assms(1)
proof induction
  case sruns_refl
  then show ?case
    using fresh_scheduler_fields [OF assms(2)] by (simp add: stop_inv_def sys_init_def running_def)
qed (auto intro: wstep_stop_inv xstep_stop_inv)

text \<open>A worker that will leave \<open>run()\<close> without looking at the queue again.\<close>

fun leaving :: "State \<Rightarrow> wpc \<Rightarrow> bool" where
  "leaving st Not_started \<longleftrightarrow> True"
| "leaving st Exited \<longleftrightarrow> True"
| "leaving st (Took tk nt) \<longleftrightarrow> \<not> has_task tk \<and> st = TERMINATED"
| "leaving st (Counted tk nt) \<longleftrightarrow> \<not> has_task tk \<and> st = TERMINATED"
| "leaving st (Dispatch tk) \<longleftrightarrow> \<not> has_task tk \<and> st = TERMINATED"
| "leaving st pc \<longleftrightarrow> False"

definition attended :: "sys \<Rightarrow> bool" where
  "attended s \<longleftrightarrow> m_tasks (sch s) = [] \<or> (\<exists>t. \<not> leaving (idle_fiber s t) (wpc s t))"

lemma wstep_leaving:
  assumes "wstep uc t s q k 0 s'"
  shows "m_tasks (sch s') = [] \<or> \<not> leaving (idle_fiber s' t) (wpc s' t) \<or>
         leaving (idle_fiber s t) (wpc s t) \<and> m_tasks (sch s') = m_tasks (sch s)"
  using assms
  by (cases rule: wstep.cases; force elim!: sched_elims take_task_Inr split: if_splits)

lemma wstep_attended:
  assumes st: "wstep uc t s q k 0 s'" and "attended s"
  shows "attended s'"
proof -
  have other: "leaving (idle_fiber s' u) (wpc s' u) = leaving (idle_fiber s u) (wpc s u)" if "u \<noteq> t" for u
    using wstep_frame(5,6) [OF st that] by simp
  from wstep_leaving [OF st] show ?thesis
  proof (elim disjE conjE)
    assume "leaving (idle_fiber s t) (wpc s t)" "m_tasks (sch s') = m_tasks (sch s)"
    then show ?thesis
      using assms(2) other unfolding attended_def by metis
  qed (auto simp: attended_def)
qed

lemma xstep_attended:
  assumes "xstep uc s [] s'" "attended s"
  shows "attended s'"
  using assms(1)
proof (cases rule: xstep.cases)
  case (x_start tids c)
  have "\<not> leaving (idle_fiber s' t) (wpc s' t)" if "\<not> leaving (idle_fiber s t) (wpc s t)" for t
    using that x_start by auto
  then show ?thesis
    using assms(2) x_start by (auto simp: attended_def Scheduler_start_def)
qed (use assms(2) in \<open>auto simp: attended_def stop_begin_def stop_end_def
       elim!: sched_elims Scheduler_addTimer_Inr\<close>)

text \<open>Runs in which no thread other than the workers queues a task.\<close>

inductive cruns :: "ucontext_ops \<Rightarrow> sys \<Rightarrow> Task list \<Rightarrow> Task list \<Rightarrow> nat \<Rightarrow> sys \<Rightarrow> bool" for uc s0 where
  cruns_refl: "cruns uc s0 [] [] 0 s0"
| cruns_worker:
    "cruns uc s0 q k l s \<Longrightarrow> wstep uc t s q' k' l' s' \<Longrightarrow> cruns uc s0 (q @ q') (k @ k') (l + l') s'"
| cruns_other:
    "cruns uc s0 q k l s \<Longrightarrow> xstep uc s [] s' \<Longrightarrow> cruns uc s0 q k l s'"

lemma cruns_sruns: "cruns uc s0 q k l s \<Longrightarrow> sruns uc s0 q k l s"
proof (induction rule: cruns.induct)
  case (cruns_other q k l s s')
  then show ?case
    using sruns_other [of uc s0 q k l s "[]" s'] by simp
qed (auto intro: sruns.intros)

lemma sruns_trans:
  assumes "sruns uc s1 q' k' l' s2" "sruns uc s0 q k l s1"
  shows "sruns uc s0 (q @ q') (k @ k') (l + l') s2"
  using assms(1)
proof induction
  case sruns_refl
  then show ?case
    using assms(2) by simp
next
  case (sruns_worker q1 k1 l1 s t q2 k2 l2 s')
  then show ?case
    using sruns.sruns_worker [OF sruns_worker.IH sruns_worker.hyps(2)] by (simp add: add.assoc)
next
  case (sruns_other q1 k1 l1 s q2 s')
  then show ?case
    using sruns.sruns_other [OF sruns_other.IH sruns_other.hyps(2)] by simp
qed

lemma cruns_attended:
  assumes "cruns uc s0 q k l s" "attended s0" "l = 0"
  shows "attended s"
  using assms
proof (induction rule: cruns.induct)
  case (cruns_worker q k l s t q' k' l' s')
  then show ?case
    using wstep_attended by auto
qed (auto intro: xstep_attended)

lemma all_exited_unattended:
  assumes "stop_inv s" "attended s" "\<forall>t\<in>set (m_threads (sch s)). wpc s t = Exited"
  shows "m_tasks (sch s) = []"
proof -
  have "wpc s t = Not_started \<or> wpc s t = Exited" for t
    using assms(1,3) unfolding stop_inv_def running_def by blast
  then have "leaving (idle_fiber s t) (wpc s t)" for t
    by (metis leaving.simps(1,2))
  then show ?thesis
    using assms(2) by (simp add: attended_def)
qed

section \<open>An interpreter of the workers' steps\<close>

text \<open>
  The step of worker \<open>t\<close> as a function of what the outside answers: the address of a new fiber or timer,
  the result of \<open>write\<close>, the clock, and whether the pipe is reported while there is something in it.
\<close>

definition wnext ::
  "ucontext_ops \<Rightarrow> fid \<Rightarrow> int \<Rightarrow> u64 \<Rightarrow> bool \<Rightarrow> tid \<Rightarrow> sys \<Rightarrow> (Task list \<times> Task list \<times> nat \<times> sys) option" where
  "wnext uc a wr now drained t s =
     (let c = sch s; w = fibs s;
          moved = (\<lambda>pc x. Some ([], [], 0, goto t pc x));
          after = (\<lambda>b y. if b then Back_func y else Back_fiber y)
      in case wpc s t of
        Started \<Rightarrow>
          if fb_heap w a \<noteq> None then None
          else (case GetThis uc t a w of Inl e \<Rightarrow> None | Inr (m, w') \<Rightarrow>
            moved Top (s\<lparr>fibs := w', idle_fiber := (idle_fiber s)(t := READY), func_fiber := (func_fiber s)(t := None)\<rparr>))
      | Top \<Rightarrow>
          (case take_task t w c of Some (Inr (tk, nt, c')) \<Rightarrow>
             Some ([], if has_task tk then [tk] else [], 0, goto t (Took tk nt) (s\<lparr>sch := c'\<rparr>)) | _ \<Rightarrow> None)
      | Took tk nt \<Rightarrow>
          moved (Counted tk nt) (s\<lparr>sch := if has_task tk then c\<lparr>m_active_threads := m_active_threads c + 1\<rparr> else c\<rparr>)
      | Counted tk nt \<Rightarrow>
          (case (if nt then tickle wr c else Inr c) of Inl e \<Rightarrow> None | Inr c' \<Rightarrow> moved (Dispatch tk) (s\<lparr>sch := c'\<rparr>))
      | Dispatch tk \<Rightarrow>
          if fiber_runnable w tk
          then (case tk_fiber tk of None \<Rightarrow> None | Some b \<Rightarrow>
                 (case call_enter uc t b w of Inl e \<Rightarrow> None | Inr w' \<Rightarrow>
                   (case fb_heap w' b of None \<Rightarrow> None | Some f \<Rightarrow>
                     (case context_prog f of None \<Rightarrow> None | Some k \<Rightarrow> moved (Exec b k False) (s\<lparr>fibs := w'\<rparr>)))))
          else (case tk_func tk of
                  Some p \<Rightarrow>
                    if fb_heap w a \<noteq> None then None
                    else (case prepare_func_fiber uc t a p (func_fiber s t) w of Inl e \<Rightarrow> None | Inr (b, w1) \<Rightarrow>
                           (case call_enter uc t b w1 of Inl e \<Rightarrow> None | Inr w' \<Rightarrow>
                             (case fb_heap w' b of None \<Rightarrow> None | Some f \<Rightarrow>
                               (case context_prog f of None \<Rightarrow> None | Some k \<Rightarrow>
                                 moved (Exec b k True) (s\<lparr>fibs := w', func_fiber := (func_fiber s)(t := Some b)\<rparr>)))))
                | None \<Rightarrow>
                    let l = (if has_task tk then 1 else 0) in
                    if idle_fiber s t = TERMINATED then Some ([], [], l, goto t Exited s)
                    else Some ([], [], l, goto t Idle_top (s\<lparr>sch := c\<lparr>m_idle_threads := m_idle_threads c + 1\<rparr>,
                                                           idle_fiber := (idle_fiber s)(t := RUNNING)\<rparr>)))
      | Exec b p fn \<Rightarrow>
          (case p of
             Do e k \<Rightarrow>
               if \<not> timer_addr_free a c then None
               else (case do_eff wr now a b e c of Inl e \<Rightarrow> None | Inr (q, c') \<Rightarrow>
                       Some (q, [], 0, goto t (Exec b k fn) (s\<lparr>sch := c'\<rparr>)))
           | Yield_then k \<Rightarrow>
               (case Fiber_Yield uc t b (Ctx_saved k) w of Some (Inr w') \<Rightarrow> moved (after fn b) (s\<lparr>fibs := w'\<rparr>) | _ \<Rightarrow> None)
           | YieldReady_then k \<Rightarrow>
               (case Fiber_YieldReady uc t b (Ctx_saved k) w of Some (Inr w') \<Rightarrow> moved (after fn b) (s\<lparr>fibs := w'\<rparr>) | _ \<Rightarrow> None)
           | Return \<Rightarrow> (case MainFunc_end uc t b TERMINATED w of Inl e \<Rightarrow> None | Inr w' \<Rightarrow> moved (after fn b) (s\<lparr>fibs := w'\<rparr>))
           | Throw \<Rightarrow> (case MainFunc_end uc t b EXCEPT w of Inl e \<Rightarrow> None | Inr w' \<Rightarrow> moved (after fn b) (s\<lparr>fibs := w'\<rparr>)))
      | Back_fiber b \<Rightarrow> moved (Resched_fiber b) (s\<lparr>sch := c\<lparr>m_active_threads := m_active_threads c - 1\<rparr>\<rparr>)
      | Back_func b \<Rightarrow> moved (Resched_func b) (s\<lparr>sch := c\<lparr>m_active_threads := m_active_threads c - 1\<rparr>\<rparr>)
      | Resched_fiber b \<Rightarrow>
          (case fb_heap w b of None \<Rightarrow> None | Some f \<Rightarrow>
            (case (if fb_state f = READY then schedule wr (Task_of_fiber b (-1)) c else Inr c) of Inl e \<Rightarrow> None
             | Inr c' \<Rightarrow> Some (if fb_state f = READY then [Task_of_fiber b (-1)] else [], [], 0, goto t Top (s\<lparr>sch := c'\<rparr>))))
      | Resched_func b \<Rightarrow>
          (case fb_heap w b of None \<Rightarrow> None | Some f \<Rightarrow>
            (case (if fb_state f = READY then schedule wr (Task_of_fiber b (-1)) c else Inr c) of Inl e \<Rightarrow> None
             | Inr c' \<Rightarrow>
                (case (if isDone f then Fiber_reset uc t b None w else Inr w) of Inl e \<Rightarrow> None | Inr w' \<Rightarrow>
                  Some (if fb_state f = READY then [Task_of_fiber b (-1)] else [], [], 0,
                        goto t Top (s\<lparr>sch := c', fibs := w',
                                     func_fiber := (func_fiber s)(t := if isDone f then Some b else None)\<rparr>)))))
      | Idle_top \<Rightarrow>
          if shouldStop c then moved Back_idle (s\<lparr>idle_fiber := (idle_fiber s)(t := TERMINATED)\<rparr>) else moved Idle_wait s
      | Idle_wait \<Rightarrow>
          (case getExpiredFuncs now [] (m_timer_manager c) of (fs, tm) \<Rightarrow>
             moved (Idle_fired fs) (s\<lparr>sch := c\<lparr>m_timer_manager := tm\<rparr>\<rparr>))
      | Idle_fired fs \<Rightarrow>
          (case (if fs \<noteq> [] then schedule_range wr fs (-1) c else Inr c) of Inl e \<Rightarrow> None
           | Inr c' \<Rightarrow> Some (map (\<lambda>f. Task_of_func f (-1)) fs, [], 0, goto t Idle_events (s\<lparr>sch := c'\<rparr>)))
      | Idle_events \<Rightarrow>
          if drained \<and> m_tickle_bytes c \<noteq> 0 then moved Idle_events (s\<lparr>sch := c\<lparr>m_tickle_bytes := 0\<rparr>\<rparr>)
          else moved Back_idle (s\<lparr>idle_fiber := (idle_fiber s)(t := SUSPEND)\<rparr>)
      | Back_idle \<Rightarrow> moved Top (s\<lparr>sch := c\<lparr>m_idle_threads := m_idle_threads c - 1\<rparr>\<rparr>)
      | _ \<Rightarrow> None)"

lemma wstep_cong:
  "wstep uc t s q k l s' \<Longrightarrow> q = q2 \<Longrightarrow> k = k2 \<Longrightarrow> l = l2 \<Longrightarrow> s' = s2 \<Longrightarrow> wstep uc t s q2 k2 l2 s2"
  by simp

lemmas wstep_eqI = wstep.intros [THEN wstep_cong]

lemma wnext_sound:
  assumes "wnext uc a wr now drained t s = Some (q, k, l, s')"
  shows "wstep uc t s q k l s'"
proof (cases "wpc s t")
  case (Dispatch tk)
  note rules = wstep_eqI(5-8) [OF Dispatch]
  show ?thesis
  proof (cases "\<not> fiber_runnable (fibs s) tk \<and> tk_func tk \<noteq> None")
    case True
    then obtain p b w1 w' f k1 where
      c: "\<not> fiber_runnable (fibs s) tk" "tk_func tk = Some p" "fb_heap (fibs s) a = None"
      "prepare_func_fiber uc t a p (func_fiber s t) (fibs s) = Inr (b, w1)"
      "call_enter uc t b w1 = Inr w'" "fb_heap w' b = Some f" "context_prog f = Some k1"
      using assms Dispatch by (auto simp: wnext_def Let_def split: option.splits sum.splits if_splits)
    show ?thesis
      by (rule rules(2) [OF c]) (use assms Dispatch c in \<open>auto simp: wnext_def Let_def\<close>)
  next
    case False
    then show ?thesis
      using assms Dispatch
      by (auto simp: wnext_def Let_def has_task_def split: option.splits sum.splits if_splits intro: rules)
  qed
next
  case (Exec b p fn)
  show ?thesis
  proof (cases p)
    case Return
    show ?thesis
      using assms by (auto simp: wnext_def Exec Return split: sum.splits intro!: wstep_eqI(12) [OF Exec [unfolded Return]])
  next
    case Throw
    show ?thesis
      using assms by (auto simp: wnext_def Exec Throw split: sum.splits intro!: wstep_eqI(13) [OF Exec [unfolded Throw]])
  next
    case (Yield_then k)
    show ?thesis
      using assms by (auto simp: wnext_def Exec Yield_then split: option.splits sum.splits
          intro!: wstep_eqI(10) [OF Exec [unfolded Yield_then]])
  next
    case (YieldReady_then k)
    show ?thesis
      using assms by (auto simp: wnext_def Exec YieldReady_then split: option.splits sum.splits
          intro!: wstep_eqI(11) [OF Exec [unfolded YieldReady_then]])
  next
    case (Do e k)
    show ?thesis
      using assms by (auto simp: wnext_def Let_def Exec Do split: sum.splits if_splits intro: wstep_eqI(9) [OF Exec [unfolded Do]])
  qed
next
  case (Counted tk nt)
  then show ?thesis
    using assms by (auto simp: wnext_def Let_def split: sum.splits intro!: wstep_eqI(4))
next
  case Idle_top
  then show ?thesis
    using assms by (auto simp: wnext_def Let_def split: if_splits intro: wstep_eqI(18,19))
next
  case (Idle_fired fs)
  then show ?thesis
    using assms by (auto simp: wnext_def Let_def split: sum.splits intro!: wstep_eqI(21))
next
  case (Resched_fiber b)
  then show ?thesis
    using assms by (auto simp: wnext_def Let_def split: option.splits sum.splits intro!: wstep_eqI(16))
next
  case (Resched_func b)
  then show ?thesis
    using assms by (auto simp: wnext_def Let_def split: option.splits sum.splits intro!: wstep_eqI(17))
qed (use assms in \<open>auto simp: wnext_def Let_def split: option.splits sum.splits prod.splits if_splits
       intro: wstep_eqI(1-3,14,15,20,22-24)\<close>)

text \<open>Worker \<open>t\<close> alone for \<open>n\<close> steps, new fibers at the addresses from \<open>a\<close> on.\<close>

fun wrun :: "ucontext_ops \<Rightarrow> fid \<Rightarrow> tid \<Rightarrow> nat \<Rightarrow> sys \<Rightarrow> (Task list \<times> Task list \<times> nat \<times> sys) option" where
  "wrun uc a t 0 s = Some ([], [], 0, s)"
| "wrun uc a t (Suc n) s =
     (case wnext uc a 1 0 True t s of
        None \<Rightarrow> None
      | Some (q, k, l, s1) \<Rightarrow>
          (case wrun uc (Suc a) t n s1 of
             None \<Rightarrow> None
           | Some (q', k', l', s2) \<Rightarrow> Some (q @ q', k @ k', l + l', s2)))"

lemma wrun_cruns:
  assumes "wrun uc a t n s = Some (q', k', l', s')" "cruns uc s0 q k l s"
  shows "cruns uc s0 (q @ q') (k @ k') (l + l') s'"
  using assms
proof (induction n arbitrary: a s q k l q' k' l')
  case (Suc n)
  from Suc.prems(1) obtain q1 k1 l1 s1 q2 k2 l2 where
    n: "wnext uc a 1 0 True t s = Some (q1, k1, l1, s1)" "wrun uc (Suc a) t n s1 = Some (q2, k2, l2, s')"
    "q' = q1 @ q2" "k' = k1 @ k2" "l' = l1 + l2"
    by (auto split: option.splits prod.splits)
  have "cruns uc s0 (q @ q1) (k @ k1) (l + l1) s1"
    by (rule cruns_worker [OF Suc.prems(2) wnext_sound [OF n(1)]])
  from Suc.IH [OF n(2) this] show ?case
    by (simp add: n(3-5) add.assoc)
qed auto

subsection \<open>Two runs\<close>

text \<open>
  One worker, thread 1. In \<open>ex_sys\<close> a function is queued and the worker is started; in \<open>ex_twice\<close> a
  fiber made by thread 0 is queued twice.
\<close>

definition ex_mem :: "addr \<Rightarrow> func Timer" where
  "ex_mem = (\<lambda>_. \<lparr>m_period = 0, m_next = 0, m_func = Return, m_recurring = False\<rparr>)"

definition ex_sched :: Scheduler where
  "ex_sched =
     \<lparr>m_tasks = [], m_threads = [], m_thread_count = 1, m_stopped = True, m_stopping = False,
      m_auto_stop = False, m_active_threads = 0, m_idle_threads = 0, m_pending_count = 0,
      m_tickle_bytes = 0, m_timer_manager = \<lparr>timer_heap = ex_mem, m_timers = []\<rparr>\<rparr>"

definition ex_task :: Task where
  "ex_task = Task_of_func Return (-1)"

definition ex_sys :: sys where
  "ex_sys =
     \<lparr>sch = ex_sched\<lparr>m_tasks := [ex_task], m_threads := [1], m_stopped := False\<rparr>, fibs = fibers_init,
      wpc = (\<lambda>t. if t = 1 then Started else Not_started), idle_fiber = (\<lambda>_. READY),
      func_fiber = (\<lambda>_. None), stopper = No_stop\<rparr>"

definition ex_main :: "eff Fiber" where
  "ex_main = \<lparr>fb_id = 0, fb_ctx = Ctx_thread, uc_link = None, fb_func = None, fb_main = True, fb_state = RUNNING\<rparr>"

definition ex_ready :: "eff Fiber" where
  "ex_ready = \<lparr>fb_id = 1, fb_ctx = Ctx_entry, uc_link = None, fb_func = Some Return, fb_main = False, fb_state = READY\<rparr>"

definition ex_twice :: sys where
  "ex_twice =
     \<lparr>sch = ex_sched\<lparr>m_tasks := [Task_of_fiber 1 (-1), Task_of_fiber 1 (-1)], m_threads := [1], m_stopped := False\<rparr>,
      fibs = \<lparr>fb_heap = [0 \<mapsto> ex_main, 1 \<mapsto> ex_ready], s_fiber_id = 1, s_fiber_count = 2,
              t_fiber = [0 \<mapsto> 0], t_main_fiber = [0 \<mapsto> 0]\<rparr>,
      wpc = (\<lambda>t. if t = 1 then Started else Not_started), idle_fiber = (\<lambda>_. READY),
      func_fiber = (\<lambda>_. None), stopper = No_stop\<rparr>"

lemmas ex_eval = timer_addr_free_def
  sys_init_def ex_sched_def ex_task_def fibers_init_def ex_uc_def GetThis_def MakeMain_def
  Fiber_ctor_main_def set_t_fiber_def Fiber_ctor_def schedule_def tickle_def Task_of_fiber_def
  Task_of_func_def Let_def Scheduler_start_def take_task_simps call_enter_def deref_def
  context_prog_def fiber_runnable_def has_task_def Task_reset_def isDone_def MainFunc_end_def
  Fiber_yield_def swap_out_def task_ok_def Fiber_reset_def shouldStop_def hasTimers_def
  prepare_func_fiber_def stop_begin_def ex_sys_def ex_twice_def ex_main_def ex_ready_def

lemma ex_sched_fresh: "fresh_scheduler ex_sched"
proof -
  have "Scheduler_ctor 1 3 0 0 0 ex_mem = Inr ex_sched"
    by (simp add: Scheduler_ctor_def ex_sched_def)
  then show ?thesis
    unfolding fresh_scheduler_def by blast
qed

lemma ex_sys_run: "sruns ex_uc (sys_init ex_sched) [ex_task] [] 0 ex_sys"
proof -
  let ?s = "(sys_init ex_sched)\<lparr>sch := ex_sched\<lparr>m_tasks := [ex_task]\<rparr>\<rparr>"
  have "xstep ex_uc (sys_init ex_sched) [ex_task] ?s"
    unfolding ex_task_def by (rule x_schedule_func [where wr = 1]) (simp add: ex_eval)
  from sruns_other [OF sruns_refl this] have "sruns ex_uc (sys_init ex_sched) [ex_task] [] 0 ?s"
    by simp
  moreover have "xstep ex_uc ?s [] (?s\<lparr>sch := sch ex_sys, wpc := (\<lambda>t. if t \<in> set [1] then Started else wpc ?s t)\<rparr>)"
    by (rule x_start) (simp_all add: ex_eval)
  ultimately have "sruns ex_uc (sys_init ex_sched) [ex_task] [] 0
      (?s\<lparr>sch := sch ex_sys, wpc := (\<lambda>t. if t \<in> set [1] then Started else wpc ?s t)\<rparr>)"
    using sruns_other by fastforce
  then show ?thesis
    by (simp add: ex_sys_def sys_init_def cong: if_cong)
qed

definition ex_stop :: sys where
  "ex_stop = ex_sys\<lparr>sch := stop_begin (sch ex_sys), stopper := Stop_tickle (m_thread_count (sch ex_sys))\<rparr>"

lemma ex_stop_run:
  "\<exists>s'. cruns ex_uc ex_stop [] [ex_task] 0 s' \<and> m_threads (sch s') = [1] \<and> wpc s' 1 = Exited \<and> shouldStop (sch s')"
proof -
  have "\<exists>s'. wrun ex_uc 0 1 18 ex_stop = Some ([], [ex_task], 0, s') \<and> m_threads (sch s') = [1] \<and>
           wpc s' 1 = Exited \<and> shouldStop (sch s')"
    by (simp add: ex_stop_def ex_eval wnext_def eval_nat_numeral)
  then show ?thesis
    using wrun_cruns [OF _ cruns_refl] by fastforce
qed

lemma ex_twice_run:
  "sruns ex_uc (sys_init ex_sched) [Task_of_fiber 1 (-1), Task_of_fiber 1 (-1)] [] 0 ex_twice"
proof -
  let ?s0 = "sys_init ex_sched"
  let ?w1 = "(fibs ex_twice)\<lparr>fb_heap := [0 \<mapsto> ex_main], s_fiber_id := 0, s_fiber_count := 1\<rparr>"
  let ?s1 = "?s0\<lparr>fibs := ?w1\<rparr>" and ?s2 = "?s0\<lparr>fibs := fibs ex_twice\<rparr>"
  let ?q = "\<lambda>ts. ?s2\<lparr>sch := ex_sched\<lparr>m_tasks := ts\<rparr>\<rparr>"
  let ?tk = "Task_of_fiber 1 (-1)"
  have "xstep ex_uc ?s0 [] ?s1"
    by (rule x_get_this [where a = 0 and t = 0 and m = 0]) (simp_all add: ex_eval)
  moreover have "xstep ex_uc ?s1 [] (?s1\<lparr>fibs := fibs ex_twice\<rparr>)"
    by (rule x_fiber [where a = 1 and t = 0 and p = Return]) (simp_all add: ex_eval)
  ultimately have r2: "sruns ex_uc ?s0 [] [] 0 ?s2"
    using sruns_other [OF sruns_other [OF sruns_refl]] by fastforce
  have "xstep ex_uc ?s2 [?tk] (?s2\<lparr>sch := sch (?q [?tk])\<rparr>)"
    by (rule x_schedule_fiber [where wr = 1]) (simp add: ex_eval)
  from sruns_other [OF r2 this] have r3: "sruns ex_uc ?s0 [?tk] [] 0 (?q [?tk])"
    by simp
  have "xstep ex_uc (?q [?tk]) [?tk] ((?q [?tk])\<lparr>sch := sch (?q [?tk, ?tk])\<rparr>)"
    by (rule x_schedule_fiber [where wr = 1]) (simp add: ex_eval)
  from sruns_other [OF r3 this] have r4: "sruns ex_uc ?s0 [?tk, ?tk] [] 0 (?q [?tk, ?tk])"
    by simp
  have "xstep ex_uc (?q [?tk, ?tk]) []
      ((?q [?tk, ?tk])\<lparr>sch := sch ex_twice, wpc := (\<lambda>t. if t \<in> set [1] then Started else wpc (?q [?tk, ?tk]) t)\<rparr>)"
    by (rule x_start) (simp_all add: ex_eval)
  from sruns_other [OF r4 this] show ?thesis
    by (simp add: ex_twice_def sys_init_def cong: if_cong)
qed

text \<open>The second task finds its fiber ended: one drop.\<close>

lemma ex_drop_run:
  "\<exists>s'. sruns ex_uc ex_twice [] [Task_of_fiber 1 (-1), Task_of_fiber 1 (-1)] 1 s' \<and>
        m_threads (sch s') = [1] \<and> idle_fiber s' 1 = RUNNING \<and> wpc s' 1 = Idle_top \<and>
        {t. wpc s' t \<noteq> Not_started} = {1} \<and> m_thread_count (sch s') = 1 \<and> stopper s' = No_stop"
proof -
  have "\<exists>s'. wrun ex_uc 2 1 12 ex_twice = Some ([], [Task_of_fiber 1 (-1), Task_of_fiber 1 (-1)], 1, s') \<and>
        m_threads (sch s') = [1] \<and> idle_fiber s' 1 = RUNNING \<and> wpc s' 1 = Idle_top \<and>
        {t. wpc s' t \<noteq> Not_started} = {1} \<and> m_thread_count (sch s') = 1 \<and> stopper s' = No_stop"
    by (simp add: ex_eval wnext_def eval_nat_numeral)
  then show ?thesis
    using cruns_sruns [OF wrun_cruns [OF _ cruns_refl]] by fastforce
qed

section \<open>Properties of the scheduler\<close>

text \<open>
  C1. Tasks are started in the order in which they were scheduled, none is lost and none is run
  twice: in every interleaving of the workers with other threads, the tasks queued so far are
  the tasks taken by the workers, in order, followed by the tasks still in \<open>m_tasks\<close>.
\<close>

theorem tasks_fifo_exactly_once:
  assumes "fresh_scheduler c" and "sruns uc (sys_init c) scheduled taken leaks s"
  shows "scheduled = taken @ m_tasks (sch s)"
  using sruns_queue [OF assms(2)] fresh_scheduler_fields(1) [OF assms(1)] by (simp add: sys_init_def)

theorem tasks_fifo_exactly_once_witness:
  "\<exists>s::sys. wpc s 1 = Exited \<and> [ex_task] = [ex_task] @ m_tasks (sch s)"
proof -
  have "sruns ex_uc (sys_init ex_sched) [ex_task] [] 0 ex_stop"
    using sruns_other [OF ex_sys_run x_stop] by (simp add: ex_stop_def ex_sys_def)
  moreover obtain s where "cruns ex_uc ex_stop [] [ex_task] 0 s" "wpc s 1 = Exited"
    using ex_stop_run by blast
  ultimately have "sruns ex_uc (sys_init ex_sched) [ex_task] [ex_task] 0 s"
    using sruns_trans [OF cruns_sruns] by fastforce
  from tasks_fifo_exactly_once [OF ex_sched_fresh this] \<open>wpc s 1 = Exited\<close> show ?thesis
    by blast
qed

text \<open>
  C8. The counters are exact: \<open>m_active_threads\<close> is the number of workers between their increment
  and decrement plus one for every task that was taken and counted and then dropped because its
  fiber had ended, and \<open>m_idle_threads\<close> is the number of workers inside their idle fiber. So,
  below the wrap-around of the counter, \<open>shouldStop()\<close> answers true only when no worker is
  counted, nothing was dropped, and no task, timer or pending event is left.
\<close>

theorem counters_exact:
  assumes "fresh_scheduler c" and "sruns uc (sys_init c) scheduled taken leaks s"
  shows "m_active_threads (sch s) = of_nat (card {t. counted (wpc s t)} + leaks) \<and>
         m_idle_threads (sch s) = of_nat (card {t. idling (wpc s t)}) \<and>
         (shouldStop (sch s) \<and> card {t. counted (wpc s t)} + leaks < 2 ^ 64 \<longrightarrow>
            leaks = 0 \<and> (\<forall>t. \<not> counted (wpc s t)) \<and> m_tasks (sch s) = [] \<and>
            \<not> hasTimers (m_timer_manager (sch s)) \<and> m_pending_count (sch s) = 0)"
proof -
  have inv: "counter_inv leaks s"
    by (rule sruns_counts [OF assms(2,1)])
  then have act: "m_active_threads (sch s) = of_nat (card {t. counted (wpc s t)} + leaks)"
    and idl: "m_idle_threads (sch s) = of_nat (card {t. idling (wpc s t)})"
    by (simp_all add: counter_inv_def)
  have none: "card {t. counted (wpc s t)} + leaks = 0"
    if "shouldStop (sch s)" "card {t. counted (wpc s t)} + leaks < 2 ^ 64"
    using that act by (intro of_nat_u64_eq_0) (simp_all add: shouldStop_def)
  have "finite {t. counted (wpc s t)}"
    using inv finite_in_position by (auto simp: counter_inv_def)
  then have "leaks = 0 \<and> (\<forall>t. \<not> counted (wpc s t))"
    if "shouldStop (sch s)" "card {t. counted (wpc s t)} + leaks < 2 ^ 64"
    using none [OF that] by auto
  moreover have "m_tasks (sch s) = [] \<and> \<not> hasTimers (m_timer_manager (sch s)) \<and> m_pending_count (sch s) = 0"
    if "shouldStop (sch s)"
    using that by (simp add: shouldStop_def)
  ultimately show ?thesis
    using act idl by blast
qed

theorem counters_exact_witness:
  "\<exists>s::sys. wpc s 1 = Idle_top \<and> m_active_threads (sch s) = of_nat (card {t. counted (wpc s t)} + 1) \<and>
       m_idle_threads (sch s) = of_nat (card {t. idling (wpc s t)})"
proof -
  obtain s where "sruns ex_uc ex_twice [] [Task_of_fiber 1 (-1), Task_of_fiber 1 (-1)] 1 s" "wpc s 1 = Idle_top"
    using ex_drop_run by blast
  with counters_exact [OF ex_sched_fresh sruns_trans [OF this(1) ex_twice_run]] show ?thesis
    by fastforce
qed

text \<open>
  C2. \<open>stop()\<close> drains the queue: when it is called with workers running, and from then on only
  the workers queue tasks and none of them drops one, then once every worker has left \<open>run()\<close> the
  queue is empty, so every task ever scheduled has been taken by a worker.
\<close>

theorem stop_drains_queue:
  assumes "fresh_scheduler c"
    and "sruns uc (sys_init c) scheduled taken 0 s" "\<not> m_stopping (sch s)" "m_threads (sch s) \<noteq> []"
    and "cruns uc (s\<lparr>sch := stop_begin (sch s), stopper := Stop_tickle (m_thread_count (sch s))\<rparr>)
           scheduled' taken' 0 s'"
    and "\<forall>t\<in>set (m_threads (sch s')). wpc s' t = Exited"
    and "stopper s = No_stop"
  shows "m_tasks (sch s') = [] \<and> scheduled @ scheduled' = taken @ taken'"
proof -
  let ?s = "s\<lparr>sch := stop_begin (sch s), stopper := Stop_tickle (m_thread_count (sch s))\<rparr>"
  have run0: "sruns uc (sys_init c) scheduled taken 0 ?s"
    using sruns_other [OF assms(2) x_stop [OF assms(7)]] by simp
  have run: "sruns uc (sys_init c) (scheduled @ scheduled') (taken @ taken') 0 s'"
    using sruns_trans [OF cruns_sruns [OF assms(5)] run0] by simp
  obtain t where "t \<in> set (m_threads (sch s))"
    using assms(4) by (cases "m_threads (sch s)") auto
  then have t: "wpc s t \<noteq> Not_started" "wpc s t \<noteq> Exited" "idle_fiber s t \<noteq> TERMINATED"
    using sruns_stop_inv [OF assms(2,1)] assms(3) unfolding stop_inv_def by blast+
  then have "\<not> leaving (idle_fiber ?s t) (wpc ?s t)"
    by (cases "wpc s t") auto
  then have "attended ?s"
    unfolding attended_def by blast
  then have "m_tasks (sch s') = []"
    using all_exited_unattended sruns_stop_inv [OF run assms(1)] cruns_attended [OF assms(5)] assms(6)
    by blast
  then show ?thesis
    using sruns_queue [OF run] fresh_scheduler_fields(1) [OF assms(1)] by (simp add: sys_init_def)
qed

theorem stop_drains_queue_witness:
  "\<exists>s'::sys. wpc s' 1 = Exited \<and> m_tasks (sch s') = [] \<and> [ex_task] @ [] = [] @ [ex_task]"
proof -
  obtain s' where "cruns ex_uc ex_stop [] [ex_task] 0 s'" "m_threads (sch s') = [1]" "wpc s' 1 = Exited"
    using ex_stop_run by blast
  then show ?thesis
    using stop_drains_queue [OF ex_sched_fresh ex_sys_run _ _ _ _, of "[]" "[ex_task]" s']
    by (auto simp: ex_stop_def ex_sys_def ex_sched_def)
qed

lemma leak_no_stop:
  assumes "counter_inv l s" "0 < l" "card {t. wpc s t \<noteq> Not_started} + l < 2 ^ 64"
  shows "\<not> shouldStop (sch s)"
proof
  assume "shouldStop (sch s)"
  then have "(of_nat (card {t. counted (wpc s t)} + l) :: u64) = 0"
    using assms(1) by (simp add: counter_inv_def shouldStop_def)
  moreover have "card {t. counted (wpc s t)} \<le> card {t. wpc s t \<noteq> Not_started}"
    using assms(1) by (intro card_mono) (auto simp: counter_inv_def)
  ultimately show False
    using of_nat_u64_eq_0 [of "card {t. counted (wpc s t)} + l"] assms(2,3) by simp
qed

lemma step_started:
  "wstep uc t s q k l s' \<Longrightarrow> wpc s u \<noteq> Not_started \<Longrightarrow> wpc s' u \<noteq> Not_started"
  "xstep uc s q s' \<Longrightarrow> wpc s u \<noteq> Not_started \<Longrightarrow> wpc s' u \<noteq> Not_started"
proof -
  show "wstep uc t s q k l s' \<Longrightarrow> wpc s u \<noteq> Not_started \<Longrightarrow> wpc s' u \<noteq> Not_started"
    using wstep_frame(5,8) [of uc t s q k l s'] by (cases "u = t") auto
  show "xstep uc s q s' \<Longrightarrow> wpc s u \<noteq> Not_started \<Longrightarrow> wpc s' u \<noteq> Not_started"
    by (auto elim!: xstep.cases)
qed

text \<open>While no worker has ended its idle fiber, none leaves.\<close>

definition all_staying :: "tid list \<Rightarrow> sys \<Rightarrow> bool" where
  "all_staying ts s \<longleftrightarrow>
     ts \<noteq> [] \<and> m_threads (sch s) = ts \<and> (\<forall>t\<in>set ts. wpc s t \<noteq> Exited \<and> idle_fiber s t \<noteq> TERMINATED)"

lemma wstep_all_staying:
  assumes "wstep uc t s q k l s'" "all_staying ts s" "\<not> shouldStop (sch s)" "stop_inv s"
  shows "all_staying ts s'"
proof -
  note fr = wstep_frame [OF assms(1)]
  have "wpc s' u \<noteq> Exited \<and> idle_fiber s' u \<noteq> TERMINATED" if "u \<in> set ts" for u
    using assms(2,3) fr(5,6,9,10) that by (cases "u = t") (auto simp: all_staying_def)
  then show ?thesis
    using assms(2) fr(1) by (simp add: all_staying_def)
qed

lemma xstep_all_staying:
  assumes "xstep uc s q s'" "all_staying ts s"
  shows "all_staying ts s'"
  using assms(1)
proof (cases rule: xstep.cases)
  case (x_start tids c)
  then show ?thesis
    using assms(2) by (cases ts) (simp_all add: all_staying_def Scheduler_start_def)
next
  case x_stop_end
  then show ?thesis
    using assms(2) by (cases ts) (auto simp: all_staying_def)
qed (use assms(2) in \<open>auto simp: all_staying_def stop_begin_def
       elim!: sched_elims Scheduler_addTimer_Inr\<close>)

lemma sruns_keep:
  assumes "sruns uc s q' k' l' s'" "counter_inv l s" "stop_inv s"
  shows "counter_inv (l + l') s' \<and> stop_inv s'"
  using assms
proof induction
  case (sruns_worker q1 k1 l1 s1 t q2 k2 l2 s2)
  then show ?case
    using wstep_counts [of uc t s1 q2 k2 l2 s2 "l + l1"] wstep_stop_inv by (auto simp: add.assoc)
qed (auto intro: xstep_counts xstep_stop_inv)

lemma leak_all_staying:
  assumes "sruns uc s q' k' l' s'"
    and "counter_inv l s" "stop_inv s" "0 < l" "all_staying ts s"
    and "card {t. wpc s' t \<noteq> Not_started} + l + l' < 2 ^ 64"
  shows "all_staying ts s'"
  using assms
proof induction
  case (sruns_worker q1 k1 l1 s1 t q2 k2 l2 s2)
  have keep: "counter_inv (l + l1) s1" "stop_inv s1"
    using sruns_keep [OF sruns_worker.hyps(1)] sruns_worker.prems by auto
  then have "finite {t. wpc s2 t \<noteq> Not_started}"
    using wstep_counts [OF sruns_worker.hyps(2) keep(1)] by (simp add: counter_inv_def)
  then have "card {t. wpc s1 t \<noteq> Not_started} \<le> card {t. wpc s2 t \<noteq> Not_started}"
    using step_started(1) [OF sruns_worker.hyps(2)] by (intro card_mono) auto
  then have small: "card {t. wpc s1 t \<noteq> Not_started} + (l + l1) < 2 ^ 64"
    using sruns_worker.prems(5) by simp
  show ?case
    using wstep_all_staying [OF sruns_worker.hyps(2) _ leak_no_stop [OF keep(1) _ small] keep(2)]
      sruns_worker.IH sruns_worker.prems small by simp
next
  case (sruns_other q1 k1 l1 s1 q2 s2)
  have keep: "counter_inv (l + l1) s1" "stop_inv s1"
    using sruns_keep [OF sruns_other.hyps(1)] sruns_other.prems by auto
  then have "finite {t. wpc s2 t \<noteq> Not_started}"
    using xstep_counts [OF sruns_other.hyps(2) keep(1)] by (simp add: counter_inv_def)
  then have "card {t. wpc s1 t \<noteq> Not_started} \<le> card {t. wpc s2 t \<noteq> Not_started}"
    using step_started(2) [OF sruns_other.hyps(2)] by (intro card_mono) auto
  then show ?case
    using xstep_all_staying [OF sruns_other.hyps(2)] sruns_other.IH sruns_other.prems by simp
qed

text \<open>
  C40. A worker that takes a task whose fiber has ended counts it in \<open>m_active_threads\<close>, turns to
  its idle fiber and never takes the count back. After one such drop, with workers running,
  \<open>shouldStop()\<close> answers false for ever and no worker leaves \<open>run()\<close>, so the joins of \<open>stop()\<close> do
  not return (up to the wrap-around of the counter).
\<close>

theorem dropped_task_blocks_stop:
  assumes "fresh_scheduler c" and "sruns uc (sys_init c) q k l s" "0 < l"
    and "all_staying (m_threads (sch s)) s"
    and "sruns uc s q' k' l' s'" "card {t. wpc s' t \<noteq> Not_started} + l + l' < 2 ^ 64"
  shows "\<not> shouldStop (sch s') \<and> m_threads (sch s') = m_threads (sch s) \<and>
         (\<forall>t\<in>set (m_threads (sch s')). wpc s' t \<noteq> Exited)"
proof -
  have inv: "counter_inv l s" "stop_inv s"
    using sruns_counts [OF assms(2,1)] sruns_stop_inv [OF assms(2,1)] by auto
  have "\<not> shouldStop (sch s')"
    using sruns_keep [OF assms(5) inv] assms(3,6) by (intro leak_no_stop [of "l + l'"]) auto
  then show ?thesis
    using leak_all_staying [OF assms(5) inv assms(3,4,6)] by (simp add: all_staying_def)
qed

theorem dropped_task_blocks_stop_witness:
  "\<exists>s'::sys. stopper s' = Stop_tickle 1 \<and> m_stopping (sch s') \<and> \<not> shouldStop (sch s') \<and>
        (\<forall>t\<in>set (m_threads (sch s')). wpc s' t \<noteq> Exited)"
proof -
  obtain s where s: "sruns ex_uc ex_twice [] [Task_of_fiber 1 (-1), Task_of_fiber 1 (-1)] 1 s"
    "m_threads (sch s) = [1]" "idle_fiber s 1 = RUNNING" "wpc s 1 = Idle_top"
    "{t. wpc s t \<noteq> Not_started} = {1}" "m_thread_count (sch s) = 1" "stopper s = No_stop"
    using ex_drop_run by blast
  let ?s' = "s\<lparr>sch := stop_begin (sch s), stopper := Stop_tickle (m_thread_count (sch s))\<rparr>"
  have stay: "all_staying (m_threads (sch s)) s"
    using s(2-4) by (simp add: all_staying_def)
  have run: "sruns ex_uc s [] [] 0 ?s'"
    using sruns_other [OF sruns_refl x_stop [OF s(7)]] by simp
  have small: "card {t. wpc ?s' t \<noteq> Not_started} + (0 + 1) + 0 < 2 ^ 64"
    using s(5) by simp
  have "\<not> shouldStop (sch ?s') \<and> m_threads (sch ?s') = m_threads (sch s) \<and>
      (\<forall>t\<in>set (m_threads (sch ?s')). wpc ?s' t \<noteq> Exited)"
    by (rule dropped_task_blocks_stop [OF ex_sched_fresh sruns_trans [OF s(1) ex_twice_run] _ stay run small]) simp
  then show ?thesis
    using s(6) by (intro exI [of _ ?s']) (simp add: stop_begin_def)
qed

text \<open>
  The comment in \<open>run()\<close> says the counter is raised so that other workers wait while there is
  work. Between the critical section that takes the last task and the increment after it the
  counter does not cover the task: with \<open>stop()\<close> called and nothing else left, \<open>shouldStop()\<close> is
  false before a worker takes the last task and true right after, the task not yet begun.
\<close>

lemma last_task_uncovered:
  assumes "wpc s t = Top" "m_tasks (sch s) = [tk]" "tk_thread tk = -1 \<or> tk_thread tk = t"
    and "task_ok (fibs s) tk"
    and "m_auto_stop (sch s)" "m_stopping (sch s)" "m_active_threads (sch s) = 0"
    and "m_pending_count (sch s) = 0" "\<not> hasTimers (m_timer_manager (sch s))"
  shows "\<not> shouldStop (sch s) \<and>
         (\<exists>s'. wstep uc t s [] [tk] 0 s' \<and> wpc s' t = Took tk False \<and> shouldStop (sch s'))"
proof -
  let ?s' = "goto t (Took tk False) (s\<lparr>sch := (sch s)\<lparr>m_tasks := []\<rparr>\<rparr>)"
  have "take_task t (fibs s) (sch s) = Some (Inr (tk, False, (sch s)\<lparr>m_tasks := []\<rparr>))"
    using assms(2-4) by (simp add: take_task_simps)
  from w_take [OF assms(1) this, of uc] have "wstep uc t s [] [tk] 0 ?s'"
    using task_ok_has_task [OF assms(4)] by simp
  moreover have "wpc ?s' t = Took tk False" "shouldStop (sch ?s')"
    using assms(5-9) by (simp_all add: shouldStop_def)
  ultimately show ?thesis
    using assms(2) by (auto simp: shouldStop_def simp del: fun_upd_apply)
qed

text \<open>
  The critical section at the top of \<open>run()\<close>, on every queue: with no task it answers the
  reset task; with a task at the head that this thread may run it takes that one and leaves the
  rest; a fiber that is still running fails the assertion; and with a task of another thread at
  the head it never leaves the loop, holding the mutex, whatever else is queued.
\<close>

lemma take_task_correct:
  "take_task t w s =
     (case m_tasks s of
        [] \<Rightarrow> Some (Inr (Task_reset, False, s))
      | tk # ts \<Rightarrow>
          if tk_thread tk \<noteq> -1 \<and> tk_thread tk \<noteq> t then None
          else if task_ok w tk then Some (Inr (tk, ts \<noteq> [], s\<lparr>m_tasks := ts\<rparr>))
          else Some (Inl AssertFail))"
  by (cases "m_tasks s") (auto simp: take_task_simps ASSERT_def)

end
