(* ===== verification/EVA_IOManager.thy ===== *)
theory EVA_IOManager
  imports EVA_Scheduler
begin

text \<open>
  \<open>src/src/iomanager.h\<close> and \<open>src/src/iomanager.cpp\<close>: the registration of file events on top of the
  scheduler. Contexts are objects of a heap, since \<open>epoll\<close> and the table both hold pointers to
  them; schedulers are known by an identifier, the IO manager's own among them. \<open>epoll_ctl\<close> is a
  parameter acting on the system's state, and the value \<open>new\<close> leaves in the member \<open>events\<close>, which
  has no initialiser, is a parameter too.
\<close>

section \<open>Events, contexts and the state\<close>

type_synonym Event = u32

definition NONE :: Event where "NONE = 0"
definition READ :: Event where "READ = 1"
definition WRITE :: Event where "WRITE = 4"

definition EPOLLIN :: u32 where "EPOLLIN = 1"
definition EPOLLOUT :: u32 where "EPOLLOUT = 4"
definition EPOLLERR :: u32 where "EPOLLERR = 8"
definition EPOLLHUP :: u32 where "EPOLLHUP = 16"
definition EPOLLET :: u32 where "EPOLLET = 0x80000000"

lemmas event_defs = NONE_def READ_def WRITE_def EPOLLIN_def EPOLLOUT_def EPOLLERR_def EPOLLHUP_def

lemma READ_WRITE [simp]: "READ \<noteq> WRITE" "WRITE \<noteq> READ" "READ \<noteq> 0" "WRITE \<noteq> 0"
  by (simp_all add: event_defs)

datatype epoll_op = EPOLL_CTL_ADD | EPOLL_CTL_MOD | EPOLL_CTL_DEL

type_synonym sid = nat

record EventContext =
  ev_scheduler :: "sid option"
  ev_fiber :: "fid option"
  ev_func :: "func option"

record FdContext =
  fc_fd :: c_int
  fc_read :: EventContext
  fc_write :: EventContext
  fc_events :: Event

record 'k IOManager =
  io_scheds :: "sid \<Rightarrow> Scheduler"
  io_self :: sid
  fc_heap :: "FdContext list"  \<comment> \<open>every \<open>FdContext\<close> made; the address is the index\<close>
  m_fd_contexts :: "nat option list"
  io_kernel :: 'k

text \<open>\<open>epoll_ctl(m_epfd, op, fd, event)\<close> with the event's mask and pointer.\<close>

type_synonym 'k epoll_ctl = "'k \<Rightarrow> epoll_op \<Rightarrow> c_int \<Rightarrow> u32 \<Rightarrow> nat \<Rightarrow> c_int \<times> 'k"

definition upd_pending :: "(u64 \<Rightarrow> u64) \<Rightarrow> 'k IOManager \<Rightarrow> 'k IOManager" where
  "upd_pending f io =
     (let c = io_scheds io (io_self io) in
      io\<lparr>io_scheds := (io_scheds io)(io_self io := c\<lparr>m_pending_count := f (m_pending_count c)\<rparr>)\<rparr>)"

abbreviation upd_ctx :: "nat \<Rightarrow> FdContext \<Rightarrow> 'k IOManager \<Rightarrow> 'k IOManager" where
  "upd_ctx p fc io \<equiv> io\<lparr>fc_heap := (fc_heap io)[p := fc]\<rparr>"

section \<open>FdContext\<close>

definition no_context :: EventContext where
  "no_context = \<lparr>ev_scheduler = None, ev_fiber = None, ev_func = None\<rparr>"

definition getContext :: "Event \<Rightarrow> FdContext \<Rightarrow> EventContext result" where
  "getContext event fc =
     (if event = READ then Inr (fc_read fc)
      else if event = WRITE then Inr (fc_write fc)
      else Inl AssertFail)"

text \<open>Assignment through the reference that \<open>getContext\<close> answers.\<close>

definition putContext :: "Event \<Rightarrow> EventContext \<Rightarrow> FdContext \<Rightarrow> FdContext" where
  "putContext event c fc = (if event = READ then fc\<lparr>fc_read := c\<rparr> else fc\<lparr>fc_write := c\<rparr>)"

text \<open>
  \<open>auto event_ctx = getContext(event)\<close> copies the context: what \<open>resetContext\<close> and \<open>scheduleEvent\<close>
  assign afterwards changes the copy.
\<close>

definition resetContext :: "Event \<Rightarrow> FdContext \<Rightarrow> FdContext result" where
  "resetContext event fc = res_bind (getContext event fc) (\<lambda>event_ctx. Inr fc)"

definition FdContext_scheduleEvent :: "int \<Rightarrow> Event \<Rightarrow> nat \<Rightarrow> 'k IOManager \<Rightarrow> 'k IOManager result" where
  "FdContext_scheduleEvent wr event p io =
     (let fc = fc_heap io ! p in
      ASSERT (fc_events fc AND event \<noteq> 0)
        (let fc' = fc\<lparr>fc_events := fc_events fc AND NOT event\<rparr>;
             io' = upd_ctx p fc' io;
             post = (\<lambda>c tk. case ev_scheduler c of
                       None \<Rightarrow> Inl NullDeref
                     | Some sid \<Rightarrow> res_bind (schedule wr tk (io_scheds io' sid)) (\<lambda>s.
                         Inr (io'\<lparr>io_scheds := (io_scheds io')(sid := s)\<rparr>)))
         in res_bind (getContext event fc') (\<lambda>c.
              case ev_func c of
                Some f \<Rightarrow> post c (Task_of_func f (-1))
              | None \<Rightarrow>
                  (case ev_fiber c of
                     Some a \<Rightarrow> post c (Task_of_fiber a (-1))
                   | None \<Rightarrow> ASSERT False (Inr io')))))"

section \<open>The table\<close>

text \<open>\<open>new FdContext\<close>: \<open>events\<close> holds whatever was there.\<close>

definition FdContext_new :: "Event \<Rightarrow> nat \<Rightarrow> FdContext" where
  "FdContext_new garbage i =
     \<lparr>fc_fd = int i, fc_read = no_context, fc_write = no_context, fc_events = garbage\<rparr>"

primrec resize_loop ::
  "(nat \<Rightarrow> Event) \<Rightarrow> nat list \<Rightarrow> FdContext list \<Rightarrow> nat option list \<Rightarrow> FdContext list \<times> nat option list" where
  "resize_loop garb [] h v = (h, v)"
| "resize_loop garb (i # is) h v =
     (case v ! i of
        Some p \<Rightarrow> resize_loop garb is h v
      | None \<Rightarrow> resize_loop garb is (h @ [FdContext_new (garb (length h)) i]) (v[i := Some (length h)]))"

definition resizeContexts :: "(nat \<Rightarrow> Event) \<Rightarrow> nat \<Rightarrow> 'k IOManager \<Rightarrow> 'k IOManager" where
  "resizeContexts garb sz io =
     (case resize_loop garb [0..<sz] (fc_heap io) (vec_resize sz None (m_fd_contexts io)) of
        (h, v) \<Rightarrow> io\<lparr>fc_heap := h, m_fd_contexts := v\<rparr>)"

definition DEFAULT_FD_CONTEXTS_SIZE :: nat where
  "DEFAULT_FD_CONTEXTS_SIZE = 32"

definition IOManager_ctor ::
  "(nat \<Rightarrow> Event) \<Rightarrow> tid list \<Rightarrow> sid \<Rightarrow> (sid \<Rightarrow> Scheduler) \<Rightarrow> 'k \<Rightarrow> 'k IOManager result" where
  "IOManager_ctor garb tids self scheds k =
     res_bind (Scheduler_start tids (scheds self)) (\<lambda>s.
       Inr (resizeContexts garb DEFAULT_FD_CONTEXTS_SIZE
              \<lparr>io_scheds = scheds(self := s), io_self = self, fc_heap = [], m_fd_contexts = [],
               io_kernel = k\<rparr>))"

definition ctx_ptr :: "c_int \<Rightarrow> 'k IOManager \<Rightarrow> nat result" where
  "ctx_ptr fd io =
     res_bind (vec_at (m_fd_contexts io) fd) (\<lambda>q. case q of None \<Rightarrow> Inl NullDeref | Some p \<Rightarrow> Inr p)"

definition table_short :: "c_int \<Rightarrow> 'k IOManager \<Rightarrow> bool" where
  "table_short fd io \<longleftrightarrow> int (length (m_fd_contexts io)) \<le> fd"

section \<open>Operations\<close>

text \<open>
  \<open>addEvent\<close> in three parts: the test of the size under the read lock (\<^const>\<open>table_short\<close>), the
  lookup with or without a resize, and the registration. \<open>Scheduler::GetThis()\<close> is \<open>cur\<close>; the
  calling thread is \<open>t\<close>, and \<open>a\<close> the address of a main fiber should \<open>Fiber::GetThis()\<close> make one.
\<close>

definition addEvent_lookup :: "(nat \<Rightarrow> Event) \<Rightarrow> c_int \<Rightarrow> bool \<Rightarrow> 'k IOManager \<Rightarrow> (nat \<times> 'k IOManager) result" where
  "addEvent_lookup garb fd need_resize io =
     (let io' = (if need_resize then resizeContexts garb (grown_size fd) io else io)
      in res_bind (ctx_ptr fd io') (\<lambda>p. Inr (p, io')))"

definition addEvent_register ::
  "'k epoll_ctl \<Rightarrow> ucontext_ops \<Rightarrow> sid option \<Rightarrow> tid \<Rightarrow> fid \<Rightarrow> c_int \<Rightarrow> Event \<Rightarrow> func option \<Rightarrow> nat \<Rightarrow>
   'k IOManager \<Rightarrow> eff fibers \<Rightarrow> ('k IOManager \<times> eff fibers) result" where
  "addEvent_register ctl uc cur t a fd event f p io w =
     (let fc = fc_heap io ! p in
      ASSERT (fc_events fc AND event = 0)
        (let op = (if fc_events fc \<noteq> 0 then EPOLL_CTL_MOD else EPOLL_CTL_ADD)
         in case ctl (io_kernel io) op fd (EPOLLET OR fc_events fc OR event) p of
              (rt, k) \<Rightarrow>
                ASSERT (rt = 0)
                  (let fc1 = fc\<lparr>fc_events := fc_events fc OR event\<rparr>;
                       io1 = upd_pending (\<lambda>n. n + 1) (io\<lparr>io_kernel := k\<rparr>)
                   in res_bind (getContext event fc1) (\<lambda>c.
                        ASSERT (ev_scheduler c = None \<and> ev_fiber c = None \<and> ev_func c = None)
                          (case f of
                             Some g \<Rightarrow>
                               Inr (upd_ctx p (putContext event (c\<lparr>ev_scheduler := cur, ev_func := Some g\<rparr>) fc1) io1, w)
                           | None \<Rightarrow>
                               res_bind (GetThis uc t a w) (\<lambda>(b, w').
                                 res_bind (deref b w') (\<lambda>fb.
                                   ASSERT (fb_state fb = RUNNING)
                                     (Inr (upd_ctx p (putContext event (c\<lparr>ev_scheduler := cur, ev_fiber := Some b\<rparr>) fc1) io1,
                                           w')))))))))"

definition addEvent ::
  "'k epoll_ctl \<Rightarrow> ucontext_ops \<Rightarrow> (nat \<Rightarrow> Event) \<Rightarrow> sid option \<Rightarrow> tid \<Rightarrow> fid \<Rightarrow> c_int \<Rightarrow> Event \<Rightarrow> func option \<Rightarrow>
   'k IOManager \<Rightarrow> eff fibers \<Rightarrow> (bool \<times> 'k IOManager \<times> eff fibers) result" where
  "addEvent ctl uc garb cur t a fd event f io w =
     res_bind (addEvent_lookup garb fd (table_short fd io) io) (\<lambda>(p, io1).
       res_bind (addEvent_register ctl uc cur t a fd event f p io1 w) (\<lambda>(io2, w2). Inr (True, io2, w2)))"

text \<open>The common part of \<open>delEvent\<close> and \<open>cancelEvent\<close>: the context, what is left, the new kernel state.\<close>

definition left_op :: "Event \<Rightarrow> epoll_op" where
  "left_op left_events = (if left_events \<noteq> 0 then EPOLL_CTL_MOD else EPOLL_CTL_DEL)"

definition delEvent :: "'k epoll_ctl \<Rightarrow> c_int \<Rightarrow> Event \<Rightarrow> 'k IOManager \<Rightarrow> (bool \<times> 'k IOManager) result" where
  "delEvent ctl fd event io =
     (if table_short fd io then Inr (False, io)
      else res_bind (ctx_ptr fd io) (\<lambda>p.
        let fc = fc_heap io ! p in
        if fc_events fc AND event = 0 then Inr (False, io)
        else
          let left_events = fc_events fc AND NOT event in
          case ctl (io_kernel io) (left_op left_events) fd (EPOLLET OR left_events) p of
            (rt, k) \<Rightarrow>
              ASSERT (rt = 0)
                (let fc1 = fc\<lparr>fc_events := left_events\<rparr>;
                     io1 = upd_pending (\<lambda>n. n - 1) (io\<lparr>io_kernel := k\<rparr>)
                 in res_bind (resetContext event fc1) (\<lambda>fc2. Inr (True, upd_ctx p fc2 io1)))))"

definition cancelEvent ::
  "'k epoll_ctl \<Rightarrow> int \<Rightarrow> c_int \<Rightarrow> Event \<Rightarrow> 'k IOManager \<Rightarrow> (bool \<times> 'k IOManager) result" where
  "cancelEvent ctl wr fd event io =
     (if table_short fd io then Inr (False, io)
      else res_bind (ctx_ptr fd io) (\<lambda>p.
        let fc = fc_heap io ! p in
        if fc_events fc AND event = 0 then Inr (False, io)
        else
          let left_events = fc_events fc AND NOT event in
          case ctl (io_kernel io) (left_op left_events) fd (EPOLLET OR left_events) p of
            (rt, k) \<Rightarrow>
              ASSERT (rt = 0)
                (let io1 = upd_pending (\<lambda>n. n - 1) (io\<lparr>io_kernel := k\<rparr>)
                 in res_bind (FdContext_scheduleEvent wr event p io1) (\<lambda>io2. Inr (True, io2)))))"

text \<open>The statement \<open>if (es & ev) { fd_ctx->scheduleEvent(ev); --m_pending_count; }\<close>.\<close>

definition fire_if :: "int \<Rightarrow> bool \<Rightarrow> Event \<Rightarrow> nat \<Rightarrow> 'k IOManager \<Rightarrow> 'k IOManager result" where
  "fire_if wr b event p io =
     (if b then res_bind (FdContext_scheduleEvent wr event p io) (\<lambda>io'. Inr (upd_pending (\<lambda>n. n - 1) io'))
      else Inr io)"

definition cancelAll :: "'k epoll_ctl \<Rightarrow> int \<Rightarrow> c_int \<Rightarrow> 'k IOManager \<Rightarrow> (bool \<times> 'k IOManager) result" where
  "cancelAll ctl wr fd io =
     (if table_short fd io then Inr (False, io)
      else res_bind (ctx_ptr fd io) (\<lambda>p.
        if fc_events (fc_heap io ! p) = 0 then Inr (False, io)
        else
          case ctl (io_kernel io) EPOLL_CTL_DEL fd 0 p of
            (rt, k) \<Rightarrow>
              let io1 = io\<lparr>io_kernel := k\<rparr> in
              if rt \<noteq> 0 then Inr (False, io1)
              else
                res_bind (fire_if wr (fc_events (fc_heap io1 ! p) AND READ \<noteq> 0) READ p io1) (\<lambda>io2.
                  res_bind (fire_if wr (fc_events (fc_heap io2 ! p) AND WRITE \<noteq> 0) WRITE p io2) (\<lambda>io3.
                    ASSERT (fc_events (fc_heap io3 ! p) = 0) (Inr (True, io3))))))"

text \<open>The override of \<open>scheduleEvent(epoll_event&)\<close>: the mask reported and the pointer given back.\<close>

definition triggered :: "u32 \<Rightarrow> FdContext \<Rightarrow> Event" where
  "triggered evs fc =
     (let m = (if evs AND (EPOLLHUP OR EPOLLERR) \<noteq> 0 then (EPOLLIN OR EPOLLOUT) AND fc_events fc else evs)
      in (if m AND EPOLLIN \<noteq> 0 then READ else NONE) OR (if m AND EPOLLOUT \<noteq> 0 then WRITE else NONE))"

definition IOManager_scheduleEvent ::
  "'k epoll_ctl \<Rightarrow> int \<Rightarrow> u32 \<Rightarrow> nat \<Rightarrow> 'k IOManager \<Rightarrow> (bool \<times> 'k IOManager) result" where
  "IOManager_scheduleEvent ctl wr evs p io =
     (let fc = fc_heap io ! p;
          tr = triggered evs fc
      in if fc_events fc AND tr = NONE then Inr (False, io)
         else
           let left_events = fc_events fc AND NOT tr in
           case ctl (io_kernel io) (left_op left_events) (fc_fd fc) (EPOLLET OR left_events) p of
             (rt, k) \<Rightarrow>
               let io1 = io\<lparr>io_kernel := k\<rparr> in
               if rt \<noteq> 0 then Inr (False, io1)
               else
                 res_bind (fire_if wr (tr AND READ \<noteq> 0) READ p io1) (\<lambda>io2.
                   res_bind (fire_if wr (tr AND WRITE \<noteq> 0) WRITE p io2) (\<lambda>io3. Inr (True, io3))))"

section \<open>What the manual says of epoll_ctl\<close>

text \<open>
  \<open>interest\<close> reads the interest list off the system's state, without the wake-up pipe that the
  scheduler's constructor put there and that therefore cannot be added. Of a descriptor that can be polled,
  \<open>ADD\<close> succeeds if it is not in the list, \<open>MOD\<close> and \<open>DEL\<close> if it is; of others every call fails
  and the list stays as it is.
\<close>

definition epoll_spec ::
  "'k epoll_ctl \<Rightarrow> ('k \<Rightarrow> c_int \<Rightarrow> (u32 \<times> nat) option) \<Rightarrow> (c_int \<Rightarrow> bool) \<Rightarrow> bool" where
  "epoll_spec ctl interest pollable \<longleftrightarrow>
     (\<forall>k fd ev p. pollable fd \<and> interest k fd = None \<longrightarrow>
        fst (ctl k EPOLL_CTL_ADD fd ev p) = 0 \<and>
        interest (snd (ctl k EPOLL_CTL_ADD fd ev p)) = (interest k)(fd := Some (ev, p))) \<and>
     (\<forall>k fd ev p. pollable fd \<and> interest k fd \<noteq> None \<longrightarrow>
        fst (ctl k EPOLL_CTL_MOD fd ev p) = 0 \<and>
        interest (snd (ctl k EPOLL_CTL_MOD fd ev p)) = (interest k)(fd := Some (ev, p)) \<and>
        fst (ctl k EPOLL_CTL_DEL fd ev p) = 0 \<and>
        interest (snd (ctl k EPOLL_CTL_DEL fd ev p)) = (interest k)(fd := None)) \<and>
     (\<forall>k op fd ev p. fst (ctl k op fd ev p) \<noteq> 0 \<longrightarrow> interest (snd (ctl k op fd ev p)) = interest k) \<and>
     (\<forall>k op fd ev p. \<not> pollable fd \<longrightarrow> fst (ctl k op fd ev p) \<noteq> 0)"

lemma epoll_succeeds:
  assumes "epoll_spec ctl interest pollable" "ctl k op fd ev p = (0, k')"
  shows "pollable fd"
proof (rule ccontr)
  assume "\<not> pollable fd"
  then have "fst (ctl k op fd ev p) \<noteq> 0"
    using assms(1) unfolding epoll_spec_def by blast
  then show False
    using assms(2) by simp
qed

lemma epoll_ADD:
  assumes "epoll_spec ctl interest pollable" "pollable fd" "interest k fd = None"
  shows "\<exists>k'. ctl k EPOLL_CTL_ADD fd ev p = (0, k') \<and> interest k' = (interest k)(fd := Some (ev, p))"
proof -
  have "fst (ctl k EPOLL_CTL_ADD fd ev p) = 0 \<and>
      interest (snd (ctl k EPOLL_CTL_ADD fd ev p)) = (interest k)(fd := Some (ev, p))"
    using assms unfolding epoll_spec_def by blast
  then show ?thesis
    by (metis prod.collapse)
qed

lemma epoll_MOD_DEL:
  assumes "epoll_spec ctl interest pollable" "pollable fd" "interest k fd \<noteq> None"
  shows "\<exists>k'. ctl k EPOLL_CTL_MOD fd ev p = (0, k') \<and> interest k' = (interest k)(fd := Some (ev, p))"
    and "\<exists>k'. ctl k EPOLL_CTL_DEL fd ev p = (0, k') \<and> interest k' = (interest k)(fd := None)"
proof -
  have "fst (ctl k EPOLL_CTL_MOD fd ev p) = 0 \<and>
      interest (snd (ctl k EPOLL_CTL_MOD fd ev p)) = (interest k)(fd := Some (ev, p))"
    using assms unfolding epoll_spec_def by blast
  then show "\<exists>k'. ctl k EPOLL_CTL_MOD fd ev p = (0, k') \<and> interest k' = (interest k)(fd := Some (ev, p))"
    by (metis prod.collapse)
  have "fst (ctl k EPOLL_CTL_DEL fd ev p) = 0 \<and>
      interest (snd (ctl k EPOLL_CTL_DEL fd ev p)) = (interest k)(fd := None)"
    using assms unfolding epoll_spec_def by blast
  then show "\<exists>k'. ctl k EPOLL_CTL_DEL fd ev p = (0, k') \<and> interest k' = (interest k)(fd := None)"
    by (metis prod.collapse)
qed

lemma epoll_fails:
  assumes "epoll_spec ctl interest pollable" "ctl k op fd ev p = (rt, k')" "rt \<noteq> 0"
  shows "interest k' = interest k"
proof -
  have "fst (ctl k op fd ev p) \<noteq> 0 \<Longrightarrow> interest (snd (ctl k op fd ev p)) = interest k"
    using assms(1) unfolding epoll_spec_def by blast
  then show ?thesis
    using assms(2,3) by simp
qed

section \<open>The invariant\<close>

definition ctx_of :: "'k IOManager \<Rightarrow> c_int \<Rightarrow> nat option" where
  "ctx_of io fd = (if 0 \<le> fd \<and> fd < int (length (m_fd_contexts io)) then m_fd_contexts io ! nat fd else None)"

text \<open>How many events are registered in a context, and in all.\<close>

definition reg_count :: "FdContext \<Rightarrow> nat" where
  "reg_count fc = of_bool (fc_events fc AND READ \<noteq> 0) + of_bool (fc_events fc AND WRITE \<noteq> 0)"

definition total_registered :: "'k IOManager \<Rightarrow> nat" where
  "total_registered io = sum_list (map reg_count (fc_heap io))"

text \<open>The task a context stands for.\<close>

definition ctx_task :: "EventContext \<Rightarrow> Task option" where
  "ctx_task c =
     (case ev_func c of
        Some f \<Rightarrow> Some (Task_of_func f (-1))
      | None \<Rightarrow> map_option (\<lambda>a. Task_of_fiber a (-1)) (ev_fiber c))"

definition event_sets :: "Event set" where
  "event_sets = {0, READ, WRITE, READ OR WRITE}"

definition ctx_ok :: "FdContext \<Rightarrow> bool" where
  "ctx_ok fc \<longleftrightarrow>
     fc_events fc \<in> event_sets \<and>
     (fc_events fc AND READ \<noteq> 0 \<longrightarrow> ctx_task (fc_read fc) \<noteq> None) \<and>
     (fc_events fc AND WRITE \<noteq> 0 \<longrightarrow> ctx_task (fc_write fc) \<noteq> None)"

definition table_ok :: "'k IOManager \<Rightarrow> bool" where
  "table_ok io \<longleftrightarrow>
     2 \<le> length (m_fd_contexts io) \<and>
     (\<forall>fd. 0 \<le> fd \<and> fd < int (length (m_fd_contexts io)) \<longrightarrow> ctx_of io fd \<noteq> None) \<and>
     (\<forall>fd p. ctx_of io fd = Some p \<longleftrightarrow> p < length (fc_heap io) \<and> fc_fd (fc_heap io ! p) = fd) \<and>
     (\<forall>p < length (fc_heap io). ctx_ok (fc_heap io ! p))"

definition wanted :: "'k IOManager \<Rightarrow> c_int \<Rightarrow> (u32 \<times> nat) option" where
  "wanted io fd =
     (case ctx_of io fd of
        None \<Rightarrow> None
      | Some p \<Rightarrow> let ev = fc_events (fc_heap io ! p) in if ev = 0 then None else Some (EPOLLET OR ev, p))"

definition io_inv :: "('k \<Rightarrow> c_int \<Rightarrow> (u32 \<times> nat) option) \<Rightarrow> 'k IOManager \<Rightarrow> bool" where
  "io_inv interest io \<longleftrightarrow>
     table_ok io \<and> interest (io_kernel io) = wanted io \<and>
     m_pending_count (io_scheds io (io_self io)) = of_nat (total_registered io)"

lemma sum_list_update_ring:
  "p < length xs \<Longrightarrow> sum_list (xs[p := v]) = sum_list xs + v - xs ! p"
  for xs :: "'a::ab_group_add list"
  by (induction xs arbitrary: p) (auto simp: nth_Cons split: nat.split)

lemma total_registered_update:
  assumes "p < length h"
  shows "(of_nat (sum_list (map reg_count (h[p := fc]))) :: u64) =
         of_nat (sum_list (map reg_count h)) + of_nat (reg_count fc) - of_nat (reg_count (h ! p))"
proof -
  have of_nat_sum: "(of_nat (sum_list (map reg_count xs)) :: u64) = sum_list (map (\<lambda>x. of_nat (reg_count x)) xs)" for xs
    by (induction xs) simp_all
  show ?thesis
    unfolding of_nat_sum using assms by (simp add: map_update sum_list_update_ring)
qed

text \<open>One context changes, and the counter and the kernel follow.\<close>

lemma io_inv_update:
  assumes inv: "io_inv interest io" and p: "p < length (fc_heap io)"
    and fc: "fc_fd fc = fc_fd (fc_heap io ! p)" "ctx_ok fc"
    and io': "fc_heap io' = (fc_heap io)[p := fc]" "m_fd_contexts io' = m_fd_contexts io"
      "io_self io' = io_self io"
    and kernel: "interest (io_kernel io') = (interest (io_kernel io))
      (fc_fd fc := (if fc_events fc = 0 then None else Some (EPOLLET OR fc_events fc, p)))"
    and count: "m_pending_count (io_scheds io' (io_self io)) =
      m_pending_count (io_scheds io (io_self io)) + of_nat (reg_count fc) - of_nat (reg_count (fc_heap io ! p))"
  shows "io_inv interest io'"
proof -
  have tab: "table_ok io" and want: "interest (io_kernel io) = wanted io"
    and pend: "m_pending_count (io_scheds io (io_self io)) = of_nat (total_registered io)"
    using inv by (simp_all add: io_inv_def)
  have ctx: "ctx_of io' = ctx_of io"
    by (rule ext) (simp add: ctx_of_def io'(2))
  have own: "ctx_of io fd = Some q \<longleftrightarrow> q < length (fc_heap io) \<and> fc_fd (fc_heap io ! q) = fd" for fd q
    using tab by (simp add: table_ok_def)
  have "table_ok io'"
    using tab fc p unfolding table_ok_def ctx io'(2)
    by (auto simp: io'(1) nth_list_update)
  moreover have "wanted io' fd = interest (io_kernel io') fd" for fd
  proof (cases "fd = fc_fd fc")
    case True
    then have "ctx_of io fd = Some p"
      using own p fc(1) by simp
    then show ?thesis
      using True p by (simp add: wanted_def ctx kernel io'(1))
  next
    case False
    show ?thesis
    proof (cases "ctx_of io fd")
      case None
      then show ?thesis
        using False by (simp add: wanted_def ctx kernel want)
    next
      case (Some q)
      then have "q \<noteq> p"
        using own [of fd q] fc(1) False by auto
      then show ?thesis
        using False Some by (simp add: wanted_def ctx kernel want io'(1))
    qed
  qed
  moreover have "m_pending_count (io_scheds io' (io_self io')) = of_nat (total_registered io')"
    using total_registered_update [OF p, of fc] pend
    by (simp add: total_registered_def io'(1,3) count)
  ultimately show ?thesis
    unfolding io_inv_def by (metis ext)
qed

section \<open>Growing the table\<close>

lemma resize_loop_skip:
  "\<forall>i\<in>set is. v ! i \<noteq> None \<Longrightarrow> resize_loop garb is h v = (h, v)"
  by (induction "is") auto

lemma resize_loop_fill:
  "length vs = n \<Longrightarrow>
   resize_loop garb [n..<n + k] h (vs @ replicate k None) =
     (h @ map (\<lambda>j. FdContext_new (garb (length h + j)) (n + j)) [0..<k],
      vs @ map (\<lambda>j. Some (length h + j)) [0..<k])"
proof (induction k arbitrary: n vs h)
  case (Suc k)
  have split: "[n..<n + Suc k] = n # [Suc n..<Suc n + k]" "[0..<Suc k] = 0 # map Suc [0..<k]"
    by (simp_all add: upt_conv_Cons map_Suc_upt del: upt_Suc)
  have "(vs @ None # replicate k None)[n := Some (length h)] = (vs @ [Some (length h)]) @ replicate k None"
    using Suc.prems by (simp add: list_update_append)
  then show ?case
    using Suc.IH [of "vs @ [Some (length h)]" "Suc n" "h @ [FdContext_new (garb (length h)) n]"] Suc.prems
    unfolding split by (simp add: nth_append o_def)
qed simp

lemma resize_loop_append:
  "resize_loop garb (is @ js) h v = (case resize_loop garb is h v of (h', v') \<Rightarrow> resize_loop garb js h' v')"
  by (induction "is" arbitrary: h v) (auto split: option.splits)

lemma resizeContexts_grows:
  assumes "\<And>i. i < length (m_fd_contexts io) \<Longrightarrow> m_fd_contexts io ! i \<noteq> None"
    and len: "length (m_fd_contexts io) + k = sz"
  shows "resizeContexts garb sz io =
    io\<lparr>fc_heap := fc_heap io @
          map (\<lambda>j. FdContext_new (garb (length (fc_heap io) + j)) (length (m_fd_contexts io) + j)) [0..<k],
       m_fd_contexts := m_fd_contexts io @ map (\<lambda>j. Some (length (fc_heap io) + j)) [0..<k]\<rparr>"
proof -
  let ?v = "m_fd_contexts io"
  have v: "vec_resize sz None ?v = ?v @ replicate k None"
    using len by (auto simp: vec_resize_def)
  have split: "[0..<sz] = [0..<length ?v] @ [length ?v..<length ?v + k]"
    using len upt_add_eq_append [of 0 "length ?v" k] by simp
  have skip: "resize_loop garb [0..<length ?v] (fc_heap io) (?v @ replicate k None) = (fc_heap io, ?v @ replicate k None)"
    using assms(1) by (intro resize_loop_skip) (auto simp: nth_append)
  show ?thesis
    by (simp add: resizeContexts_def v split resize_loop_append skip resize_loop_fill)
qed

lemma ctx_of_table:
  "i < length (m_fd_contexts io) \<Longrightarrow> ctx_of io (int i) = m_fd_contexts io ! i"
  by (simp add: ctx_of_def)

lemma table_ok_full:
  assumes "table_ok io" "i < length (m_fd_contexts io)"
  shows "m_fd_contexts io ! i \<noteq> None"
proof -
  have "ctx_of io (int i) \<noteq> None"
    using assms unfolding table_ok_def by (meson of_nat_0_le_iff of_nat_less_iff)
  then show ?thesis
    using ctx_of_table [OF assms(2)] by simp
qed

lemma resizeContexts_state:
  assumes "table_ok io" and len: "length (m_fd_contexts io) + k = sz"
  defines "n \<equiv> length (fc_heap io)" and "d \<equiv> length (m_fd_contexts io)"
  shows "length (fc_heap (resizeContexts garb sz io)) = n + k"
    and "q < n \<Longrightarrow> fc_heap (resizeContexts garb sz io) ! q = fc_heap io ! q"
    and "j < k \<Longrightarrow> fc_heap (resizeContexts garb sz io) ! (n + j) = FdContext_new (garb (n + j)) (d + j)"
    and "ctx_of (resizeContexts garb sz io) fd =
      (if int d \<le> fd \<and> fd < int sz then Some (n + (nat fd - d)) else ctx_of io fd)"
    and "length (m_fd_contexts (resizeContexts garb sz io)) = sz"
    and "io_kernel (resizeContexts garb sz io) = io_kernel io"
    and "io_scheds (resizeContexts garb sz io) = io_scheds io" "io_self (resizeContexts garb sz io) = io_self io"
    and "total_registered (resizeContexts (\<lambda>_. 0) sz io) = total_registered io"
proof -
  have eq: "resizeContexts garb sz io =
    io\<lparr>fc_heap := fc_heap io @ map (\<lambda>j. FdContext_new (garb (n + j)) (d + j)) [0..<k],
       m_fd_contexts := m_fd_contexts io @ map (\<lambda>j. Some (n + j)) [0..<k]\<rparr>" for garb
    unfolding n_def d_def using resizeContexts_grows [OF table_ok_full [OF assms(1)] len] by blast
  have sz: "sz = d + k"
    using len by (simp add: d_def)
  show "length (fc_heap (resizeContexts garb sz io)) = n + k"
    "q < n \<Longrightarrow> fc_heap (resizeContexts garb sz io) ! q = fc_heap io ! q"
    "j < k \<Longrightarrow> fc_heap (resizeContexts garb sz io) ! (n + j) = FdContext_new (garb (n + j)) (d + j)"
    "length (m_fd_contexts (resizeContexts garb sz io)) = sz"
    "io_kernel (resizeContexts garb sz io) = io_kernel io"
    "io_scheds (resizeContexts garb sz io) = io_scheds io" "io_self (resizeContexts garb sz io) = io_self io"
    unfolding eq using len by (simp_all add: nth_append n_def d_def)
  show "ctx_of (resizeContexts garb sz io) fd =
      (if int d \<le> fd \<and> fd < int sz then Some (n + (nat fd - d)) else ctx_of io fd)"
    unfolding eq by (auto simp: ctx_of_def nth_append d_def [symmetric] sz nat_less_iff)
  have "sum_list (map reg_count (map (\<lambda>j. FdContext_new 0 (d + j)) [0..<k])) = 0"
    by (induction k) (simp_all add: reg_count_def FdContext_new_def)
  then show "total_registered (resizeContexts (\<lambda>_. 0) sz io) = total_registered io"
    by (simp add: total_registered_def eq)
qed

lemma resizeContexts_inv:
  assumes inv: "io_inv interest io" and len: "length (m_fd_contexts io) \<le> sz"
  shows "io_inv interest (resizeContexts (\<lambda>_. 0) sz io)"
proof -
  let ?io' = "resizeContexts (\<lambda>_. 0) sz io"
  let ?n = "length (fc_heap io)" and ?d = "length (m_fd_contexts io)"
  have tab: "table_ok io"
    using inv by (simp add: io_inv_def)
  obtain k where k: "?d + k = sz"
    using len le_Suc_ex by blast
  note st = resizeContexts_state(1-8) [OF tab k, where garb = "\<lambda>_. 0"] resizeContexts_state(9) [OF tab k]
  have own: "ctx_of io fd = Some q \<longleftrightarrow> q < ?n \<and> fc_fd (fc_heap io ! q) = fd" for fd q
    using tab by (simp add: table_ok_def)
  have old_range: "0 \<le> fd \<and> fd < int ?d" if "ctx_of io fd = Some q" for fd q
    using that by (auto simp: ctx_of_def split: if_splits)
  have heap: "fc_heap ?io' ! q = (if q < ?n then fc_heap io ! q else FdContext_new 0 (?d + (q - ?n)))"
    if "q < ?n + k" for q
    using st(2) [of q] st(3) [of "q - ?n"] that by (cases "q < ?n") auto
  have new_own: "ctx_of ?io' fd = Some q \<longleftrightarrow> q < length (fc_heap ?io') \<and> fc_fd (fc_heap ?io' ! q) = fd" for fd q
  proof (cases "int ?d \<le> fd \<and> fd < int sz")
    case True
    then have "\<not> (q < ?n \<and> fc_fd (fc_heap io ! q) = fd)"
      using own [of fd q] old_range [of fd q] by auto
    moreover have "nat fd - ?d < k"
      using True k by linarith
    ultimately show ?thesis
      using True heap [of q] unfolding st(1,4) by (auto simp: FdContext_new_def)
  next
    case False
    show ?thesis
    proof (cases "q < ?n")
      case True
      then show ?thesis
        using False own [of fd q] heap [of q] unfolding st(1,4) by auto
    next
      case new: False
      then have "fc_fd (fc_heap ?io' ! q) \<noteq> fd" if "q < ?n + k"
        using that False k heap [OF that] by (auto simp: FdContext_new_def)
      then show ?thesis
        using False new own [of fd q] unfolding st(1,4) by auto
    qed
  qed
  have "ctx_ok (fc_heap ?io' ! q)" if "q < ?n + k" for q
    using heap [OF that] tab by (auto simp: table_ok_def ctx_ok_def FdContext_new_def event_sets_def)
  moreover have "ctx_of ?io' fd \<noteq> None" if "0 \<le> fd" "fd < int sz" for fd
    using that tab unfolding st(4) by (cases "int ?d \<le> fd") (auto simp: table_ok_def)
  moreover have "2 \<le> sz"
    using tab len by (simp add: table_ok_def)
  ultimately have "table_ok ?io'"
    using new_own unfolding table_ok_def st(5) st(1) by blast
  moreover have "wanted ?io' fd = wanted io fd" for fd
  proof (cases "int ?d \<le> fd \<and> fd < int sz")
    case True
    then have "ctx_of io fd = None" "nat fd - ?d < k"
      using old_range [of fd] k by (cases "ctx_of io fd"; force)+
    then show ?thesis
      using True st(3) [of "nat fd - ?d"] by (simp add: wanted_def st(4) FdContext_new_def)
  next
    case False
    then have "ctx_of ?io' fd = ctx_of io fd"
      by (subst st(4)) auto
    then show ?thesis
      using own [of fd "the (ctx_of io fd)"] st(2) by (cases "ctx_of io fd") (simp_all add: wanted_def)
  qed
  ultimately show ?thesis
    using inv unfolding io_inv_def st(6-9) by (metis ext)
qed

section \<open>Every operation keeps the invariant\<close>

lemma events_bits:
  assumes "es \<in> event_sets" "ev = READ \<or> ev = WRITE"
  shows "es OR ev \<in> event_sets" "es AND NOT ev \<in> event_sets" "es OR ev \<noteq> 0"
    "ev' = READ \<or> ev' = WRITE \<Longrightarrow> (es OR ev) AND ev' \<noteq> 0 \<longleftrightarrow> ev' = ev \<or> es AND ev' \<noteq> 0"
    "ev' = READ \<or> ev' = WRITE \<Longrightarrow> (es AND NOT ev) AND ev' \<noteq> 0 \<longleftrightarrow> ev' \<noteq> ev \<and> es AND ev' \<noteq> 0"
  using assms by (auto simp: event_sets_def event_defs)

lemma upd_pending_simps [simp]:
  "fc_heap (upd_pending f io) = fc_heap io" "m_fd_contexts (upd_pending f io) = m_fd_contexts io"
  "io_self (upd_pending f io) = io_self io" "io_kernel (upd_pending f io) = io_kernel io"
  "m_pending_count (io_scheds (upd_pending f io) i) =
     (if i = io_self io then f (m_pending_count (io_scheds io i)) else m_pending_count (io_scheds io i))"
  by (simp_all add: upd_pending_def Let_def)

lemma FdContext_scheduleEvent_Inr:
  assumes "FdContext_scheduleEvent wr ev p io = Inr io'"
  obtains ss where "io' = upd_ctx p ((fc_heap io ! p)\<lparr>fc_events := fc_events (fc_heap io ! p) AND NOT ev\<rparr>) io
        \<lparr>io_scheds := ss\<rparr>"
    and "\<And>i. m_pending_count (ss i) = m_pending_count (io_scheds io i)"
    and "fc_events (fc_heap io ! p) AND ev \<noteq> 0" "ev = READ \<or> ev = WRITE"
proof -
  let ?fc = "(fc_heap io ! p)\<lparr>fc_events := fc_events (fc_heap io ! p) AND NOT ev\<rparr>"
  have reg: "fc_events (fc_heap io ! p) AND ev \<noteq> 0" and ev: "ev = READ \<or> ev = WRITE"
    using assms by (auto simp: FdContext_scheduleEvent_def Let_def getContext_def split: if_splits)
  obtain c where c: "getContext ev ?fc = Inr c"
    using assms by (auto simp: FdContext_scheduleEvent_def Let_def split: if_splits)
  obtain sid tk s where s: "schedule wr tk (io_scheds io sid) = Inr s"
    and io': "io' = upd_ctx p ?fc io\<lparr>io_scheds := (io_scheds io)(sid := s)\<rparr>"
    using assms reg c
    by (cases "ev_func c"; cases "ev_fiber c"; cases "ev_scheduler c")
       (auto simp: FdContext_scheduleEvent_def Let_def)
  have "m_pending_count s = m_pending_count (io_scheds io sid)"
    using s by (auto elim!: schedule_Inr)
  then show ?thesis
    using that [OF io' _ reg ev] by auto
qed

lemma reg_count_simps:
  assumes "fc_events fc \<in> event_sets" "ev = READ \<or> ev = WRITE"
  shows "fc_events fc AND ev = 0 \<Longrightarrow> reg_count (fc\<lparr>fc_events := fc_events fc OR ev\<rparr>) = reg_count fc + 1"
    "fc_events fc AND ev \<noteq> 0 \<Longrightarrow> reg_count fc = reg_count (fc\<lparr>fc_events := fc_events fc AND NOT ev\<rparr>) + 1"
  using assms by (auto simp: reg_count_def event_sets_def event_defs)

lemma ctx_ok_remove:
  "ctx_ok fc \<Longrightarrow> ev = READ \<or> ev = WRITE \<Longrightarrow> ctx_ok (fc\<lparr>fc_events := fc_events fc AND NOT ev\<rparr>)"
  using events_bits(2,5) unfolding ctx_ok_def by auto

lemma io_inv_ctx:
  assumes "io_inv interest io" "p < length (fc_heap io)"
  shows "ctx_ok (fc_heap io ! p)" "ctx_of io (fc_fd (fc_heap io ! p)) = Some p"
    "interest (io_kernel io) (fc_fd (fc_heap io ! p)) =
       (if fc_events (fc_heap io ! p) = 0 then None else Some (EPOLLET OR fc_events (fc_heap io ! p), p))"
proof -
  have tab: "table_ok io" and "interest (io_kernel io) = wanted io"
    using assms(1) by (simp_all add: io_inv_def)
  then show "ctx_ok (fc_heap io ! p)" and own: "ctx_of io (fc_fd (fc_heap io ! p)) = Some p"
    using assms(2) by (simp_all add: table_ok_def)
  then show "interest (io_kernel io) (fc_fd (fc_heap io ! p)) =
       (if fc_events (fc_heap io ! p) = 0 then None else Some (EPOLLET OR fc_events (fc_heap io ! p), p))"
    using \<open>interest (io_kernel io) = wanted io\<close> by (simp add: wanted_def)
qed

lemma ctx_ptr_Inr:
  assumes "io_inv interest io" "ctx_ptr fd io = Inr p"
  shows "p < length (fc_heap io)" "fc_fd (fc_heap io ! p) = fd"
proof -
  have "ctx_of io fd = Some p"
    using assms(2) by (auto simp: ctx_ptr_def ctx_of_def split: option.splits)
  then show "p < length (fc_heap io)" "fc_fd (fc_heap io ! p) = fd"
    using assms(1) by (simp_all add: io_inv_def table_ok_def)
qed

text \<open>Steps that leave the contexts, the counter and the interest list alone.\<close>

lemma io_inv_frame:
  assumes "io_inv interest io"
    and "fc_heap io' = fc_heap io" "m_fd_contexts io' = m_fd_contexts io" "io_self io' = io_self io"
    and "interest (io_kernel io') = interest (io_kernel io)"
    and "m_pending_count (io_scheds io' (io_self io)) = m_pending_count (io_scheds io (io_self io))"
  shows "io_inv interest io'"
proof -
  have ctx: "ctx_of io' = ctx_of io"
    by (rule ext) (simp add: ctx_of_def assms(3))
  have want: "wanted io' = wanted io"
    by (intro ext) (simp only: wanted_def assms(2) ctx)
  show ?thesis
    using assms(1) unfolding io_inv_def table_ok_def total_registered_def ctx want assms(2-6) .
qed

text \<open>The call of \<open>epoll_ctl\<close> that narrows a context to the events left.\<close>

lemma left_ctl:
  assumes "epoll_spec ctl interest pollable" "io_inv interest io" "p < length (fc_heap io)"
    and "fc_events (fc_heap io ! p) \<noteq> 0" "fc_fd (fc_heap io ! p) = fd"
    and "ctl (io_kernel io) (left_op left_events) fd (EPOLLET OR left_events) p = (0, k)"
  shows "interest k = (interest (io_kernel io))
    (fd := (if left_events = 0 then None else Some (EPOLLET OR left_events, p)))"
proof -
  let ?old = "interest (io_kernel io)"
  have old: "?old fd \<noteq> None"
    using io_inv_ctx(3) [OF assms(2,3)] assms(4,5) by simp
  have poll: "pollable fd"
    using epoll_succeeds [OF assms(1,6)] .
  show ?thesis
    using epoll_MOD_DEL [OF assms(1) poll old, where ev = "EPOLLET OR left_events" and p = p] assms(6)
    by (cases "left_events = 0") (auto simp: left_op_def)
qed

lemma addEvent_register_Inr:
  assumes "addEvent_register ctl uc cur t a fd event f p io w = Inr (io', w')"
  obtains k c where "event = READ \<or> event = WRITE" "fc_events (fc_heap io ! p) AND event = 0"
    and "ctl (io_kernel io) (if fc_events (fc_heap io ! p) \<noteq> 0 then EPOLL_CTL_MOD else EPOLL_CTL_ADD) fd
           (EPOLLET OR fc_events (fc_heap io ! p) OR event) p = (0, k)"
    and "getContext event (fc_heap io ! p) = Inr no_context" "ctx_task c \<noteq> None" "ev_scheduler c = cur"
    and "(case f of Some g \<Rightarrow> ctx_task c = Some (Task_of_func g (-1)) \<and> w' = w
          | None \<Rightarrow> \<exists>b. GetThis uc t a w = Inr (b, w') \<and> ctx_task c = Some (Task_of_fiber b (-1)))"
    and "io' = upd_ctx p (putContext event c ((fc_heap io ! p)\<lparr>fc_events := fc_events (fc_heap io ! p) OR event\<rparr>))
           (upd_pending (\<lambda>n. n + 1) (io\<lparr>io_kernel := k\<rparr>))"
proof -
  let ?fc = "fc_heap io ! p"
  let ?fc1 = "?fc\<lparr>fc_events := fc_events ?fc OR event\<rparr>"
  obtain rt k where k: "ctl (io_kernel io) (if fc_events ?fc \<noteq> 0 then EPOLL_CTL_MOD else EPOLL_CTL_ADD) fd
           (EPOLLET OR fc_events ?fc OR event) p = (rt, k)"
    by fastforce
  have reg: "fc_events ?fc AND event = 0" and rt: "rt = 0"
    using assms k by (auto simp: addEvent_register_def Let_def)
  note st = assms [unfolded addEvent_register_def Let_def k prod.case]
  obtain c0 where c0: "getContext event ?fc1 = Inr c0" "ev_scheduler c0 = None" "ev_fiber c0 = None" "ev_func c0 = None"
    using st by auto
  have ev: "event = READ \<or> event = WRITE"
    using c0(1) by (auto simp: getContext_def split: if_splits)
  have slot: "getContext event ?fc = Inr no_context"
    using c0 ev by (auto simp: getContext_def no_context_def split: if_splits)
  let ?io = "upd_pending (\<lambda>n. n + 1) (io\<lparr>io_kernel := k\<rparr>)"
  show ?thesis
  proof (cases f)
    case (Some g)
    let ?c = "c0\<lparr>ev_scheduler := cur, ev_func := Some g\<rparr>"
    have "io' = upd_ctx p (putContext event ?c ?fc1) ?io" "w' = w"
      using st reg rt c0 Some by auto
    then show ?thesis
      using that [of k ?c] ev reg k rt slot Some by (auto simp: ctx_task_def)
  next
    case None
    obtain b fb where b: "GetThis uc t a w = Inr (b, w')"
      "io' = upd_ctx p (putContext event (c0\<lparr>ev_scheduler := cur, ev_fiber := Some b\<rparr>) ?fc1) ?io"
      using st reg rt c0 None by auto
    then show ?thesis
      using that [of k "c0\<lparr>ev_scheduler := cur, ev_fiber := Some b\<rparr>"] ev reg k rt slot None c0
      by (auto simp: ctx_task_def)
  qed
qed

lemma addEvent_register_inv:
  assumes "epoll_spec ctl interest pollable" "io_inv interest io" "p < length (fc_heap io)"
    and "fc_fd (fc_heap io ! p) = fd"
    and "addEvent_register ctl uc cur t a fd event f p io w = Inr (io', w')"
  shows "io_inv interest io'"
proof -
  let ?fc = "fc_heap io ! p"
  obtain k c where r: "event = READ \<or> event = WRITE" "fc_events ?fc AND event = 0"
    "ctl (io_kernel io) (if fc_events ?fc \<noteq> 0 then EPOLL_CTL_MOD else EPOLL_CTL_ADD) fd
       (EPOLLET OR fc_events ?fc OR event) p = (0, k)"
    and c: "ctx_task c \<noteq> None"
    and io': "io' = upd_ctx p (putContext event c (?fc\<lparr>fc_events := fc_events ?fc OR event\<rparr>))
       (upd_pending (\<lambda>n. n + 1) (io\<lparr>io_kernel := k\<rparr>))"
    by (rule addEvent_register_Inr [OF assms(5)])
  let ?new = "putContext event c (?fc\<lparr>fc_events := fc_events ?fc OR event\<rparr>)"
  let ?mask = "EPOLLET OR fc_events ?fc OR event"
  have ok: "ctx_ok ?fc"
    using io_inv_ctx(1) [OF assms(2,3)] .
  then have es: "fc_events ?fc \<in> event_sets"
    by (simp add: ctx_ok_def)
  note bits = events_bits [OF es r(1)]
  have new: "fc_events ?new = fc_events ?fc OR event" "fc_fd ?new = fc_fd ?fc"
    by (simp_all add: putContext_def)
  have "ctx_ok ?new"
    using ok r(1) c bits(1) bits(4) by (auto simp: ctx_ok_def putContext_def)
  moreover have "interest k = (interest (io_kernel io))(fd := Some (EPOLLET OR (fc_events ?fc OR event), p))"
  proof (cases "fc_events ?fc = 0")
    case True
    then have "interest (io_kernel io) fd = None"
      using io_inv_ctx(3) [OF assms(2,3)] assms(4) by simp
    then show ?thesis
      using epoll_ADD [OF assms(1) epoll_succeeds [OF assms(1) r(3)], of "io_kernel io" ?mask p] r(3) True
      by auto
  next
    case False
    then have "interest (io_kernel io) fd \<noteq> None"
      using io_inv_ctx(3) [OF assms(2,3)] assms(4) by simp
    then show ?thesis
      using epoll_MOD_DEL(1) [OF assms(1) epoll_succeeds [OF assms(1) r(3)], of "io_kernel io" ?mask p] r(3) False
      by auto
  qed
  moreover have "reg_count ?new = reg_count ?fc + 1"
    using reg_count_simps(1) [OF es r(1,2)] by (simp add: reg_count_def new(1))
  ultimately show ?thesis
    using assms(3,4) bits(3)
    by (intro io_inv_update [OF assms(2,3), of ?new]) (simp_all add: io' new)
qed

lemma addEvent_lookup_inv:
  assumes "io_inv interest io" "addEvent_lookup (\<lambda>_. 0) fd (table_short fd io) io = Inr (p, io')"
  shows "io_inv interest io'" "p < length (fc_heap io')" "fc_fd (fc_heap io' ! p) = fd"
proof -
  have "2 \<le> length (m_fd_contexts io)"
    using assms(1) by (simp add: io_inv_def table_ok_def)
  then have "length (m_fd_contexts io) \<le> grown_size fd" if "table_short fd io"
    using that grown_size_gt [of fd] by (simp add: table_short_def)
  then show inv: "io_inv interest io'"
    using assms resizeContexts_inv [OF assms(1)] by (auto simp: addEvent_lookup_def Let_def split: if_splits)
  have "ctx_ptr fd io' = Inr p"
    using assms(2) by (auto simp: addEvent_lookup_def Let_def)
  then show "p < length (fc_heap io')" "fc_fd (fc_heap io' ! p) = fd"
    using ctx_ptr_Inr [OF inv] by auto
qed

lemma addEvent_inv:
  assumes "epoll_spec ctl interest pollable" "io_inv interest io"
    and "addEvent ctl uc (\<lambda>_. 0) cur t a fd event f io w = Inr (b, io', w')"
  shows "io_inv interest io'"
proof -
  obtain p io1 where l: "addEvent_lookup (\<lambda>_. 0) fd (table_short fd io) io = Inr (p, io1)"
    and r: "addEvent_register ctl uc cur t a fd event f p io1 w = Inr (io', w')"
    using assms(3) by (auto simp: addEvent_def)
  show ?thesis
    by (rule addEvent_register_inv [OF assms(1) addEvent_lookup_inv [OF assms(2) l] r])
qed

text \<open>Taking an event out of a context: the counter goes down by one, the kernel is told.\<close>

lemma io_inv_remove:
  assumes "io_inv interest io" "p < length (fc_heap io)" "ev = READ \<or> ev = WRITE"
    and "fc_events (fc_heap io ! p) AND ev \<noteq> 0"
    and io': "fc_heap io' = (fc_heap io)[p := (fc_heap io ! p)\<lparr>fc_events := fc_events (fc_heap io ! p) AND NOT ev\<rparr>]"
      "m_fd_contexts io' = m_fd_contexts io" "io_self io' = io_self io"
      "m_pending_count (io_scheds io' (io_self io)) = m_pending_count (io_scheds io (io_self io)) - 1"
    and "interest (io_kernel io') = (interest (io_kernel io))
      (fc_fd (fc_heap io ! p) := (let l = fc_events (fc_heap io ! p) AND NOT ev in
         if l = 0 then None else Some (EPOLLET OR l, p)))"
  shows "io_inv interest io'"
proof -
  let ?fc = "fc_heap io ! p"
  let ?new = "?fc\<lparr>fc_events := fc_events ?fc AND NOT ev\<rparr>"
  have ok: "ctx_ok ?fc"
    using io_inv_ctx(1) [OF assms(1,2)] .
  then have "reg_count ?fc = reg_count ?new + 1"
    using reg_count_simps(2) [OF _ assms(3,4)] by (simp add: ctx_ok_def)
  then show ?thesis
    using ctx_ok_remove [OF ok assms(3)] assms(9) io'
    by (intro io_inv_update [OF assms(1,2), of ?new]) (simp_all add: Let_def)
qed

lemma delEvent_inv:
  assumes "epoll_spec ctl interest pollable" "io_inv interest io" "delEvent ctl fd event io = Inr (b, io')"
  shows "io_inv interest io'"
proof (cases "io' = io")
  case True
  then show ?thesis
    using assms(2) by simp
next
  case False
  let ?left = "\<lambda>p. fc_events (fc_heap io ! p) AND NOT event"
  obtain p k where p: "ctx_ptr fd io = Inr p" "fc_events (fc_heap io ! p) AND event \<noteq> 0"
    "ctl (io_kernel io) (left_op (?left p)) fd (EPOLLET OR ?left p) p = (0, k)"
    and ev: "getContext event ((fc_heap io ! p)\<lparr>fc_events := ?left p\<rparr>) \<noteq> Inl AssertFail"
    and io': "io' = upd_ctx p ((fc_heap io ! p)\<lparr>fc_events := ?left p\<rparr>)
      (upd_pending (\<lambda>n. n - 1) (io\<lparr>io_kernel := k\<rparr>))"
    using assms(3) False
    by (auto simp: delEvent_def resetContext_def Let_def split: if_splits prod.splits)
  have q: "p < length (fc_heap io)" "fc_fd (fc_heap io ! p) = fd"
    using ctx_ptr_Inr [OF assms(2) p(1)] by auto
  have rw: "event = READ \<or> event = WRITE"
    using ev by (auto simp: getContext_def split: if_splits)
  have "fc_events (fc_heap io ! p) \<noteq> 0"
    using p(2) by auto
  note kern = left_ctl [OF assms(1,2) q(1) this q(2) p(3)]
  show ?thesis
    by (rule io_inv_remove [OF assms(2) q(1) rw p(2)]) (simp_all add: io' kern q(2) Let_def)
qed

lemma cancelEvent_inv:
  assumes "epoll_spec ctl interest pollable" "io_inv interest io" "cancelEvent ctl wr fd event io = Inr (b, io')"
  shows "io_inv interest io'"
proof (cases "io' = io")
  case True
  then show ?thesis
    using assms(2) by simp
next
  case False
  let ?left = "\<lambda>p. fc_events (fc_heap io ! p) AND NOT event"
  obtain p k where p: "ctx_ptr fd io = Inr p" "fc_events (fc_heap io ! p) AND event \<noteq> 0"
    "ctl (io_kernel io) (left_op (?left p)) fd (EPOLLET OR ?left p) p = (0, k)"
    "FdContext_scheduleEvent wr event p (upd_pending (\<lambda>n. n - 1) (io\<lparr>io_kernel := k\<rparr>)) = Inr io'"
    using assms(3) False by (auto simp: cancelEvent_def Let_def split: if_splits prod.splits)
  have q: "p < length (fc_heap io)" "fc_fd (fc_heap io ! p) = fd"
    using ctx_ptr_Inr [OF assms(2) p(1)] by auto
  have "fc_events (fc_heap io ! p) \<noteq> 0"
    using p(2) by auto
  note kern = left_ctl [OF assms(1,2) q(1) this q(2) p(3)]
  from p(4) show ?thesis
    using p(2)
    by (elim FdContext_scheduleEvent_Inr) (rule io_inv_remove [OF assms(2) q(1)], simp_all add: kern q(2) Let_def)
qed

lemma fire_if_Inr:
  assumes "fire_if wr b ev p io = Inr io'"
  shows "fc_heap io' = (if b then (fc_heap io)[p := (fc_heap io ! p)\<lparr>fc_events := fc_events (fc_heap io ! p) AND NOT ev\<rparr>]
           else fc_heap io)"
    and "m_fd_contexts io' = m_fd_contexts io" "io_self io' = io_self io" "io_kernel io' = io_kernel io"
    and "m_pending_count (io_scheds io' i) = m_pending_count (io_scheds io i) - of_bool (b \<and> i = io_self io)"
    and "b \<Longrightarrow> fc_events (fc_heap io ! p) AND ev \<noteq> 0"
  using assms by (auto simp: fire_if_def elim!: FdContext_scheduleEvent_Inr split: if_splits)

text \<open>Firing the events of \<open>tr\<close> after the kernel has been told.\<close>

lemma fire_both:
  assumes es: "fc_events (fc_heap io ! p) \<in> event_sets" and tr: "tr \<in> event_sets"
    and p: "p < length (fc_heap io)"
    and f2: "fire_if wr (tr AND READ \<noteq> 0) READ p io = Inr io2"
    and f3: "fire_if wr (tr AND WRITE \<noteq> 0) WRITE p io2 = Inr io3"
  defines "new \<equiv> (fc_heap io ! p)\<lparr>fc_events := fc_events (fc_heap io ! p) AND NOT tr\<rparr>"
  shows "fc_heap io3 = (fc_heap io)[p := new]"
    and "m_fd_contexts io3 = m_fd_contexts io" "io_self io3 = io_self io" "io_kernel io3 = io_kernel io"
    and "m_pending_count (io_scheds io3 (io_self io)) =
         m_pending_count (io_scheds io (io_self io)) + of_nat (reg_count new) - of_nat (reg_count (fc_heap io ! p))"
proof -
  note a = fire_if_Inr [OF f2] and b = fire_if_Inr [OF f3]
  have heap2: "fc_heap io2 ! p = (if tr AND READ \<noteq> 0
      then (fc_heap io ! p)\<lparr>fc_events := fc_events (fc_heap io ! p) AND NOT READ\<rparr> else fc_heap io ! p)"
    using p by (simp add: a(1))
  have has: "tr AND READ \<noteq> 0 \<Longrightarrow> fc_events (fc_heap io ! p) AND READ \<noteq> 0"
    "tr AND WRITE \<noteq> 0 \<Longrightarrow> fc_events (fc_heap io ! p) AND WRITE \<noteq> 0"
    using a(6) b(6) es by (auto simp: heap2 event_sets_def event_defs split: if_splits)
  show "m_fd_contexts io3 = m_fd_contexts io" "io_self io3 = io_self io" "io_kernel io3 = io_kernel io"
    by (simp_all add: a(2-4) b(2-4))
  show "fc_heap io3 = (fc_heap io)[p := new]"
  proof (cases "tr = 0")
    case True
    then show ?thesis
      by (simp add: b(1) a(1) new_def)
  next
    case False
    then show ?thesis
      using es tr p by (auto simp: b(1) heap2 a(1) new_def event_sets_def event_defs)
  qed
  show "m_pending_count (io_scheds io3 (io_self io)) =
      m_pending_count (io_scheds io (io_self io)) + of_nat (reg_count new) - of_nat (reg_count (fc_heap io ! p))"
    using es tr has by (auto simp: b(5) a(3,5) new_def reg_count_def event_sets_def event_defs)
qed

lemma fire_both_inv:
  assumes inv: "io_inv interest io" and p: "p < length (fc_heap io)" and tr: "tr \<in> event_sets"
    and kern: "interest k = (interest (io_kernel io)) (fc_fd (fc_heap io ! p) :=
      (let l = fc_events (fc_heap io ! p) AND NOT tr in if l = 0 then None else Some (EPOLLET OR l, p)))"
    and f2: "fire_if wr (tr AND READ \<noteq> 0) READ p (io\<lparr>io_kernel := k\<rparr>) = Inr io2"
    and f3: "fire_if wr (tr AND WRITE \<noteq> 0) WRITE p io2 = Inr io3"
  shows "io_inv interest io3"
proof -
  let ?new = "(fc_heap io ! p)\<lparr>fc_events := fc_events (fc_heap io ! p) AND NOT tr\<rparr>"
  have ok: "ctx_ok (fc_heap io ! p)"
    using io_inv_ctx(1) [OF inv p] .
  then have es: "fc_events (fc_heap (io\<lparr>io_kernel := k\<rparr>) ! p) \<in> event_sets"
    by (simp add: ctx_ok_def)
  note both = fire_both [OF es tr _ f2 f3, simplified, OF p]
  have "ctx_ok ?new"
    using ok tr by (auto simp: ctx_ok_def event_sets_def event_defs)
  then show ?thesis
    by (intro io_inv_update [OF inv p, of ?new]) (simp_all add: both kern Let_def)
qed

lemma triggered_events: "triggered evs fc \<in> event_sets"
  by (auto simp: triggered_def Let_def event_sets_def event_defs)

lemma scheduleEvent_inv:
  assumes spec: "epoll_spec ctl interest pollable" and inv: "io_inv interest io" and p: "p < length (fc_heap io)"
    and "IOManager_scheduleEvent ctl wr evs p io = Inr (b, io')"
  shows "io_inv interest io'"
proof -
  let ?fc = "fc_heap io ! p"
  let ?tr = "triggered evs ?fc"
  let ?left = "fc_events ?fc AND NOT ?tr"
  obtain rt k where k: "ctl (io_kernel io) (left_op ?left) (fc_fd ?fc) (EPOLLET OR ?left) p = (rt, k)"
    by fastforce
  consider "io' = io" | "rt \<noteq> 0" "io' = io\<lparr>io_kernel := k\<rparr>"
    | io2 where "rt = 0" "fc_events ?fc AND ?tr \<noteq> 0" "fire_if wr (?tr AND READ \<noteq> 0) READ p (io\<lparr>io_kernel := k\<rparr>) = Inr io2"
        "fire_if wr (?tr AND WRITE \<noteq> 0) WRITE p io2 = Inr io'"
    using assms(4) by (auto simp: IOManager_scheduleEvent_def Let_def k NONE_def split: if_splits)
  then show ?thesis
  proof cases
    case 2
    then show ?thesis
      using io_inv_frame [OF inv, of io'] epoll_fails [OF spec k] by simp
  next
    case 3
    have "fc_events ?fc \<noteq> 0"
      using 3(2) by auto
    then have "interest k = (interest (io_kernel io)) (fc_fd ?fc := (if ?left = 0 then None else Some (EPOLLET OR ?left, p)))"
      using left_ctl [OF spec inv p] k 3(1) by simp
    then show ?thesis
      using 3 by (intro fire_both_inv [OF inv p triggered_events]) (simp_all add: Let_def)
  qed (use inv in simp)
qed

lemma cancelAll_inv:
  assumes spec: "epoll_spec ctl interest pollable" and inv: "io_inv interest io"
    and "cancelAll ctl wr fd io = Inr (b, io')"
  shows "io_inv interest io'"
proof (cases "io' = io")
  case True
  then show ?thesis
    using inv by simp
next
  case False
  obtain p where p: "ctx_ptr fd io = Inr p" "fc_events (fc_heap io ! p) \<noteq> 0"
    using assms(3) False by (auto simp: cancelAll_def split: if_splits)
  let ?es = "fc_events (fc_heap io ! p)"
  obtain rt k where k: "ctl (io_kernel io) EPOLL_CTL_DEL fd 0 p = (rt, k)"
    by fastforce
  have q: "p < length (fc_heap io)" "fc_fd (fc_heap io ! p) = fd"
    using ctx_ptr_Inr [OF inv p(1)] by auto
  have es: "?es \<in> event_sets"
    using io_inv_ctx(1) [OF inv q(1)] by (simp add: ctx_ok_def)
  consider "rt \<noteq> 0" "io' = io\<lparr>io_kernel := k\<rparr>"
    | io2 where "rt = 0" "fire_if wr (?es AND READ \<noteq> 0) READ p (io\<lparr>io_kernel := k\<rparr>) = Inr io2"
        "fire_if wr (fc_events (fc_heap io2 ! p) AND WRITE \<noteq> 0) WRITE p io2 = Inr io'"
    using assms(3) False p k by (auto simp: cancelAll_def Let_def split: if_splits)
  then show ?thesis
  proof cases
    case 1
    then show ?thesis
      using io_inv_frame [OF inv, of io'] epoll_fails [OF spec k] by simp
  next
    case 2
    have "interest (io_kernel io) fd \<noteq> None"
      using io_inv_ctx(3) [OF inv q(1)] q(2) p(2) by simp
    then have "interest k = (interest (io_kernel io))(fd := None)"
      using epoll_MOD_DEL(2) [OF spec _ _, of fd "io_kernel io" 0 p] epoll_succeeds [OF spec, of "io_kernel io"] k 2(1)
      by auto
    moreover have "fc_events (fc_heap io2 ! p) AND WRITE \<noteq> 0 \<longleftrightarrow> ?es AND WRITE \<noteq> 0"
      using fire_if_Inr(1) [OF 2(2)] q(1) es by (auto simp: event_sets_def event_defs)
    ultimately show ?thesis
      using 2 q es by (intro fire_both_inv [OF inv q(1) es, of k]) simp_all
  qed
qed

text \<open>The operations of any threads, one after the other, and whatever the schedulers do meanwhile.\<close>

inductive io_step :: "'k epoll_ctl \<Rightarrow> ucontext_ops \<Rightarrow> 'k IOManager \<Rightarrow> 'k IOManager \<Rightarrow> bool" for ctl uc where
  io_add: "addEvent ctl uc (\<lambda>_. 0) cur t a fd event f io w = Inr (b, io', w') \<Longrightarrow> io_step ctl uc io io'"
| io_del: "delEvent ctl fd event io = Inr (b, io') \<Longrightarrow> io_step ctl uc io io'"
| io_cancel: "cancelEvent ctl wr fd event io = Inr (b, io') \<Longrightarrow> io_step ctl uc io io'"
| io_cancel_all: "cancelAll ctl wr fd io = Inr (b, io') \<Longrightarrow> io_step ctl uc io io'"
| io_event: "p < length (fc_heap io) \<Longrightarrow> IOManager_scheduleEvent ctl wr evs p io = Inr (b, io') \<Longrightarrow> io_step ctl uc io io'"
| io_sched: "\<forall>i. m_pending_count (ss i) = m_pending_count (io_scheds io i) \<Longrightarrow> io_step ctl uc io (io\<lparr>io_scheds := ss\<rparr>)"

inductive io_runs :: "'k epoll_ctl \<Rightarrow> ucontext_ops \<Rightarrow> 'k IOManager \<Rightarrow> 'k IOManager \<Rightarrow> bool" for ctl uc io where
  io_runs_refl: "io_runs ctl uc io io"
| io_runs_step: "io_runs ctl uc io io1 \<Longrightarrow> io_step ctl uc io1 io2 \<Longrightarrow> io_runs ctl uc io io2"

lemma io_step_inv:
  assumes "epoll_spec ctl interest pollable" "io_step ctl uc io io'" "io_inv interest io"
  shows "io_inv interest io'"
  using assms(2)
proof cases
  case (io_sched ss)
  then show ?thesis
    using io_inv_frame [OF assms(3), of io'] by simp
qed (use assms(1,3) in \<open>auto intro: addEvent_inv delEvent_inv cancelEvent_inv cancelAll_inv scheduleEvent_inv\<close>)

lemma io_runs_inv:
  assumes "epoll_spec ctl interest pollable" "io_runs ctl uc io io'" "io_inv interest io"
  shows "io_inv interest io'"
  using assms(2,3) by (induction) (auto intro: io_step_inv [OF assms(1)])

definition io_fresh :: "('k \<Rightarrow> c_int \<Rightarrow> (u32 \<times> nat) option) \<Rightarrow> 'k IOManager \<Rightarrow> bool" where
  "io_fresh interest io \<longleftrightarrow>
     (\<exists>tids self scheds k. IOManager_ctor (\<lambda>_. 0) tids self scheds k = Inr io \<and>
        fresh_scheduler (scheds self) \<and> interest k = (\<lambda>_. None))"

lemma resize_empty:
  "resizeContexts garb sz \<lparr>io_scheds = ss, io_self = i, fc_heap = [], m_fd_contexts = [], io_kernel = k\<rparr> =
     \<lparr>io_scheds = ss, io_self = i, fc_heap = map (\<lambda>j. FdContext_new (garb j) j) [0..<sz],
      m_fd_contexts = map Some [0..<sz], io_kernel = k\<rparr>"
  using resizeContexts_grows [of "\<lparr>io_scheds = ss, io_self = i, fc_heap = [], m_fd_contexts = [], io_kernel = k\<rparr>" sz sz garb]
  by simp

lemma io_fresh_inv:
  assumes "io_fresh interest io"
  shows "io_inv interest io"
proof -
  obtain tids self scheds k where c: "IOManager_ctor (\<lambda>_. 0) tids self scheds k = Inr io"
    "fresh_scheduler (scheds self)" "interest k = (\<lambda>_. None)"
    using assms by (auto simp: io_fresh_def)
  obtain s where s: "Scheduler_start tids (scheds self) = Inr s"
    and io: "io = \<lparr>io_scheds = scheds(self := s), io_self = self, fc_heap = map (FdContext_new 0) [0..<32],
      m_fd_contexts = map Some [0..<32], io_kernel = k\<rparr>"
    using c(1) by (auto simp: IOManager_ctor_def resize_empty DEFAULT_FD_CONTEXTS_SIZE_def)
  have pend: "m_pending_count s = 0"
    using s fresh_scheduler_fields [OF c(2)] by (auto simp: Scheduler_start_def)
  have ctx: "ctx_of io fd = (if 0 \<le> fd \<and> fd < 32 then Some (nat fd) else None)" for fd
    by (auto simp: ctx_of_def io)
  have new: "fc_heap io ! q = FdContext_new 0 q" if "q < 32" for q
    using that by (simp add: io)
  have "table_ok io"
    using new by (auto simp: table_ok_def ctx) (auto simp: io FdContext_new_def ctx_ok_def event_sets_def)
  moreover have "wanted io = (\<lambda>_. None)"
    using new by (intro ext) (auto simp: wanted_def ctx FdContext_new_def nat_less_iff)
  moreover have "total_registered io = 0"
    by (simp add: total_registered_def io reg_count_def FdContext_new_def upt_rec)
  ultimately show ?thesis
    using c(3) pend by (simp add: io_inv_def io)
qed

end
