(* ===== verification/EVA_IOEvents.thy ===== *)
theory EVA_IOEvents
  imports EVA_IOManager
begin

text \<open>
  What the IO manager promises: the abstract view of its registrations, the effect of every
  operation of \<open>src/src/iomanager.cpp\<close> on it, and the properties that follow.
\<close>

section \<open>What is registered\<close>

text \<open>The abstract view: for a descriptor and an event, the scheduler and the task to be queued.\<close>

definition registered :: "'k IOManager \<Rightarrow> c_int \<Rightarrow> Event \<Rightarrow> (sid option \<times> Task option) option" where
  "registered io fd ev =
     (case ctx_of io fd of
        None \<Rightarrow> None
      | Some p \<Rightarrow>
          if fc_events (fc_heap io ! p) AND ev = 0 then None
          else (case getContext ev (fc_heap io ! p) of
                  Inl e \<Rightarrow> None
                | Inr c \<Rightarrow> Some (ev_scheduler c, ctx_task c)))"

definition slot_used :: "'k IOManager \<Rightarrow> c_int \<Rightarrow> Event \<Rightarrow> bool" where
  "slot_used io fd ev \<longleftrightarrow>
     (\<exists>p. ctx_of io fd = Some p \<and> getContext ev (fc_heap io ! p) \<noteq> Inr no_context)"

lemma getContext_simps:
  "getContext READ fc = Inr (fc_read fc)" "getContext WRITE fc = Inr (fc_write fc)"
  by (simp_all add: getContext_def)

lemma getContext_put:
  "event = READ \<or> event = WRITE \<Longrightarrow> getContext event (putContext event c fc) = Inr c"
  "event = READ \<or> event = WRITE \<Longrightarrow> ev = READ \<or> ev = WRITE \<Longrightarrow> ev \<noteq> event \<Longrightarrow>
     getContext ev (putContext event c fc) = getContext ev fc"
  by (auto simp: getContext_def putContext_def)

lemma getContext_events [simp]: "getContext ev (fc\<lparr>fc_events := es\<rparr>) = getContext ev fc"
  by (simp add: getContext_def)

lemma registered_used:
  assumes "io_inv interest io" "ev = READ \<or> ev = WRITE" "registered io fd ev \<noteq> None"
  shows "slot_used io fd ev"
proof -
  obtain p where p: "ctx_of io fd = Some p" "fc_events (fc_heap io ! p) AND ev \<noteq> 0"
    using assms(3) by (auto simp: registered_def split: option.splits if_splits)
  then have "ctx_ok (fc_heap io ! p)"
    using assms(1) by (simp add: io_inv_def table_ok_def)
  then show ?thesis
    using p assms(2) by (auto simp: slot_used_def ctx_ok_def getContext_simps ctx_task_def no_context_def)
qed

text \<open>An update of one context changes what is registered for its descriptor only.\<close>

lemma registered_update:
  assumes "io_inv interest io" "p < length (fc_heap io)" "fc_fd (fc_heap io ! p) = fd"
    and "fc_heap io' = (fc_heap io)[p := fc]" "m_fd_contexts io' = m_fd_contexts io"
  shows "registered io' fd' ev = (if fd' = fd
           then if fc_events fc AND ev = 0 then None
                else (case getContext ev fc of Inl e \<Rightarrow> None | Inr c \<Rightarrow> Some (ev_scheduler c, ctx_task c))
           else registered io fd' ev)"
proof -
  have ctx: "ctx_of io' = ctx_of io"
    by (rule ext) (simp add: ctx_of_def assms(5))
  have own: "ctx_of io fd' = Some q \<longleftrightarrow> q < length (fc_heap io) \<and> fc_fd (fc_heap io ! q) = fd'" for q fd'
    using assms(1) by (simp add: io_inv_def table_ok_def)
  have "ctx_of io fd = Some p"
    using own assms(2,3) by simp
  moreover have "q \<noteq> p" if "ctx_of io fd' = Some q" "fd' \<noteq> fd" for q
    using own [of fd' q] that assms(3) by auto
  ultimately show ?thesis
    using assms(2) by (cases "ctx_of io fd'"; cases "fd' = fd") (simp_all add: registered_def ctx assms(4))
qed

lemma resize_registered:
  assumes "io_inv interest io" "length (m_fd_contexts io) \<le> sz"
  shows "registered (resizeContexts (\<lambda>_. 0) sz io) fd ev = registered io fd ev"
    and "slot_used (resizeContexts (\<lambda>_. 0) sz io) fd ev \<Longrightarrow> ev = READ \<or> ev = WRITE \<Longrightarrow> slot_used io fd ev"
    and "slot_used io fd ev \<Longrightarrow> slot_used (resizeContexts (\<lambda>_. 0) sz io) fd ev"
proof -
  let ?d = "length (m_fd_contexts io)"
  have tab: "table_ok io"
    using assms(1) by (simp add: io_inv_def)
  obtain k where k: "?d + k = sz"
    using assms(2) le_Suc_ex by blast
  note st = resizeContexts_state(1-8) [OF tab k, where garb = "\<lambda>_. 0"]
  have old: "ctx_of (resizeContexts (\<lambda>_. 0) sz io) fd = Some q \<and>
      fc_heap (resizeContexts (\<lambda>_. 0) sz io) ! q = fc_heap io ! q" if "ctx_of io fd = Some q" for q
  proof -
    have "q < length (fc_heap io)" "fd < int ?d"
      using that tab by (auto simp: table_ok_def ctx_of_def split: if_splits)
    then show ?thesis
      using that st(2) by (simp add: st(4))
  qed
  have new: "fc_heap (resizeContexts (\<lambda>_. 0) sz io) ! q = FdContext_new 0 (nat fd)"
    if "ctx_of io fd = None" "ctx_of (resizeContexts (\<lambda>_. 0) sz io) fd = Some q" for q
    using that st(3) [of "nat fd - ?d"] k by (auto simp: st(4) split: if_splits)
  show "registered (resizeContexts (\<lambda>_. 0) sz io) fd ev = registered io fd ev"
    using old new by (cases "ctx_of io fd"; cases "ctx_of (resizeContexts (\<lambda>_. 0) sz io) fd")
      (auto simp: registered_def FdContext_new_def)
  show "slot_used io fd ev" if "slot_used (resizeContexts (\<lambda>_. 0) sz io) fd ev" "ev = READ \<or> ev = WRITE"
    using that old new
    by (cases "ctx_of io fd"; cases "ctx_of (resizeContexts (\<lambda>_. 0) sz io) fd")
       (auto simp: slot_used_def FdContext_new_def getContext_simps)
  show "slot_used io fd ev \<Longrightarrow> slot_used (resizeContexts (\<lambda>_. 0) sz io) fd ev"
    using old by (auto simp: slot_used_def)
qed

section \<open>Properties of the IO manager\<close>

text \<open>
  A concrete \<open>epoll_ctl\<close>, whose state is the interest list; an IO manager just constructed, with one
  worker; and the same with a function registered for reading from descriptor 3.
\<close>

definition ex_ctl :: "(c_int \<Rightarrow> (u32 \<times> nat) option) epoll_ctl" where
  "ex_ctl k op fd ev p =
     (if fd < 0 \<or> (op = EPOLL_CTL_ADD) = (k fd \<noteq> None) then (-1, k)
      else (0, k(fd := (if op = EPOLL_CTL_DEL then None else Some (ev, p)))))"

definition ex_io :: "(c_int \<Rightarrow> (u32 \<times> nat) option) IOManager" where
  "ex_io =
     \<lparr>io_scheds = (\<lambda>_. ex_sched)(0 := ex_sched\<lparr>m_threads := [1], m_stopped := False\<rparr>), io_self = 0,
      fc_heap = map (FdContext_new 0) [0..<32], m_fd_contexts = map Some [0..<32], io_kernel = (\<lambda>_. None)\<rparr>"

definition ex_ctx :: FdContext where
  "ex_ctx = \<lparr>fc_fd = 3, fc_read = \<lparr>ev_scheduler = Some 0, ev_fiber = None, ev_func = Some Return\<rparr>,
     fc_write = no_context, fc_events = READ\<rparr>"

definition ex_io_read :: "(c_int \<Rightarrow> (u32 \<times> nat) option) IOManager" where
  "ex_io_read = upd_ctx 3 ex_ctx (upd_pending (\<lambda>n. n + 1) (ex_io\<lparr>io_kernel := [3 \<mapsto> (EPOLLET OR READ, 3)]\<rparr>))"

lemma ex_epoll: "epoll_spec ex_ctl (\<lambda>k. k) (\<lambda>fd. 0 \<le> fd)"
  by (simp add: epoll_spec_def ex_ctl_def)

lemma ex_io_ctor: "IOManager_ctor (\<lambda>_. 0) [1] 0 (\<lambda>_. ex_sched) (\<lambda>_. None) = Inr ex_io"
  by (simp add: IOManager_ctor_def Scheduler_start_def ex_sched_def resize_empty ex_io_def DEFAULT_FD_CONTEXTS_SIZE_def)

lemma ex_io_fresh: "io_fresh (\<lambda>k. k) ex_io"
  unfolding io_fresh_def using ex_io_ctor ex_sched_fresh by blast

lemmas ex_io_inv = io_fresh_inv [OF ex_io_fresh]

lemma ex_io_unused: "ev = READ \<or> ev = WRITE \<Longrightarrow> \<not> slot_used ex_io fd ev"
  by (auto simp: slot_used_def ctx_of_def ex_io_def getContext_def FdContext_new_def split: if_splits)

lemma ex_io_read_run:
  "addEvent ex_ctl uc (\<lambda>_. 0) (Some 0) t a 3 READ (Some Return) ex_io w = Inr (True, ex_io_read, w)"
  by (simp add: addEvent_def addEvent_lookup_def table_short_def ctx_ptr_def vec_at_def ex_io_def
      addEvent_register_def FdContext_new_def ex_ctl_def getContext_def no_context_def putContext_def
      ex_io_read_def ex_ctx_def)

lemmas ex_io_read_inv = addEvent_inv [OF ex_epoll ex_io_inv ex_io_read_run]

lemma ex_io_read_ctx: "length (fc_heap ex_io_read) = 32" "fc_heap ex_io_read ! 3 = ex_ctx"
  "m_tasks (io_scheds ex_io_read 0) = []"
  by (simp_all add: ex_io_read_def ex_io_def ex_sched_def upd_pending_def)

text \<open>
  C7. After any sequence of \<open>addEvent\<close>, \<open>delEvent\<close>, \<open>cancelEvent\<close>, \<open>cancelAll\<close> and handled events,
  the kernel's interest list holds exactly the descriptors with a registered event, each with
  exactly its registered events and its context, and \<open>m_pending_count\<close> is the number of
  registered events; so \<open>shouldStop()\<close> is false as long as an event is registered.
\<close>

theorem epoll_follows_registrations:
  assumes "epoll_spec ctl interest pollable" "io_fresh interest io" "io_runs ctl uc io io'"
  shows "(\<forall>fd. interest (io_kernel io') fd =
            (case ctx_of io' fd of
               None \<Rightarrow> None
             | Some p \<Rightarrow> let ev = fc_events (fc_heap io' ! p) in
                          if ev = 0 then None else Some (EPOLLET OR ev, p))) \<and>
         m_pending_count (io_scheds io' (io_self io')) = of_nat (total_registered io') \<and>
         (shouldStop (io_scheds io' (io_self io')) \<and> total_registered io' < 2 ^ 64 \<longrightarrow> total_registered io' = 0)"
proof -
  have inv: "io_inv interest io'"
    using io_runs_inv [OF assms(1,3) io_fresh_inv [OF assms(2)]] .
  then have pend: "m_pending_count (io_scheds io' (io_self io')) = of_nat (total_registered io')"
    by (simp add: io_inv_def)
  have "total_registered io' = 0"
    if "shouldStop (io_scheds io' (io_self io'))" "total_registered io' < 2 ^ 64"
    using that pend by (intro of_nat_u64_eq_0) (simp_all add: shouldStop_def)
  then show ?thesis
    using inv pend unfolding io_inv_def wanted_def [symmetric] by simp
qed

theorem epoll_follows_registrations_witness:
  "\<exists>io. io_runs ex_ctl ex_uc ex_io io \<and> io_kernel io 3 = Some (EPOLLET OR READ, 3) \<and>
        m_pending_count (io_scheds io (io_self io)) = of_nat (total_registered io)"
proof -
  have run: "io_runs ex_ctl ex_uc ex_io ex_io_read"
    by (rule io_runs_step [OF io_runs_refl io_add [OF ex_io_read_run]])
  have "ctx_of ex_io_read 3 = Some 3"
    by (simp add: ctx_of_def ex_io_read_def ex_io_def)
  then show ?thesis
    using epoll_follows_registrations [OF ex_epoll ex_io_fresh run] run ex_io_read_ctx
    by (auto simp: ex_ctx_def Let_def)
qed

lemma addEvent_lookup_ok:
  assumes "io_inv interest io" "0 \<le> fd"
  obtains p io1 where "addEvent_lookup (\<lambda>_. 0) fd (table_short fd io) io = Inr (p, io1)" "io_inv interest io1"
    and "p < length (fc_heap io1)" "fc_fd (fc_heap io1 ! p) = fd" "ctx_of io1 fd = Some p"
    and "\<forall>fd' ev. registered io1 fd' ev = registered io fd' ev"
    and "\<forall>fd' ev. ev = READ \<or> ev = WRITE \<longrightarrow> slot_used io1 fd' ev = slot_used io fd' ev"
    and "io_scheds io1 = io_scheds io" "io_self io1 = io_self io" "io_kernel io1 = io_kernel io"
proof -
  let ?io1 = "if table_short fd io then resizeContexts (\<lambda>_. 0) (grown_size fd) io else io"
  have tab: "table_ok io"
    using assms(1) by (simp add: io_inv_def)
  then have big: "length (m_fd_contexts io) \<le> grown_size fd" "fd < int (grown_size fd)" if "table_short fd io"
    using that grown_size_gt [of fd] by (auto simp: table_short_def table_ok_def)
  have inv: "io_inv interest ?io1"
    using assms(1) resizeContexts_inv [OF assms(1) big(1)] by simp
  have same: "io_scheds ?io1 = io_scheds io" "io_self ?io1 = io_self io" "io_kernel ?io1 = io_kernel io"
    by (simp_all add: resizeContexts_def split: prod.splits)
  have len: "fd < int (length (m_fd_contexts ?io1))"
    using big resizeContexts_state(5) [OF tab, of _ "grown_size fd"] le_Suc_ex [OF big(1)]
    by (auto simp: table_short_def)
  then obtain p where p: "ctx_of ?io1 fd = Some p"
    using inv assms(2) unfolding io_inv_def table_ok_def by blast
  then have "ctx_ptr fd ?io1 = Inr p"
    by (auto simp: ctx_ptr_def ctx_of_def vec_at_def split: if_splits)
  then have lk: "addEvent_lookup (\<lambda>_. 0) fd (table_short fd io) io = Inr (p, ?io1)"
    by (simp add: addEvent_lookup_def Let_def)
  have at: "p < length (fc_heap ?io1)" "fc_fd (fc_heap ?io1 ! p) = fd"
    using inv p unfolding io_inv_def table_ok_def by blast+
  have reg: "registered ?io1 fd' ev = registered io fd' ev" for fd' ev
    using resize_registered(1) [OF assms(1) big(1)] by simp
  have slot: "slot_used ?io1 fd' ev = slot_used io fd' ev" if "ev = READ \<or> ev = WRITE" for fd' ev
  proof (cases "table_short fd io")
    case True
    then show ?thesis
      using resize_registered(2) [OF assms(1) big(1) [OF True] _ that, of fd']
        resize_registered(3) [OF assms(1) big(1) [OF True], of fd' ev] by auto
  qed simp
  show ?thesis
    by (rule that [OF lk inv at p _ _ same]) (use reg slot in blast)+
qed

lemma addEvent_aborts:
  assumes "io_inv interest io" "event = READ \<or> event = WRITE" "slot_used io fd event"
  shows "addEvent ctl uc (\<lambda>_. 0) cur t a fd event f io w = Inl AssertFail"
proof -
  have "0 \<le> fd"
    using assms(3) by (auto simp: slot_used_def ctx_of_def split: if_splits)
  then obtain p io1 where l: "addEvent_lookup (\<lambda>_. 0) fd (table_short fd io) io = Inr (p, io1)"
    "ctx_of io1 fd = Some p" "slot_used io1 fd event = slot_used io fd event"
    using addEvent_lookup_ok [OF assms(1)] assms(2) by metis
  then have "getContext event (fc_heap io1 ! p) \<noteq> Inr no_context"
    using assms(3) by (simp add: slot_used_def)
  then have "addEvent_register ctl uc cur t a fd event f p io1 w = Inl AssertFail"
    using assms(2)
    by (auto simp: addEvent_register_def Let_def getContext_simps no_context_def ASSERT_def split: prod.splits)
  then show ?thesis
    using l(1) by (simp add: addEvent_def)
qed

text \<open>What \<open>addEvent\<close> puts into the context: the function given, or else the running fiber.\<close>

definition new_context :: "sid option \<Rightarrow> tid \<Rightarrow> func option \<Rightarrow> eff fibers \<Rightarrow> EventContext \<Rightarrow> bool" where
  "new_context cur t f w c \<longleftrightarrow>
     (case f of
        Some g \<Rightarrow> c = no_context\<lparr>ev_scheduler := cur, ev_func := Some g\<rparr>
      | None \<Rightarrow> (\<exists>b fb. t_fiber w t = Some b \<and> fb_heap w b = Some fb \<and> fb_state fb = RUNNING \<and>
                  c = no_context\<lparr>ev_scheduler := cur, ev_fiber := Some b\<rparr>))"

lemma addEvent_adds_context:
  assumes "epoll_spec ctl interest pollable" "io_inv interest io" "0 \<le> fd" "pollable fd"
    and "event = READ \<or> event = WRITE" and unused: "\<not> slot_used io fd event" and "new_context cur t f w c"
  shows "\<exists>io'. addEvent ctl uc (\<lambda>_. 0) cur t a fd event f io w = Inr (True, io', w) \<and>
           registered io' fd event = Some (cur, ctx_task c) \<and>
           (\<forall>fd' ev. (ev = READ \<or> ev = WRITE) \<and> (fd', ev) \<noteq> (fd, event) \<longrightarrow>
              registered io' fd' ev = registered io fd' ev) \<and>
           m_pending_count (io_scheds io' (io_self io')) = m_pending_count (io_scheds io (io_self io)) + 1 \<and>
           io_self io' = io_self io"
proof -
  obtain p io1 where l: "addEvent_lookup (\<lambda>_. 0) fd (table_short fd io) io = Inr (p, io1)" "io_inv interest io1"
    "p < length (fc_heap io1)" "fc_fd (fc_heap io1 ! p) = fd" "ctx_of io1 fd = Some p"
    and reg0: "\<forall>fd' ev. registered io1 fd' ev = registered io fd' ev"
    and slot: "\<forall>fd' ev. ev = READ \<or> ev = WRITE \<longrightarrow> slot_used io1 fd' ev = slot_used io fd' ev"
    and same: "io_scheds io1 = io_scheds io" "io_self io1 = io_self io" "io_kernel io1 = io_kernel io"
    by (rule addEvent_lookup_ok [OF assms(2,3)])
  have reg: "registered io1 fd' ev = registered io fd' ev" for fd' ev
    using reg0 by blast
  let ?fc = "fc_heap io1 ! p"
  let ?op = "if fc_events ?fc \<noteq> 0 then EPOLL_CTL_MOD else EPOLL_CTL_ADD"
  have "\<not> slot_used io1 fd event"
    using unused slot assms(5) by blast
  then have free: "getContext event ?fc = Inr no_context"
    by (simp add: slot_used_def l(5))
  have ok: "ctx_ok ?fc"
    using io_inv_ctx(1) [OF l(2,3)] .
  have unreg: "fc_events ?fc AND event = 0"
    using ok free assms(5) by (auto simp: ctx_ok_def getContext_simps no_context_def ctx_task_def)
  have "interest (io_kernel io1) fd = None \<longleftrightarrow> fc_events ?fc = 0"
    using io_inv_ctx(3) [OF l(2,3)] l(4) by simp
  then obtain k where k: "ctl (io_kernel io1) ?op fd (EPOLLET OR fc_events ?fc OR event) p = (0, k)"
    using epoll_ADD [OF assms(1,4), of "io_kernel io1"] epoll_MOD_DEL(1) [OF assms(1,4), of "io_kernel io1"]
    by (cases "fc_events ?fc = 0") fastforce+
  let ?new = "putContext event c (?fc\<lparr>fc_events := fc_events ?fc OR event\<rparr>)"
  let ?io' = "upd_ctx p ?new (upd_pending (\<lambda>n. n + 1) (io1\<lparr>io_kernel := k\<rparr>))"
  have run: "addEvent ctl uc (\<lambda>_. 0) cur t a fd event f io w = Inr (True, ?io', w)"
    using unreg free assms(7)
    by (auto simp: addEvent_def l(1) addEvent_register_def Let_def k no_context_def new_context_def GetThis_def
        deref_def split: option.splits)
  have cur: "ev_scheduler c = cur"
    using assms(7) by (auto simp: new_context_def split: option.splits)
  have new: "registered ?io' fd' ev = (if fd' = fd
           then if fc_events ?new AND ev = 0 then None
                else (case getContext ev ?new of Inl e \<Rightarrow> None | Inr c \<Rightarrow> Some (ev_scheduler c, ctx_task c))
           else registered io fd' ev)" for fd' ev
    using registered_update [OF l(2-4), of ?io' ?new] reg by simp
  have old: "registered io fd ev = (if fc_events ?fc AND ev = 0 then None
      else (case getContext ev ?fc of Inl e \<Rightarrow> None | Inr c \<Rightarrow> Some (ev_scheduler c, ctx_task c)))" for ev
    unfolding reg [symmetric] using l(5) by (simp add: registered_def)
  have bits: "fc_events ?new AND ev \<noteq> 0 \<longleftrightarrow> ev = event \<or> fc_events ?fc AND ev \<noteq> 0" if "ev = READ \<or> ev = WRITE" for ev
  proof -
    have "fc_events ?fc \<in> event_sets" "fc_events ?new = fc_events ?fc OR event"
      using ok by (simp_all add: ctx_ok_def putContext_def)
    then show ?thesis
      using events_bits(4) [OF _ assms(5) that] by simp
  qed
  have "registered ?io' fd event = Some (cur, ctx_task c)"
    unfolding new using bits [OF assms(5)] cur by (simp add: getContext_put(1) [OF assms(5)])
  moreover have "registered ?io' fd' ev = registered io fd' ev" if "ev = READ \<or> ev = WRITE" "(fd', ev) \<noteq> (fd, event)" for fd' ev
    unfolding new using bits [OF that(1)] that getContext_put(2) [OF assms(5) that(1)] by (auto simp: old)
  moreover have "m_pending_count (io_scheds ?io' (io_self ?io')) = m_pending_count (io_scheds io (io_self io)) + 1"
    by (simp add: same)
  ultimately show ?thesis
    using run same by auto
qed

lemma addEvent_adds:
  assumes "epoll_spec ctl interest pollable" "io_inv interest io" "0 \<le> fd" "pollable fd"
    and "event = READ \<or> event = WRITE" and "\<not> slot_used io fd event"
  shows "\<exists>io'. addEvent ctl uc (\<lambda>_. 0) cur t a fd event (Some g) io w = Inr (True, io', w) \<and>
           registered io' fd event = Some (cur, Some (Task_of_func g (-1))) \<and>
           (\<forall>fd' ev. (ev = READ \<or> ev = WRITE) \<and> (fd', ev) \<noteq> (fd, event) \<longrightarrow>
              registered io' fd' ev = registered io fd' ev) \<and>
           m_pending_count (io_scheds io' (io_self io')) = m_pending_count (io_scheds io (io_self io)) + 1"
proof -
  have "new_context cur t (Some g) w (no_context\<lparr>ev_scheduler := cur, ev_func := Some g\<rparr>)"
    by (simp add: new_context_def)
  from addEvent_adds_context [OF assms this, of uc a] show ?thesis
    by (auto simp: ctx_task_def)
qed



text \<open>No operation empties a context: every assignment that should is made to a copy.\<close>

lemma slot_used_update:
  assumes "io_inv interest io" "p < length (fc_heap io)"
    and "fc_heap io' = (fc_heap io)[p := fc]" "m_fd_contexts io' = m_fd_contexts io"
    and "getContext ev (fc_heap io ! p) \<noteq> Inr no_context \<Longrightarrow> getContext ev fc \<noteq> Inr no_context"
    and "slot_used io fd ev"
  shows "slot_used io' fd ev"
proof -
  obtain q where q: "ctx_of io fd = Some q" "getContext ev (fc_heap io ! q) \<noteq> Inr no_context"
    using assms(6) by (auto simp: slot_used_def)
  then have "ctx_of io' fd = Some q"
    by (simp add: ctx_of_def assms(4) split: if_splits)
  moreover have "getContext ev (fc_heap io' ! q) \<noteq> Inr no_context"
    using q(2) assms(2,3,5) by (cases "q = p") auto
  ultimately show ?thesis
    by (auto simp: slot_used_def)
qed

lemma putContext_used:
  assumes "getContext ev fc \<noteq> Inr no_context" "ctx_task c \<noteq> None" "ev' = READ \<or> ev' = WRITE"
  shows "getContext ev (putContext ev' c fc) \<noteq> Inr no_context"
  using assms by (auto simp: getContext_def putContext_def no_context_def ctx_task_def split: if_splits)

lemma addEvent_used:
  assumes "io_inv interest io" "addEvent ctl uc (\<lambda>_. 0) cur t a fd event f io w = Inr (b, io', w')"
  shows "slot_used io fd' ev \<Longrightarrow> ev = READ \<or> ev = WRITE \<Longrightarrow> slot_used io' fd' ev"
    and "slot_used io' fd event" "event = READ \<or> event = WRITE"
proof -
  obtain p io1 where lk: "addEvent_lookup (\<lambda>_. 0) fd (table_short fd io) io = Inr (p, io1)"
    and r: "addEvent_register ctl uc cur t a fd event f p io1 w = Inr (io', w')"
    using assms(2) by (auto simp: addEvent_def)
  note l = addEvent_lookup_inv [OF assms(1) lk]
  have "0 \<le> fd"
    using lk by (auto simp: addEvent_lookup_def Let_def ctx_ptr_def)
  then have slot1: "slot_used io1 fd' ev = slot_used io fd' ev" if "ev = READ \<or> ev = WRITE"
    using addEvent_lookup_ok [OF assms(1) \<open>0 \<le> fd\<close>] lk that by (metis Inr_inject prod.inject)
  obtain k c where ev: "event = READ \<or> event = WRITE" and c: "ctx_task c \<noteq> None"
    and io': "io' = upd_ctx p (putContext event c ((fc_heap io1 ! p)\<lparr>fc_events := fc_events (fc_heap io1 ! p) OR event\<rparr>))
       (upd_pending (\<lambda>n. n + 1) (io1\<lparr>io_kernel := k\<rparr>))"
    by (rule addEvent_register_Inr [OF r])
  show "event = READ \<or> event = WRITE"
    by (rule ev)
  show "slot_used io' fd' ev" if "slot_used io fd' ev" "ev = READ \<or> ev = WRITE"
    using that slot1 l(1,2) putContext_used [OF _ c ev]
    by (intro slot_used_update [OF l(1,2), of io' "putContext event c
         ((fc_heap io1 ! p)\<lparr>fc_events := fc_events (fc_heap io1 ! p) OR event\<rparr>)"]) (auto simp: io')
  have "ctx_of io1 fd = Some p"
    using l unfolding io_inv_def table_ok_def by blast
  then have "ctx_of io' fd = Some p"
    by (simp add: ctx_of_def io' split: if_splits)
  then show "slot_used io' fd event"
    using l(2) ev c by (auto simp: slot_used_def io' getContext_def putContext_def no_context_def ctx_task_def)
qed

lemma slot_used_events:
  assumes "io_inv interest io" "p < length (fc_heap io)" "slot_used io fd ev"
    and "fc_heap io' = (fc_heap io)[p := (fc_heap io ! p)\<lparr>fc_events := es\<rparr>]" "m_fd_contexts io' = m_fd_contexts io"
  shows "slot_used io' fd ev"
  by (rule slot_used_update [OF assms(1,2,4,5) _ assms(3)]) simp

lemma FdContext_scheduleEvent_used:
  assumes "io_inv interest io" "p < length (fc_heap io)" "FdContext_scheduleEvent wr ev p io1 = Inr io'"
    and "fc_heap io1 = fc_heap io" "m_fd_contexts io1 = m_fd_contexts io" "slot_used io fd ev'"
  shows "slot_used io' fd ev'"
  using assms(3)
  by (elim FdContext_scheduleEvent_Inr)
     (rule slot_used_events [OF assms(1,2,6), of io' "fc_events (fc_heap io ! p) AND NOT ev"], simp_all add: assms(4,5))

lemma fire_both_used:
  assumes "io_inv interest io" "p < length (fc_heap io)"
    and f2: "fire_if wr b READ p (io\<lparr>io_kernel := k\<rparr>) = Inr io2" and f3: "fire_if wr b' WRITE p io2 = Inr io3"
    and "slot_used io fd ev"
  shows "slot_used io3 fd ev"
proof -
  note a = fire_if_Inr [OF f2] and c = fire_if_Inr [OF f3]
  have "\<exists>es. fc_heap io2 = (fc_heap io)[p := (fc_heap io ! p)\<lparr>fc_events := es\<rparr>]"
    by (auto simp: a(1) intro: exI [of _ "fc_events (fc_heap io ! p)"])
  then obtain es where es: "fc_heap io2 = (fc_heap io)[p := (fc_heap io ! p)\<lparr>fc_events := es\<rparr>]"
    by blast
  have "\<exists>es'. fc_heap io3 = (fc_heap io)[p := (fc_heap io ! p)\<lparr>fc_events := es'\<rparr>]"
    using assms(2) by (auto simp: c(1) es)
  then obtain es' where "fc_heap io3 = (fc_heap io)[p := (fc_heap io ! p)\<lparr>fc_events := es'\<rparr>]"
    by blast
  then show ?thesis
    using a(2) c(2) by (intro slot_used_events [OF assms(1,2,5)]) simp_all
qed

lemma slot_used_frame [simp]:
  "slot_used (io\<lparr>io_kernel := k\<rparr>) fd ev = slot_used io fd ev"
  "slot_used (io\<lparr>io_scheds := ss\<rparr>) fd ev = slot_used io fd ev"
  by (simp_all add: slot_used_def ctx_of_def)

lemma io_step_used:
  assumes "io_step ctl uc io io'" "io_inv interest io" "slot_used io fd ev" "ev = READ \<or> ev = WRITE"
  shows "slot_used io' fd ev"
  using assms(1)
proof cases
  case (io_add cur t a fd' event f w b w')
  then show ?thesis
    using addEvent_used(1) [OF assms(2)] assms(3,4) by blast
next
  case (io_del fd' event b)
  show ?thesis
  proof (cases "io' = io")
    case False
    then obtain p es where "ctx_ptr fd' io = Inr p"
      "fc_heap io' = (fc_heap io)[p := (fc_heap io ! p)\<lparr>fc_events := es\<rparr>]" "m_fd_contexts io' = m_fd_contexts io"
      using io_del by (auto simp: delEvent_def resetContext_def Let_def split: if_splits prod.splits)
    then show ?thesis
      using slot_used_events [OF assms(2) ctx_ptr_Inr(1) [OF assms(2)] assms(3)] by blast
  qed (use assms(3) in simp)
next
  case (io_cancel wr fd' event b)
  show ?thesis
  proof (cases "io' = io")
    case False
    then obtain p k where p: "ctx_ptr fd' io = Inr p"
      and fire: "FdContext_scheduleEvent wr event p (upd_pending (\<lambda>n. n - 1) (io\<lparr>io_kernel := k\<rparr>)) = Inr io'"
      using io_cancel by (auto simp: cancelEvent_def Let_def split: if_splits prod.splits)
    show ?thesis
      by (rule FdContext_scheduleEvent_used [OF assms(2) ctx_ptr_Inr(1) [OF assms(2) p] fire _ _ assms(3)]) simp_all
  qed (use assms(3) in simp)
next
  case (io_cancel_all wr fd' b)
  then consider "io' = io" | k where "io' = io\<lparr>io_kernel := k\<rparr>"
    | p k c io2 d where "ctx_ptr fd' io = Inr p" "fire_if wr c READ p (io\<lparr>io_kernel := k\<rparr>) = Inr io2"
        "fire_if wr d WRITE p io2 = Inr io'"
    by (auto simp: cancelAll_def Let_def split: if_splits prod.splits)
  then show ?thesis
  proof cases
    case 3
    then show ?thesis
      using fire_both_used [OF assms(2) ctx_ptr_Inr(1) [OF assms(2) 3(1)] 3(2,3) assms(3)] by simp
  qed (use assms(3) in simp_all)
next
  case (io_event p wr evs b)
  then consider "io' = io" | k where "io' = io\<lparr>io_kernel := k\<rparr>"
    | k c io2 d where "fire_if wr c READ p (io\<lparr>io_kernel := k\<rparr>) = Inr io2"
        "fire_if wr d WRITE p io2 = Inr io'"
    by (auto simp: IOManager_scheduleEvent_def Let_def split: if_splits prod.splits)
  then show ?thesis
  proof cases
    case 3
    then show ?thesis
      using fire_both_used [OF assms(2) io_event(1) 3 assms(3)] by simp
  qed (use assms(3) in simp_all)
next
  case (io_sched ss)
  then show ?thesis
    using assms(3) by simp
qed

lemma slot_used_runs:
  assumes "epoll_spec ctl interest pollable" "io_runs ctl uc io io'" "io_inv interest io" "slot_used io fd ev"
    and "ev = READ \<or> ev = WRITE"
  shows "io_inv interest io' \<and> slot_used io' fd ev"
  using assms(2)
proof induction
  case io_runs_refl
  then show ?case
    using assms(3,4) by simp
next
  case (io_runs_step io1 io2)
  then show ?case
    using io_step_inv [OF assms(1)] io_step_used assms(5) by blast
qed

text \<open>
  Once an event of a descriptor has been registered, no later registration of the same event
  and descriptor can succeed, whatever happens in between: the event being delivered, cancelled
  or deleted does not empty its context, and \<open>addEvent\<close> asserts that it is empty.
\<close>

lemma second_addEvent_aborts:
  assumes "epoll_spec ctl interest pollable" "io_inv interest io"
    and "addEvent ctl uc (\<lambda>_. 0) cur t a fd event f io w = Inr (b, io1, w1)"
    and "io_runs ctl uc io1 io2"
  shows "addEvent ctl uc (\<lambda>_. 0) cur' t' a' fd event f' io2 w2 = Inl AssertFail"
proof -
  have inv1: "io_inv interest io1"
    by (rule addEvent_inv [OF assms(1-3)])
  have ev: "event = READ \<or> event = WRITE"
    by (rule addEvent_used(3) [OF assms(2,3)])
  have "io_inv interest io2 \<and> slot_used io2 fd event"
    by (rule slot_used_runs [OF assms(1,4) inv1 addEvent_used(2) [OF assms(2,3)] ev])
  then show ?thesis
    using addEvent_aborts ev by blast
qed

lemma FdContext_scheduleEvent_ok:
  assumes "ev = READ \<or> ev = WRITE" "getContext ev (fc_heap io ! p) = Inr c"
    and "fc_events (fc_heap io ! p) AND ev \<noteq> 0" "ev_scheduler c = Some i" "ctx_task c = Some tk"
  shows "\<exists>n. FdContext_scheduleEvent 1 ev p io =
    Inr (upd_ctx p ((fc_heap io ! p)\<lparr>fc_events := fc_events (fc_heap io ! p) AND NOT ev\<rparr>) io
      \<lparr>io_scheds := (io_scheds io)(i := (io_scheds io i)\<lparr>m_tasks := m_tasks (io_scheds io i) @ [tk], m_tickle_bytes := n\<rparr>)\<rparr>)"
proof -
  show ?thesis
    using assms schedule_total [of tk "io_scheds io i"] by (auto simp: FdContext_scheduleEvent_def Let_def ctx_task_def split: option.splits)
qed

lemma fire_if_ok:
  assumes "ev = READ \<or> ev = WRITE"
    and "b \<Longrightarrow> \<exists>c. getContext ev (fc_heap io ! p) = Inr c \<and> fc_events (fc_heap io ! p) AND ev \<noteq> 0 \<and>
           ev_scheduler c = Some i \<and> ctx_task c = Some tk"
  shows "\<exists>io'. fire_if 1 b ev p io = Inr io' \<and>
    m_tasks (io_scheds io' i) = m_tasks (io_scheds io i) @ (if b then [tk] else [])"
proof (cases b)
  case True
  then obtain c where c: "getContext ev (fc_heap io ! p) = Inr c" "fc_events (fc_heap io ! p) AND ev \<noteq> 0"
    "ev_scheduler c = Some i" "ctx_task c = Some tk"
    using assms(2) by blast
  show ?thesis
    using True FdContext_scheduleEvent_ok [OF assms(1) c]
    by (auto simp: fire_if_def upd_pending_def Let_def)
qed (simp add: fire_if_def)

text \<open>Firing events of a context that are all registered, after the kernel has been told.\<close>

lemma fire_registered:
  assumes "io_inv interest io" "p < length (fc_heap io)" and fc_def: "fc = fc_heap io ! p"
    and tr: "tr \<in> event_sets" "tr AND fc_events fc = tr"
    and sched: "tr AND READ \<noteq> 0 \<longrightarrow> ev_scheduler (fc_read fc) = Some i"
      "tr AND WRITE \<noteq> 0 \<longrightarrow> ev_scheduler (fc_write fc) = Some i"
  shows "\<exists>io2 io3. fire_if 1 (tr AND READ \<noteq> 0) READ p (io\<lparr>io_kernel := k\<rparr>) = Inr io2 \<and>
           fire_if 1 (tr AND WRITE \<noteq> 0) WRITE p io2 = Inr io3 \<and>
           m_tasks (io_scheds io3 i) = m_tasks (io_scheds io i) @
             (if tr AND READ \<noteq> 0 then [the (ctx_task (fc_read fc))] else []) @
             (if tr AND WRITE \<noteq> 0 then [the (ctx_task (fc_write fc))] else []) \<and>
           fc_heap io3 = (fc_heap io)[p := fc\<lparr>fc_events := fc_events fc AND NOT tr\<rparr>] \<and>
           m_fd_contexts io3 = m_fd_contexts io \<and>
           (\<forall>fd ev. ev = READ \<or> ev = WRITE \<longrightarrow>
              registered io3 fd ev = (if fd = fc_fd fc \<and> tr AND ev \<noteq> 0 then None else registered io fd ev))"
proof -
  have ok: "ctx_ok fc"
    using io_inv_ctx(1) [OF assms(1,2)] by (simp add: fc_def)
  then have es: "fc_events fc \<in> event_sets"
    by (simp add: ctx_ok_def)
  have has: "fc_events fc AND ev \<noteq> 0" if "ev = READ \<or> ev = WRITE" "tr AND ev \<noteq> 0" for ev
    using that es tr by (auto simp: event_sets_def event_defs)
  let ?io1 = "io\<lparr>io_kernel := k\<rparr>"
  have task: "ctx_task (fc_read fc) = Some (the (ctx_task (fc_read fc)))" if "tr AND READ \<noteq> 0"
    using ok has [OF _ that] by (auto simp: ctx_ok_def)
  have taskw: "ctx_task (fc_write fc) = Some (the (ctx_task (fc_write fc)))" if "tr AND WRITE \<noteq> 0"
    using ok has [OF _ that] by (auto simp: ctx_ok_def)
  obtain io2 where io2: "fire_if 1 (tr AND READ \<noteq> 0) READ p ?io1 = Inr io2"
    "m_tasks (io_scheds io2 i) = m_tasks (io_scheds io i) @
       (if tr AND READ \<noteq> 0 then [the (ctx_task (fc_read fc))] else [])"
    using fire_if_ok [of READ "tr AND READ \<noteq> 0" ?io1 p i "the (ctx_task (fc_read fc))"] has task sched(1)
    by (auto simp: getContext_simps fc_def)
  have slot2: "getContext WRITE (fc_heap io2 ! p) = Inr (fc_write fc)"
    using fire_if_Inr(1) [OF io2(1)] assms(2) by (simp add: getContext_simps fc_def)
  have fc2: "fc_events (fc_heap io2 ! p) AND WRITE \<noteq> 0" if "tr AND WRITE \<noteq> 0"
    using fire_if_Inr(1) [OF io2(1)] assms(2) es has [OF _ that] by (auto simp: fc_def event_sets_def event_defs)
  obtain io3 where io3: "fire_if 1 (tr AND WRITE \<noteq> 0) WRITE p io2 = Inr io3"
    "m_tasks (io_scheds io3 i) = m_tasks (io_scheds io2 i) @
       (if tr AND WRITE \<noteq> 0 then [the (ctx_task (fc_write fc))] else [])"
    using fire_if_ok [of WRITE "tr AND WRITE \<noteq> 0" io2 p i "the (ctx_task (fc_write fc))"] slot2 fc2 taskw sched(2)
    by auto
  let ?left = "fc_events fc AND NOT tr"
  have heap: "fc_heap io3 = (fc_heap io)[p := fc\<lparr>fc_events := ?left\<rparr>]" "m_fd_contexts io3 = m_fd_contexts io"
    using fire_both(1,2) [of ?io1 p tr 1 io2 io3] es tr assms(2) io2(1) io3(1) by (simp_all add: fc_def)
  have bits: "?left AND ev = 0 \<longleftrightarrow> tr AND ev \<noteq> 0 \<or> fc_events fc AND ev = 0" if "ev = READ \<or> ev = WRITE" for ev
    using that es tr(1) by (auto simp: event_sets_def event_defs)
  have "ctx_of io (fc_fd fc) = Some p"
    using io_inv_ctx(2) [OF assms(1,2)] by (simp add: fc_def)
  then have "registered io3 fd ev = (if fd = fc_fd fc \<and> tr AND ev \<noteq> 0 then None else registered io fd ev)"
    if "ev = READ \<or> ev = WRITE" for fd ev
    using registered_update [OF assms(1,2) _ heap, of "fc_fd fc" fd ev] bits [OF that]
    by (auto simp: fc_def registered_def)
  then show ?thesis
    using io2 io3 heap by auto
qed

text \<open>What \<open>cancelEvent\<close> and \<open>cancelAll\<close> do with what is registered.\<close>

lemma cancelEvent_fires:
  assumes "epoll_spec ctl interest pollable" "io_inv interest io" "pollable fd"
    and ev: "event = READ \<or> event = WRITE" and "registered io fd event = Some (Some i, Some tk)"
  shows "\<exists>io'. cancelEvent ctl 1 fd event io = Inr (True, io') \<and> io_inv interest io' \<and>
           m_tasks (io_scheds io' i) = m_tasks (io_scheds io i) @ [tk] \<and> registered io' fd event = None \<and>
           m_fd_contexts io' = m_fd_contexts io"
proof -
  obtain p c where p: "ctx_of io fd = Some p" "fc_events (fc_heap io ! p) AND event \<noteq> 0"
    "getContext event (fc_heap io ! p) = Inr c" "ev_scheduler c = Some i" "ctx_task c = Some tk"
    using assms(5) by (auto simp: registered_def split: option.splits if_splits sum.splits)
  have ptr: "ctx_ptr fd io = Inr p" "\<not> table_short fd io"
    using p(1) by (auto simp: ctx_ptr_def ctx_of_def vec_at_def table_short_def split: if_splits)
  note q = ctx_ptr_Inr [OF assms(2) ptr(1)]
  let ?left = "fc_events (fc_heap io ! p) AND NOT event"
  have "interest (io_kernel io) fd \<noteq> None"
    using io_inv_ctx(3) [OF assms(2) q(1)] q(2) p(2) by auto
  then obtain k where k: "ctl (io_kernel io) (left_op ?left) fd (EPOLLET OR ?left) p = (0, k)"
    using epoll_MOD_DEL [OF assms(1,3), of "io_kernel io" "EPOLLET OR ?left" p]
    by (cases "?left = 0") (auto simp: left_op_def)
  let ?io1 = "upd_pending (\<lambda>n. n - 1) (io\<lparr>io_kernel := k\<rparr>)"
  obtain io2 where io2: "FdContext_scheduleEvent 1 event p ?io1 = Inr io2"
    "m_tasks (io_scheds io2 i) = m_tasks (io_scheds io i) @ [tk]"
    "fc_heap io2 = (fc_heap io)[p := (fc_heap io ! p)\<lparr>fc_events := ?left\<rparr>]" "m_fd_contexts io2 = m_fd_contexts io"
    using FdContext_scheduleEvent_ok [OF ev, of ?io1 p c i tk] p by (auto simp: upd_pending_def Let_def)
  have run: "cancelEvent ctl 1 fd event io = Inr (True, io2)"
    using ptr p(2) k io2(1) by (simp add: cancelEvent_def Let_def)
  have "fc_events (fc_heap io ! p) \<in> event_sets"
    using io_inv_ctx(1) [OF assms(2) q(1)] by (simp add: ctx_ok_def)
  then have "registered io2 fd event = None"
    using registered_update [OF assms(2) q io2(3,4), of fd event] events_bits(5) [OF _ ev ev] by simp
  then show ?thesis
    using run io2(2,4) cancelEvent_inv [OF assms(1,2) run] by blast
qed

lemma report_fires:
  assumes "epoll_spec ctl interest pollable" "io_inv interest io" "pollable fd"
    and ev: "event = READ \<or> event = WRITE" and "registered io fd event = Some (Some i, Some tk)"
    and ctx: "ctx_of io fd = Some p" and tr: "triggered evs (fc_heap io ! p) = event"
  shows "\<exists>io'. IOManager_scheduleEvent ctl 1 evs p io = Inr (True, io') \<and> io_inv interest io' \<and>
           m_tasks (io_scheds io' i) = m_tasks (io_scheds io i) @ [tk] \<and> registered io' fd event = None \<and>
           m_fd_contexts io' = m_fd_contexts io"
proof -
  let ?fc = "fc_heap io ! p"
  obtain c where c: "fc_events ?fc AND event \<noteq> 0" "getContext event ?fc = Inr c" "ev_scheduler c = Some i" "ctx_task c = Some tk"
    using assms(5) ctx by (auto simp: registered_def split: option.splits if_splits sum.splits)
  have ptr: "ctx_ptr fd io = Inr p"
    using ctx by (auto simp: ctx_ptr_def ctx_of_def vec_at_def split: if_splits)
  note q = ctx_ptr_Inr [OF assms(2) ptr]
  have es: "fc_events ?fc \<in> event_sets"
    using io_inv_ctx(1) [OF assms(2) q(1)] by (simp add: ctx_ok_def)
  then have sub: "event AND fc_events ?fc = event"
    using c(1) ev by (auto simp: event_sets_def event_defs)
  let ?left = "fc_events ?fc AND NOT event"
  have "interest (io_kernel io) fd \<noteq> None"
    using io_inv_ctx(3) [OF assms(2) q(1)] q(2) c(1) by auto
  then obtain k where k: "ctl (io_kernel io) (left_op ?left) fd (EPOLLET OR ?left) p = (0, k)"
    using epoll_MOD_DEL [OF assms(1,3), of "io_kernel io" "EPOLLET OR ?left" p]
    by (cases "?left = 0") (auto simp: left_op_def)
  have bits: "READ AND READ \<noteq> 0" "WRITE AND WRITE \<noteq> 0" "READ AND WRITE = 0" "WRITE AND READ = 0" "READ \<in> event_sets" "WRITE \<in> event_sets"
    by (simp_all add: event_sets_def event_defs)
  have "event AND READ \<noteq> 0 \<longrightarrow> ev_scheduler (fc_read ?fc) = Some i" "event AND WRITE \<noteq> 0 \<longrightarrow> ev_scheduler (fc_write ?fc) = Some i"
    using ev c(2,3) bits by (auto simp: getContext_simps)
  from fire_registered [OF assms(2) q(1) refl _ sub this, of k] obtain io2 io3
    where f: "fire_if 1 (event AND READ \<noteq> 0) READ p (io\<lparr>io_kernel := k\<rparr>) = Inr io2"
      "fire_if 1 (event AND WRITE \<noteq> 0) WRITE p io2 = Inr io3"
      and tasks: "m_tasks (io_scheds io3 i) = m_tasks (io_scheds io i) @
             (if event AND READ \<noteq> 0 then [the (ctx_task (fc_read ?fc))] else []) @
             (if event AND WRITE \<noteq> 0 then [the (ctx_task (fc_write ?fc))] else [])"
      and table: "m_fd_contexts io3 = m_fd_contexts io"
      and reg: "\<forall>fd' ev. ev = READ \<or> ev = WRITE \<longrightarrow>
         registered io3 fd' ev = (if fd' = fc_fd ?fc \<and> event AND ev \<noteq> 0 then None else registered io fd' ev)"
    using ev bits(5,6) by blast
  have run: "IOManager_scheduleEvent ctl 1 evs p io = Inr (True, io3)"
    using c(1) f k q(2) by (simp add: IOManager_scheduleEvent_def Let_def tr NONE_def)
  have "m_tasks (io_scheds io3 i) = m_tasks (io_scheds io i) @ [tk]"
    using ev tasks c(2,4) bits by (auto simp: getContext_simps)
  moreover have "registered io3 fd event = None"
    using reg ev bits q(2) by auto
  ultimately show ?thesis
    using run table scheduleEvent_inv [OF assms(1,2) q(1) run] by blast
qed

lemma cancelAll_fires:
  assumes "epoll_spec ctl interest pollable" "io_inv interest io" "pollable fd"
    and p: "ctx_of io fd = Some p" and fc_def: "fc = fc_heap io ! p" and "fc_events fc \<noteq> 0"
    and sched: "fc_events fc AND READ \<noteq> 0 \<longrightarrow> ev_scheduler (fc_read fc) = Some i"
      "fc_events fc AND WRITE \<noteq> 0 \<longrightarrow> ev_scheduler (fc_write fc) = Some i"
  shows "\<exists>io'. cancelAll ctl 1 fd io = Inr (True, io') \<and> io_inv interest io' \<and>
           m_tasks (io_scheds io' i) = m_tasks (io_scheds io i) @
             (if fc_events fc AND READ \<noteq> 0 then [the (ctx_task (fc_read fc))] else []) @
             (if fc_events fc AND WRITE \<noteq> 0 then [the (ctx_task (fc_write fc))] else []) \<and>
           (\<forall>fd' ev. ev = READ \<or> ev = WRITE \<longrightarrow>
              registered io' fd' ev = (if fd' = fd then None else registered io fd' ev))"
proof -
  have ptr: "ctx_ptr fd io = Inr p" "\<not> table_short fd io"
    using p by (auto simp: ctx_ptr_def ctx_of_def vec_at_def table_short_def split: if_splits)
  note q = ctx_ptr_Inr [OF assms(2) ptr(1)]
  have es: "fc_events fc \<in> event_sets"
    using io_inv_ctx(1) [OF assms(2) q(1)] by (simp add: ctx_ok_def fc_def)
  have "interest (io_kernel io) fd \<noteq> None"
    using io_inv_ctx(3) [OF assms(2) q(1)] q(2) assms(6) by (auto simp: fc_def)
  then obtain k where k: "ctl (io_kernel io) EPOLL_CTL_DEL fd 0 p = (0, k)"
    using epoll_MOD_DEL(2) [OF assms(1,3), of "io_kernel io" 0 p] by auto
  from fire_registered [OF assms(2) q(1) fc_def es _ sched, of k] obtain io2 io3
    where f: "fire_if 1 (fc_events fc AND READ \<noteq> 0) READ p (io\<lparr>io_kernel := k\<rparr>) = Inr io2"
      "fire_if 1 (fc_events fc AND WRITE \<noteq> 0) WRITE p io2 = Inr io3"
      and eff: "m_tasks (io_scheds io3 i) = m_tasks (io_scheds io i) @
             (if fc_events fc AND READ \<noteq> 0 then [the (ctx_task (fc_read fc))] else []) @
             (if fc_events fc AND WRITE \<noteq> 0 then [the (ctx_task (fc_write fc))] else [])"
      "fc_heap io3 = (fc_heap io)[p := fc\<lparr>fc_events := fc_events fc AND NOT (fc_events fc)\<rparr>]"
      "\<forall>fd' ev. ev = READ \<or> ev = WRITE \<longrightarrow>
         registered io3 fd' ev = (if fd' = fc_fd fc \<and> fc_events fc AND ev \<noteq> 0 then None else registered io fd' ev)"
    by auto
  have "fc_events (fc_heap io2 ! p) AND WRITE \<noteq> 0 \<longleftrightarrow> fc_events fc AND WRITE \<noteq> 0"
    using fire_if_Inr(1) [OF f(1)] q(1) es by (auto simp: fc_def event_sets_def event_defs)
  then have run: "cancelAll ctl 1 fd io = Inr (True, io3)"
    using ptr assms(6) k f eff(2) q(1) by (simp add: cancelAll_def Let_def fc_def)
  have "registered io fd' ev = None" if "fd' = fd" "fc_events fc AND ev = 0" for fd' ev
    using that p by (simp add: registered_def fc_def)
  then have "registered io3 fd' ev = (if fd' = fd then None else registered io fd' ev)"
    if "ev = READ \<or> ev = WRITE" for fd' ev
    using eff(3) that q(2) by (auto simp: fc_def)
  then show ?thesis
    using run cancelAll_inv [OF assms(1,2) run] eff(1) by blast
qed

lemma scheduleEvent_effect:
  assumes "epoll_spec ctl interest pollable" "io_inv interest io" "p < length (fc_heap io)"
    and fc_def: "fc = fc_heap io ! p" and tr_def: "tr = triggered evs fc"
    and "pollable (fc_fd fc)" "tr \<noteq> 0" "tr AND fc_events fc = tr"
    and "tr AND READ \<noteq> 0 \<longrightarrow> ev_scheduler (fc_read fc) = Some i"
    and "tr AND WRITE \<noteq> 0 \<longrightarrow> ev_scheduler (fc_write fc) = Some i"
  shows "\<exists>io'. IOManager_scheduleEvent ctl 1 evs p io = Inr (True, io') \<and> io_inv interest io' \<and>
           m_tasks (io_scheds io' i) = m_tasks (io_scheds io i) @
             (if tr AND READ \<noteq> 0 then [the (ctx_task (fc_read fc))] else []) @
             (if tr AND WRITE \<noteq> 0 then [the (ctx_task (fc_write fc))] else []) \<and>
           (\<forall>fd ev. ev = READ \<or> ev = WRITE \<longrightarrow>
              registered io' fd ev = (if fd = fc_fd fc \<and> tr AND ev \<noteq> 0 then None else registered io fd ev)) \<and>
           fc_heap io' = (fc_heap io)[p := fc\<lparr>fc_events := fc_events fc AND NOT tr\<rparr>] \<and> io_self io' = io_self io"
proof -
  have tr: "tr \<in> event_sets"
    unfolding tr_def by (rule triggered_events)
  let ?left = "fc_events fc AND NOT tr"
  have some: "fc_events fc AND tr \<noteq> 0" "fc_events fc \<noteq> 0"
    using assms(7,8) by (auto simp: and.commute)
  have "interest (io_kernel io) (fc_fd fc) \<noteq> None"
    using io_inv_ctx(3) [OF assms(2,3)] some(2) by (simp add: fc_def)
  then obtain k where k: "ctl (io_kernel io) (left_op ?left) (fc_fd fc) (EPOLLET OR ?left) p = (0, k)"
    using epoll_MOD_DEL [OF assms(1,6), of "io_kernel io" "EPOLLET OR ?left" p]
    by (cases "?left = 0") (auto simp: left_op_def)
  from fire_registered [OF assms(2-4) tr assms(8-10), of k] obtain io2 io3
    where f: "fire_if 1 (tr AND READ \<noteq> 0) READ p (io\<lparr>io_kernel := k\<rparr>) = Inr io2"
      "fire_if 1 (tr AND WRITE \<noteq> 0) WRITE p io2 = Inr io3"
      and eff: "m_tasks (io_scheds io3 i) = m_tasks (io_scheds io i) @
             (if tr AND READ \<noteq> 0 then [the (ctx_task (fc_read fc))] else []) @
             (if tr AND WRITE \<noteq> 0 then [the (ctx_task (fc_write fc))] else [])"
      "\<forall>fd ev. ev = READ \<or> ev = WRITE \<longrightarrow>
         registered io3 fd ev = (if fd = fc_fd fc \<and> tr AND ev \<noteq> 0 then None else registered io fd ev)"
      "fc_heap io3 = (fc_heap io)[p := fc\<lparr>fc_events := fc_events fc AND NOT tr\<rparr>]"
    by blast
  have self: "io_self io3 = io_self io"
    using fire_if_Inr(3) [OF f(1)] fire_if_Inr(3) [OF f(2)] by simp
  have run: "IOManager_scheduleEvent ctl 1 evs p io = Inr (True, io3)"
    using some(1) f by (simp add: IOManager_scheduleEvent_def Let_def fc_def [symmetric] tr_def [symmetric] k NONE_def)
  then show ?thesis
    using scheduleEvent_inv [OF assms(1-3) run] eff self by blast
qed

text \<open>
  C10. Handling a report of \<open>epoll_wait\<close>. If the events reported (all registered ones, for an error
  or hang-up) are registered, then exactly they are taken out of the context, the read task and
  then the write task are appended to the scheduler that registered them, and the pending count
  goes down by their number. Nothing else that is registered changes.
\<close>

theorem scheduleEvent_correct:
  assumes "epoll_spec ctl interest pollable" "io_inv interest io" "p < length (fc_heap io)"
    and fc_def: "fc = fc_heap io ! p" and tr_def: "tr = triggered evs fc"
    and "pollable (fc_fd fc)" "tr \<noteq> 0" "tr AND fc_events fc = tr"
    and "tr AND READ \<noteq> 0 \<longrightarrow> ev_scheduler (fc_read fc) = Some i"
    and "tr AND WRITE \<noteq> 0 \<longrightarrow> ev_scheduler (fc_write fc) = Some i"
  shows "\<exists>io'. IOManager_scheduleEvent ctl 1 evs p io = Inr (True, io') \<and> io_inv interest io' \<and>
           m_tasks (io_scheds io' i) = m_tasks (io_scheds io i) @
             (if tr AND READ \<noteq> 0 then [the (ctx_task (fc_read fc))] else []) @
             (if tr AND WRITE \<noteq> 0 then [the (ctx_task (fc_write fc))] else []) \<and>
           (\<forall>fd ev. ev = READ \<or> ev = WRITE \<longrightarrow>
              registered io' fd ev = (if fd = fc_fd fc \<and> tr AND ev \<noteq> 0 then None else registered io fd ev))"
  using scheduleEvent_effect [OF assms] by blast

theorem scheduleEvent_correct_witness:
  "\<exists>io. IOManager_scheduleEvent ex_ctl 1 EPOLLIN 3 ex_io_read = Inr (True, io) \<and>
        m_tasks (io_scheds io 0) = [ex_task] \<and> registered io 3 READ = None"
proof -
  have "triggered EPOLLIN ex_ctx = READ"
    by (simp add: triggered_def ex_ctx_def event_defs)
  moreover have "READ AND WRITE = 0" "READ AND READ = READ"
    by (simp_all add: event_defs)
  moreover have "the (ctx_task (fc_read ex_ctx)) = ex_task" "fc_events ex_ctx = READ" "fc_fd ex_ctx = 3"
    "ev_scheduler (fc_read ex_ctx) = Some 0"
    by (simp_all add: ctx_task_def ex_ctx_def ex_task_def)
  ultimately show ?thesis
    using scheduleEvent_correct [OF ex_epoll ex_io_read_inv, of 3 ex_ctx READ EPOLLIN 0] ex_io_read_ctx
    by auto
qed

text \<open>
  A report of which only a part is still registered never returns: when another thread takes
  one of two reported events out between \<open>epoll_wait\<close> and the handling, the assertion in
  \<open>FdContext::scheduleEvent\<close> fails.
\<close>

lemma stale_report_aborts:
  assumes "epoll_spec ctl interest pollable" "io_inv interest io" "p < length (fc_heap io)"
    and fc_def: "fc = fc_heap io ! p" and tr_def: "tr = triggered evs fc"
    and "pollable (fc_fd fc)" "tr AND fc_events fc \<noteq> 0" "tr AND fc_events fc \<noteq> tr"
  shows "\<exists>e. IOManager_scheduleEvent ctl wr evs p io = Inl e"
proof (rule ccontr)
  assume "\<nexists>e. IOManager_scheduleEvent ctl wr evs p io = Inl e"
  then obtain b io' where run: "IOManager_scheduleEvent ctl wr evs p io = Inr (b, io')"
    by (cases "IOManager_scheduleEvent ctl wr evs p io") auto
  have es: "fc_events fc \<in> event_sets"
    using io_inv_ctx(1) [OF assms(2,3)] by (simp add: ctx_ok_def fc_def)
  have tr: "tr \<in> event_sets"
    unfolding tr_def by (rule triggered_events)
  let ?left = "fc_events fc AND NOT tr"
  have "fc_events fc \<noteq> 0"
    using assms(7) by auto
  then have "interest (io_kernel io) (fc_fd fc) \<noteq> None"
    using io_inv_ctx(3) [OF assms(2,3)] by (simp add: fc_def)
  then obtain k where k: "ctl (io_kernel io) (left_op ?left) (fc_fd fc) (EPOLLET OR ?left) p = (0, k)"
    using epoll_MOD_DEL [OF assms(1,6), of "io_kernel io" "EPOLLET OR ?left" p]
    by (cases "?left = 0") (auto simp: left_op_def)
  obtain io2 where io2: "fire_if wr (tr AND READ \<noteq> 0) READ p (io\<lparr>io_kernel := k\<rparr>) = Inr io2"
    and io3: "fire_if wr (tr AND WRITE \<noteq> 0) WRITE p io2 = Inr io'"
    using run assms(7) k
    by (auto simp: IOManager_scheduleEvent_def Let_def fc_def [symmetric] tr_def [symmetric] NONE_def
        and.commute split: if_splits)
  have "fc_events fc AND READ \<noteq> 0" if "tr AND READ \<noteq> 0"
    using fire_if_Inr(6) [OF io2] that by (simp add: fc_def)
  moreover have "fc_events fc AND WRITE \<noteq> 0" if "tr AND WRITE \<noteq> 0"
    using fire_if_Inr(6) [OF io3 that] fire_if_Inr(1) [OF io2] assms(3) es
    by (auto simp: fc_def event_sets_def event_defs split: if_splits)
  ultimately show False
    using es tr assms(8) by (auto simp: event_sets_def event_defs)
qed

section \<open>Resizing without looking again\<close>

lemma resizeContexts_shrinks:
  assumes "table_ok io" "sz \<le> length (m_fd_contexts io)"
  shows "resizeContexts garb sz io = io\<lparr>m_fd_contexts := take sz (m_fd_contexts io)\<rparr>"
proof -
  have "vec_resize sz None (m_fd_contexts io) = take sz (m_fd_contexts io)"
    using assms(2) by (simp add: vec_resize_def)
  moreover have "resize_loop garb [0..<sz] (fc_heap io) (take sz (m_fd_contexts io)) =
      (fc_heap io, take sz (m_fd_contexts io))"
    using table_ok_full [OF assms(1)] assms(2) by (intro resize_loop_skip) auto
  ultimately show ?thesis
    by (simp add: resizeContexts_def)
qed

lemma addEvent_lookup_shrinks:
  assumes "table_ok io" "2 \<le> fd" "grown_size fd \<le> length (m_fd_contexts io)"
  shows "\<exists>p. addEvent_lookup garb fd True io =
    Inr (p, io\<lparr>m_fd_contexts := take (grown_size fd) (m_fd_contexts io)\<rparr>)"
proof -
  have fd: "nat fd < grown_size fd" "fd < int (grown_size fd)" "fd < int (length (m_fd_contexts io))"
    using grown_size_gt [of fd] assms by (auto simp: table_ok_def)
  then obtain p where "m_fd_contexts io ! nat fd = Some p"
    using table_ok_full [OF assms(1), of "nat fd"] assms(2,3) by auto
  then show ?thesis
    using fd assms(2,3) resizeContexts_shrinks [OF assms(1,3)]
    by (auto simp: addEvent_lookup_def ctx_ptr_def vec_at_def)
qed

text \<open>
  \<open>addEvent\<close> decides to resize under the read lock and does not look again under the write lock.
  When two threads find the table too short, and the one with the greater descriptor registers
  its event first, the other one then shrinks the table: the registered event stays in the
  kernel's list but its descriptor is out of the table, and \<open>delEvent\<close>, \<open>cancelEvent\<close> and \<open>cancelAll\<close>
  answer false for it.
\<close>

lemma resize_race_loses_descriptor:
  assumes "epoll_spec ctl interest pollable" "io_inv interest io"
    and "table_short fd1 io" "table_short fd2 io" "int (grown_size fd2) \<le> fd1"
    and "addEvent ctl uc (\<lambda>_. 0) cur t a fd1 event f io w = Inr (b, io1, w1)"
    and "addEvent_lookup (\<lambda>_. 0) fd2 True io1 = Inr (p, io2)"
  shows "interest (io_kernel io2) fd1 \<noteq> None \<and>
         delEvent ctl fd1 event io2 = Inr (False, io2) \<and>
         cancelEvent ctl wr fd1 event io2 = Inr (False, io2) \<and>
         cancelAll ctl wr fd1 io2 = Inr (False, io2)"
proof -
  have inv1: "io_inv interest io1"
    by (rule addEvent_inv [OF assms(1,2,6)])
  then have tab1: "table_ok io1"
    by (simp add: io_inv_def)
  obtain q io0 where lk: "addEvent_lookup (\<lambda>_. 0) fd1 (table_short fd1 io) io = Inr (q, io0)"
    and r: "addEvent_register ctl uc cur t a fd1 event f q io0 w = Inr (io1, w1)"
    using assms(6) by (auto simp: addEvent_def)
  note l = addEvent_lookup_inv [OF assms(2) lk]
  obtain k c where ev: "event = READ \<or> event = WRITE"
    and io1: "io1 = upd_ctx q (putContext event c ((fc_heap io0 ! q)\<lparr>fc_events := fc_events (fc_heap io0 ! q) OR event\<rparr>))
       (upd_pending (\<lambda>n. n + 1) (io0\<lparr>io_kernel := k\<rparr>))"
    by (rule addEvent_register_Inr [OF r])
  have q: "q < length (fc_heap io1)" "fc_fd (fc_heap io1 ! q) = fd1"
    using l(2,3) by (simp_all add: io1 putContext_def)
  have "fc_events (fc_heap io0 ! q) \<in> event_sets"
    using io_inv_ctx(1) [OF l(1,2)] by (simp add: ctx_ok_def)
  then have "fc_events (fc_heap io0 ! q) OR event \<noteq> 0"
    by (rule events_bits(3) [OF _ ev])
  then have "fc_events (fc_heap io1 ! q) \<noteq> 0"
    using l(2) by (auto simp: io1 putContext_def)
  then have kern: "interest (io_kernel io1) fd1 \<noteq> None"
    using io_inv_ctx(3) [OF inv1 q(1)] q(2) by simp
  have "ctx_of io1 fd1 = Some q"
    using io_inv_ctx(2) [OF inv1 q(1)] q(2) by simp
  then have "fd1 < int (length (m_fd_contexts io1))"
    by (simp add: ctx_of_def split: if_splits)
  then have io2: "io2 = io1\<lparr>m_fd_contexts := take (grown_size fd2) (m_fd_contexts io1)\<rparr>"
    using assms(5,7) resizeContexts_shrinks [OF tab1, of "grown_size fd2"]
    by (auto simp: addEvent_lookup_def Let_def)
  then have "table_short fd1 io2"
    using assms(5) by (simp add: table_short_def)
  then show ?thesis
    using kern by (simp add: delEvent_def cancelEvent_def cancelAll_def io2)
qed

text \<open>
  The member \<open>events\<close> of a new context is not initialised. Where the memory happens to hold the
  bit of an event, the first \<open>addEvent\<close> of that event already fails its assertion.
\<close>

lemma uninitialised_events_abort:
  assumes "IOManager_ctor garb tids self scheds k = Inr io"
    and "0 \<le> fd" "fd < int DEFAULT_FD_CONTEXTS_SIZE" "garb (nat fd) AND event \<noteq> 0"
  shows "addEvent ctl uc garb cur t a fd event f io w = Inl AssertFail"
proof -
  obtain s where io: "io = \<lparr>io_scheds = scheds(self := s), io_self = self,
      fc_heap = map (\<lambda>j. FdContext_new (garb j) j) [0..<32], m_fd_contexts = map Some [0..<32], io_kernel = k\<rparr>"
    using assms(1) by (auto simp: IOManager_ctor_def resize_empty DEFAULT_FD_CONTEXTS_SIZE_def)
  have fd: "nat fd < 32"
    using assms(2,3) by (simp add: DEFAULT_FD_CONTEXTS_SIZE_def nat_less_iff)
  have "addEvent_lookup garb fd (table_short fd io) io = Inr (nat fd, io)"
    using assms(2,3) fd
    by (simp add: addEvent_lookup_def table_short_def ctx_ptr_def vec_at_def io DEFAULT_FD_CONTEXTS_SIZE_def)
  moreover have "addEvent_register ctl uc cur t a fd event f (nat fd) io w = Inl AssertFail"
    using assms(4) fd by (simp add: addEvent_register_def Let_def io FdContext_new_def)
  ultimately show ?thesis
    by (simp add: addEvent_def)
qed

section \<open>Waking exactly once\<close>

text \<open>
  What waits can be woken from several sides. The contract: the first to come queues the task, those
  that come later find nothing to do. It follows that any sequence of them queues it once.
\<close>

primrec run_wakers :: "('o \<Rightarrow> 's \<Rightarrow> 's result) \<Rightarrow> 'o list \<Rightarrow> 's \<Rightarrow> 's result" where
  "run_wakers wake [] s = Inr s"
| "run_wakers wake (w # ws) s = res_bind (wake w s) (run_wakers wake ws)"

locale wake_once =
  fixes inv :: "'s \<Rightarrow> bool"
    and waiting :: "'s \<Rightarrow> (sid \<times> Task) option"
    and queue :: "'s \<Rightarrow> sid \<Rightarrow> Task list"
    and wake :: "'o \<Rightarrow> 's \<Rightarrow> 's result"
  assumes wake_first: "inv s \<Longrightarrow> waiting s = Some (i, tk) \<Longrightarrow>
      \<exists>s'. wake w s = Inr s' \<and> inv s' \<and> waiting s' = None \<and> queue s' i = queue s i @ [tk]"
    and wake_later: "inv s \<Longrightarrow> waiting s = None \<Longrightarrow>
      \<exists>s'. wake w s = Inr s' \<and> inv s' \<and> waiting s' = None \<and> queue s' = queue s"
begin

lemma later:
  assumes "inv s" "waiting s = None"
  shows "\<exists>s'. run_wakers wake ws s = Inr s' \<and> inv s' \<and> waiting s' = None \<and> queue s' = queue s"
  using assms
proof (induction ws arbitrary: s)
  case (Cons w ws)
  obtain s1 where "wake w s = Inr s1" "inv s1" "waiting s1 = None" "queue s1 = queue s"
    using wake_later [OF Cons.prems] by blast
  then show ?case
    using Cons.IH [of s1] by simp
qed simp

lemma once:
  assumes "inv s" "waiting s = Some (i, tk)" "ws \<noteq> []"
  shows "\<exists>s'. run_wakers wake ws s = Inr s' \<and> inv s' \<and> waiting s' = None \<and> queue s' i = queue s i @ [tk]"
proof -
  obtain w us where ws: "ws = w # us"
    using assms(3) by (cases ws) auto
  obtain s1 where s1: "wake w s = Inr s1" "inv s1" "waiting s1 = None" "queue s1 i = queue s i @ [tk]"
    using wake_first [OF assms(1,2)] by blast
  show ?thesis
    using later [OF s1(2,3), of us] s1(1,4) by (auto simp: ws)
qed

end

text \<open>The two sides for an event of a descriptor: \<open>cancelEvent\<close>, and a report of \<open>epoll\<close> of just this event.\<close>

datatype waker = By_cancel | By_report

definition io_wake :: "'k epoll_ctl \<Rightarrow> c_int \<Rightarrow> Event \<Rightarrow> waker \<Rightarrow> 'k IOManager \<Rightarrow> 'k IOManager result" where
  "io_wake ctl fd event w io =
     (case w of
        By_cancel \<Rightarrow> res_bind (cancelEvent ctl 1 fd event io) (\<lambda>(_, io'). Inr io')
      | By_report \<Rightarrow>
          (case ctx_of io fd of
             None \<Rightarrow> Inr io
           | Some p \<Rightarrow> res_bind (IOManager_scheduleEvent ctl 1 event p io) (\<lambda>(_, io'). Inr io')))"

definition io_waiting :: "c_int \<Rightarrow> Event \<Rightarrow> 'k IOManager \<Rightarrow> (sid \<times> Task) option" where
  "io_waiting fd event io =
     (case registered io fd event of Some (Some i, Some tk) \<Rightarrow> Some (i, tk) | _ \<Rightarrow> None)"

definition wake_inv ::
  "'k epoll_ctl \<Rightarrow> ('k \<Rightarrow> c_int \<Rightarrow> (u32 \<times> nat) option) \<Rightarrow> (c_int \<Rightarrow> bool) \<Rightarrow> c_int \<Rightarrow> Event \<Rightarrow> 'k IOManager \<Rightarrow> bool" where
  "wake_inv ctl interest pollable fd event io \<longleftrightarrow>
     epoll_spec ctl interest pollable \<and> io_inv interest io \<and> pollable fd \<and> (event = READ \<or> event = WRITE) \<and>
     ctx_of io fd \<noteq> None \<and> (registered io fd event = None \<or> io_waiting fd event io \<noteq> None)"

lemma io_waiting_Some: "io_waiting fd event io = Some (i, tk) \<longleftrightarrow> registered io fd event = Some (Some i, Some tk)"
  by (auto simp: io_waiting_def split: option.splits prod.splits)

lemma io_wake_idle:
  assumes "wake_inv ctl interest pollable fd event io" "io_waiting fd event io = None"
  shows "io_wake ctl fd event w io = Inr io"
proof -
  have none: "registered io fd event = None"
    using assms by (auto simp: wake_inv_def)
  obtain p where p: "ctx_of io fd = Some p"
    using assms(1) by (auto simp: wake_inv_def)
  have ptr: "ctx_ptr fd io = Inr p" "\<not> table_short fd io"
    using p by (auto simp: ctx_ptr_def ctx_of_def vec_at_def table_short_def split: if_splits)
  have ev: "event = READ \<or> event = WRITE"
    using assms(1) by (simp add: wake_inv_def)
  then have "fc_events (fc_heap io ! p) AND event = 0"
    using none p by (auto simp: registered_def getContext_simps split: if_splits)
  moreover have "triggered event (fc_heap io ! p) = event"
    using ev by (auto simp: triggered_def event_defs)
  ultimately show ?thesis
    using ptr p by (cases w) (simp_all add: io_wake_def cancelEvent_def IOManager_scheduleEvent_def NONE_def)
qed

lemma io_wake_fires:
  assumes "wake_inv ctl interest pollable fd event io" "io_waiting fd event io = Some (i, tk)"
  shows "\<exists>io'. io_wake ctl fd event w io = Inr io' \<and> wake_inv ctl interest pollable fd event io' \<and>
           io_waiting fd event io' = None \<and> m_tasks (io_scheds io' i) = m_tasks (io_scheds io i) @ [tk]"
proof -
  note inv = assms(1) [unfolded wake_inv_def]
  have spec: "epoll_spec ctl interest pollable" "io_inv interest io" "pollable fd" "event = READ \<or> event = WRITE"
    "registered io fd event = Some (Some i, Some tk)"
    using inv assms(2) by (simp_all add: io_waiting_Some)
  obtain p where p: "ctx_of io fd = Some p"
    using inv by auto
  have tr: "triggered event (fc_heap io ! p) = event"
    using spec(4) by (auto simp: triggered_def event_defs)
  obtain io' where io': "io_wake ctl fd event w io = Inr io'" "io_inv interest io'" "registered io' fd event = None"
    "m_tasks (io_scheds io' i) = m_tasks (io_scheds io i) @ [tk]" "m_fd_contexts io' = m_fd_contexts io"
    using cancelEvent_fires [OF spec] report_fires [OF spec p tr] p by (cases w) (auto simp: io_wake_def)
  moreover have "ctx_of io' fd = Some p"
    using p unfolding ctx_of_def io'(5) .
  ultimately show ?thesis
    using spec(1,3,4) by (simp add: wake_inv_def io_waiting_def)
qed

interpretation iow: wake_once "wake_inv ctl interest pollable fd event" "io_waiting fd event" "\<lambda>io i. m_tasks (io_scheds io i)"
  "io_wake ctl fd event" for ctl interest pollable fd event
proof
  fix io :: "'a IOManager" and i tk w
  assume inv: "wake_inv ctl interest pollable fd event io"
  show "\<exists>io'. io_wake ctl fd event w io = Inr io' \<and> wake_inv ctl interest pollable fd event io' \<and>
      io_waiting fd event io' = None \<and> m_tasks (io_scheds io' i) = m_tasks (io_scheds io i) @ [tk]"
    if "io_waiting fd event io = Some (i, tk)"
    using inv that by (rule io_wake_fires)
  show "\<exists>io'. io_wake ctl fd event w io = Inr io' \<and> wake_inv ctl interest pollable fd event io' \<and>
      io_waiting fd event io' = None \<and> (\<lambda>i. m_tasks (io_scheds io' i)) = (\<lambda>i. m_tasks (io_scheds io i))"
    if "io_waiting fd event io = None"
    using io_wake_idle [OF inv that] inv that by blast
qed

end
