(* ===== verification/EVA_FdManager.thy ===== *)
theory EVA_FdManager
  imports EVA_Prelude
begin

text \<open>
  \<open>src/src/fd_manager.h\<close> and \<open>src/src/fd_manager.cpp\<close>. A \<open>FdCtx\<close> is an object shared through
  \<open>shared_ptr\<close>s, so contexts live in a heap and \<open>m_datas\<close> holds addresses. \<open>fstat\<close> and the original
  \<open>fcntl\<close> are parameters acting on the system's state.
\<close>

section \<open>The system below\<close>

type_synonym flags = u32

definition O_NONBLOCK :: flags where
  "O_NONBLOCK = 0x800"

lemma nonblock_bit:
  "(fl OR O_NONBLOCK) AND O_NONBLOCK = O_NONBLOCK" "(fl AND NOT O_NONBLOCK) AND O_NONBLOCK = 0"
  "O_NONBLOCK \<noteq> 0"
  by (simp_all add: O_NONBLOCK_def and.commute [of _ "0x800"] bit.conj_disj_distrib and.left_commute)

lemma nonblock_cases: "x AND O_NONBLOCK = 0 \<or> x AND O_NONBLOCK = O_NONBLOCK"
proof -
  have eq: "O_NONBLOCK = 2 ^ 11"
    by (simp add: O_NONBLOCK_def)
  have bits: "bit O_NONBLOCK n \<longleftrightarrow> n = 11" for n
    unfolding eq bit_exp_iff by auto
  have "x AND O_NONBLOCK = (if bit x 11 then O_NONBLOCK else 0)"
    by (rule bit_word_eqI) (auto simp: bits bit_and_iff)
  then show ?thesis
    by simp
qed

record 'k os_ops =
  fstat_sock :: "'k \<Rightarrow> c_int \<Rightarrow> bool option"  \<comment> \<open>\<open>None\<close>: -1; otherwise \<open>S_ISSOCK\<close>\<close>
  fcntl_getfl :: "'k \<Rightarrow> c_int \<Rightarrow> flags"
  fcntl_setfl :: "'k \<Rightarrow> c_int \<Rightarrow> flags \<Rightarrow> 'k \<times> c_int"

text \<open>
  What the manual says of \<open>F_SETFL\<close> and \<open>F_GETFL\<close> on an open socket. A descriptor shares its flags
  with its duplicates.
\<close>

definition os_spec :: "'k os_ops \<Rightarrow> bool" where
  "os_spec os \<longleftrightarrow>
     (\<forall>k fd v. fstat_sock os k fd = Some True \<longrightarrow>
        snd (fcntl_setfl os k fd v) = 0 \<and>
        fcntl_getfl os (fst (fcntl_setfl os k fd v)) fd AND O_NONBLOCK = v AND O_NONBLOCK) \<and>
     (\<forall>k fd fd' v. fcntl_getfl os (fst (fcntl_setfl os k fd v)) fd' \<in>
        {fcntl_getfl os k fd', fcntl_getfl os (fst (fcntl_setfl os k fd v)) fd}) \<and>
     (\<forall>k fd fd' v. fstat_sock os (fst (fcntl_setfl os k fd v)) fd' = fstat_sock os k fd')"

section \<open>FdCtx\<close>

record FdCtx =
  m_isInit :: bool
  m_isSocket :: bool
  m_sysNonblock :: bool
  m_userNonblock :: bool
  m_isClosed :: bool
  m_fd :: c_int
  m_recvTimeout :: u64
  m_sendTimeout :: u64

definition setUserNonblock :: "bool \<Rightarrow> FdCtx \<Rightarrow> FdCtx" where
  [simp]: "setUserNonblock v c = c\<lparr>m_userNonblock := v\<rparr>"

definition setSysNonblock :: "bool \<Rightarrow> FdCtx \<Rightarrow> FdCtx" where
  "setSysNonblock v c = c\<lparr>m_sysNonblock := v\<rparr>"

definition FdCtx_init :: "'k os_ops \<Rightarrow> FdCtx \<Rightarrow> 'k \<Rightarrow> bool \<times> FdCtx \<times> 'k" where
  "FdCtx_init os c k =
     (if m_isInit c then (True, c, k)
      else
        let c1 = c\<lparr>m_recvTimeout := -1, m_sendTimeout := -1\<rparr>;
            c2 = (case fstat_sock os k (m_fd c) of
                    None \<Rightarrow> c1\<lparr>m_isInit := False, m_isSocket := False\<rparr>
                  | Some sock \<Rightarrow> c1\<lparr>m_isInit := True, m_isSocket := sock\<rparr>);
            k' = (if m_isSocket c2
                  then let fl = fcntl_getfl os k (m_fd c) in
                       if fl AND O_NONBLOCK = 0 then fst (fcntl_setfl os k (m_fd c) (fl OR O_NONBLOCK)) else k
                  else k);
            c3 = c2\<lparr>m_sysNonblock := m_isSocket c2, m_userNonblock := False, m_isClosed := False\<rparr>
        in (m_isInit c3, c3, k'))"

definition FdCtx_ctor :: "'k os_ops \<Rightarrow> c_int \<Rightarrow> 'k \<Rightarrow> FdCtx \<times> 'k" where
  "FdCtx_ctor os fd k =
     snd (FdCtx_init os
            \<lparr>m_isInit = False, m_isSocket = False, m_sysNonblock = False, m_userNonblock = False,
             m_isClosed = False, m_fd = fd, m_recvTimeout = -1, m_sendTimeout = -1\<rparr> k)"

definition SO_RCVTIMEO :: c_int where
  "SO_RCVTIMEO = 20"

definition SO_SNDTIMEO :: c_int where
  "SO_SNDTIMEO = 21"

definition setTimeout :: "c_int \<Rightarrow> u64 \<Rightarrow> FdCtx \<Rightarrow> FdCtx" where
  "setTimeout type v c =
     (if type = SO_RCVTIMEO then c\<lparr>m_recvTimeout := v\<rparr> else c\<lparr>m_sendTimeout := v\<rparr>)"

definition getTimeout :: "c_int \<Rightarrow> FdCtx \<Rightarrow> u64" where
  "getTimeout type c = (if type = SO_RCVTIMEO then m_recvTimeout c else m_sendTimeout c)"

section \<open>FdManager\<close>

record 'k FdManager =
  ctx_heap :: "FdCtx list"  \<comment> \<open>every context ever made; the address is the index\<close>
  m_datas :: "nat option list"
  fd_os :: 'k

definition FdManager_ctor :: "'k \<Rightarrow> 'k FdManager" where
  "FdManager_ctor k = \<lparr>ctx_heap = [], m_datas = vec_resize 64 None [], fd_os = k\<rparr>"

text \<open>
  \<open>get\<close> has a section under the read lock and one under the write lock. The first answers
  \<open>Some\<close> the value returned there, or \<open>None\<close> where the second is entered.
\<close>

definition get_lookup :: "c_int \<Rightarrow> bool \<Rightarrow> 'k FdManager \<Rightarrow> nat option option result" where
  "get_lookup fd auto_create m =
     (if int (length (m_datas m)) \<le> fd
      then Inr (if \<not> auto_create then Some None else None)
      else res_bind (vec_at (m_datas m) fd) (\<lambda>p.
             Inr (if p \<noteq> None \<or> \<not> auto_create then Some p else None)))"

definition get_create :: "'k os_ops \<Rightarrow> c_int \<Rightarrow> 'k FdManager \<Rightarrow> (nat option \<times> 'k FdManager) result" where
  "get_create os fd m =
     (case FdCtx_ctor os fd (fd_os m) of
        (c, k) \<Rightarrow>
          let p = length (ctx_heap m);
              ds = (if fd \<ge> int (length (m_datas m)) then vec_resize (grown_size fd) None (m_datas m)
                    else m_datas m)
          in res_bind (vec_set ds fd (Some p)) (\<lambda>ds'.
               Inr (Some p, m\<lparr>ctx_heap := ctx_heap m @ [c], m_datas := ds', fd_os := k\<rparr>)))"

definition FdManager_get ::
  "'k os_ops \<Rightarrow> c_int \<Rightarrow> bool \<Rightarrow> 'k FdManager \<Rightarrow> (nat option \<times> 'k FdManager) result" where
  "FdManager_get os fd auto_create m =
     (if fd = -1 then Inr (None, m)
      else res_bind (get_lookup fd auto_create m) (\<lambda>r.
             case r of Some p \<Rightarrow> Inr (p, m) | None \<Rightarrow> get_create os fd m))"

definition FdManager_del :: "c_int \<Rightarrow> 'k FdManager \<Rightarrow> 'k FdManager result" where
  "FdManager_del fd m =
     (if int (length (m_datas m)) \<le> fd then Inr m
      else res_bind (vec_set (m_datas m) fd None) (\<lambda>ds. Inr (m\<lparr>m_datas := ds\<rparr>)))"

section \<open>The table as a map from descriptors to contexts\<close>

definition fd_wf :: "'k FdManager \<Rightarrow> bool" where
  "fd_wf m \<longleftrightarrow>
     2 \<le> length (m_datas m) \<and>
     (\<forall>i p. i < length (m_datas m) \<and> m_datas m ! i = Some p \<longrightarrow>
        p < length (ctx_heap m) \<and> m_fd (ctx_heap m ! p) = int i)"

definition fd_lookup :: "'k FdManager \<Rightarrow> c_int \<Rightarrow> nat option" where
  "fd_lookup m fd = (if 0 \<le> fd \<and> fd < int (length (m_datas m)) then m_datas m ! nat fd else None)"

definition fd_ctx :: "'k FdManager \<Rightarrow> c_int \<Rightarrow> FdCtx option" where
  "fd_ctx m fd = map_option (\<lambda>p. ctx_heap m ! p) (fd_lookup m fd)"

lemma fd_lookup_wf:
  assumes "fd_wf m" "fd_lookup m fd = Some p"
  shows "p < length (ctx_heap m) \<and> m_fd (ctx_heap m ! p) = fd"
proof -
  have fd: "0 \<le> fd" "nat fd < length (m_datas m)" "m_datas m ! nat fd = Some p"
    using assms(2) by (auto simp: fd_lookup_def nat_less_iff split: if_splits)
  then show ?thesis
    using assms(1) unfolding fd_wf_def by (metis int_nat_eq)
qed

lemma FdCtx_ctor_fd [simp]: "m_fd (fst (FdCtx_ctor os fd k)) = fd"
  by (simp add: FdCtx_ctor_def FdCtx_init_def Let_def split: option.splits)

lemma FdCtx_ctor_fresh:
  "m_recvTimeout (fst (FdCtx_ctor os fd k)) = -1" "m_sendTimeout (fst (FdCtx_ctor os fd k)) = -1"
  "\<not> m_userNonblock (fst (FdCtx_ctor os fd k))" "\<not> m_isClosed (fst (FdCtx_ctor os fd k))"
  "m_isSocket (fst (FdCtx_ctor os fd k)) \<longleftrightarrow> fstat_sock os k fd = Some True"
  "m_sysNonblock (fst (FdCtx_ctor os fd k)) \<longleftrightarrow> fstat_sock os k fd = Some True"
  "m_isInit (fst (FdCtx_ctor os fd k)) \<longleftrightarrow> fstat_sock os k fd \<noteq> None"
  by (auto simp: FdCtx_ctor_def FdCtx_init_def Let_def split: option.splits)

lemma get_create_eq:
  assumes "0 \<le> fd" "2 \<le> length (m_datas m)"
  obtains ds where "get_create os fd m =
      Inr (Some (length (ctx_heap m)),
           m\<lparr>ctx_heap := ctx_heap m @ [fst (FdCtx_ctor os fd (fd_os m))], m_datas := ds,
             fd_os := snd (FdCtx_ctor os fd (fd_os m))\<rparr>)"
    and "length (m_datas m) \<le> length ds" "nat fd < length ds"
    and "\<And>i. i < length ds \<Longrightarrow> ds ! i =
           (if i = nat fd then Some (length (ctx_heap m))
            else if i < length (m_datas m) then m_datas m ! i else None)"
proof -
  define ds where "ds = (if fd \<ge> int (length (m_datas m)) then vec_resize (grown_size fd) None (m_datas m)
                         else m_datas m)"
  have len: "fd < int (length ds)" "length (m_datas m) \<le> length ds"
    using assms grown_size_gt [of fd] by (auto simp: ds_def)
  have "get_create os fd m =
      Inr (Some (length (ctx_heap m)),
           m\<lparr>ctx_heap := ctx_heap m @ [fst (FdCtx_ctor os fd (fd_os m))],
             m_datas := ds[nat fd := Some (length (ctx_heap m))],
             fd_os := snd (FdCtx_ctor os fd (fd_os m))\<rparr>)"
    using assms(1) len by (simp add: get_create_def Let_def vec_set_def ds_def [symmetric] split: prod.splits)
  then show ?thesis
  proof (rule that)
    fix i assume "i < length (ds[nat fd := Some (length (ctx_heap m))])"
    then show "ds[nat fd := Some (length (ctx_heap m))] ! i =
           (if i = nat fd then Some (length (ctx_heap m))
            else if i < length (m_datas m) then m_datas m ! i else None)"
      by (auto simp: ds_def nth_vec_resize nth_list_update split: if_splits)
  qed (use assms(1) len in auto)
qed

lemma get_present:
  "fd_lookup m fd = Some p \<Longrightarrow> FdManager_get os fd b m = Inr (Some p, m)"
  by (auto simp: fd_lookup_def FdManager_get_def get_lookup_def vec_at_def split: if_splits)

lemma get_absent:
  assumes "fd_lookup m fd = None" "0 \<le> fd"
  shows "FdManager_get os fd False m = Inr (None, m)" "FdManager_get os fd True m = get_create os fd m"
  using assms
  by (auto simp: fd_lookup_def FdManager_get_def get_lookup_def vec_at_def split: if_splits option.splits)

lemma get_create_state:
  assumes "fd_wf m" "0 \<le> fd"
  obtains m' where "get_create os fd m = Inr (Some (length (ctx_heap m)), m')" "fd_wf m'"
    and "fd_lookup m' = (fd_lookup m)(fd := Some (length (ctx_heap m)))"
    and "ctx_heap m' = ctx_heap m @ [fst (FdCtx_ctor os fd (fd_os m))]"
    and "fd_os m' = snd (FdCtx_ctor os fd (fd_os m))"
proof -
  obtain ds where ds: "get_create os fd m =
      Inr (Some (length (ctx_heap m)),
           m\<lparr>ctx_heap := ctx_heap m @ [fst (FdCtx_ctor os fd (fd_os m))], m_datas := ds,
             fd_os := snd (FdCtx_ctor os fd (fd_os m))\<rparr>)"
    "length (m_datas m) \<le> length ds" "nat fd < length ds"
    "\<And>i. i < length ds \<Longrightarrow> ds ! i =
       (if i = nat fd then Some (length (ctx_heap m))
        else if i < length (m_datas m) then m_datas m ! i else None)"
    using get_create_eq assms unfolding fd_wf_def by metis
  let ?m' = "m\<lparr>ctx_heap := ctx_heap m @ [fst (FdCtx_ctor os fd (fd_os m))], m_datas := ds,
             fd_os := snd (FdCtx_ctor os fd (fd_os m))\<rparr>"
  have wf: "p < length (ctx_heap ?m') \<and> m_fd (ctx_heap ?m' ! p) = int i"
    if "i < length ds" "ds ! i = Some p" for i p
    using that assms ds(4) [OF that(1)] by (auto simp: fd_wf_def nth_append split: if_splits)
  have "fd_lookup ?m' fd' = ((fd_lookup m)(fd := Some (length (ctx_heap m)))) fd'" for fd'
    using assms(2) ds(2,3) ds(4) [of "nat fd'"] by (auto simp: fd_lookup_def nat_eq_iff)
  then have "fd_lookup ?m' = (fd_lookup m)(fd := Some (length (ctx_heap m)))"
    by blast
  then show ?thesis
    using ds(1,2) wf assms(1) by (intro that [of ?m']) (auto simp: fd_wf_def)
qed

lemma del_state:
  assumes "fd_wf m" "0 \<le> fd"
  obtains m' where "FdManager_del fd m = Inr m'" "fd_wf m'" "fd_lookup m' = (fd_lookup m)(fd := None)"
    and "ctx_heap m' = ctx_heap m" "fd_os m' = fd_os m"
proof (cases "int (length (m_datas m)) \<le> fd")
  case True
  moreover have "fd_lookup m = (fd_lookup m)(fd := None)"
    using True by (auto simp: fd_lookup_def)
  ultimately show ?thesis
    using assms(1) that [of m] by (simp add: FdManager_del_def)
next
  case False
  let ?m' = "m\<lparr>m_datas := (m_datas m)[nat fd := None]\<rparr>"
  have "fd_lookup ?m' fd' = ((fd_lookup m)(fd := None)) fd'" for fd'
    using assms(2) False by (auto simp: fd_lookup_def nth_list_update nat_eq_iff)
  then have "fd_lookup ?m' = (fd_lookup m)(fd := None)"
    by blast
  moreover have "fd_wf ?m'"
    using assms False by (auto simp: fd_wf_def nth_list_update nat_less_iff split: if_splits)
  moreover have "FdManager_del fd m = Inr ?m'"
    using False assms(2) by (simp add: FdManager_del_def vec_set_def)
  ultimately show ?thesis
    using that [of ?m'] by simp
qed

section \<open>The interface the hooked calls rely on\<close>

text \<open>
  A table of contexts: \<open>get\<close> with creation makes an entry where there is none and otherwise
  answers the one there is, and \<open>del\<close> takes it out; nothing happens to the other descriptors.
\<close>

locale fd_table =
  fixes wf :: "'m \<Rightarrow> bool"
    and lookup :: "'m \<Rightarrow> c_int \<Rightarrow> 'p option"
    and get :: "c_int \<Rightarrow> bool \<Rightarrow> 'm \<Rightarrow> ('p option \<times> 'm) result"
    and del :: "c_int \<Rightarrow> 'm \<Rightarrow> 'm result"
  assumes get_there: "lookup m fd = Some p \<Longrightarrow> get fd b m = Inr (Some p, m)"
    and get_not_there: "lookup m fd = None \<Longrightarrow> 0 \<le> fd \<Longrightarrow> get fd False m = Inr (None, m)"
    and get_makes: "wf m \<Longrightarrow> lookup m fd = None \<Longrightarrow> 0 \<le> fd \<Longrightarrow>
      \<exists>p m'. get fd True m = Inr (Some p, m') \<and> wf m' \<and> lookup m' = (lookup m)(fd := Some p) \<and>
             p \<notin> ran (lookup m)"
    and del_removes: "wf m \<Longrightarrow> 0 \<le> fd \<Longrightarrow>
      \<exists>m'. del fd m = Inr m' \<and> wf m' \<and> lookup m' = (lookup m)(fd := None)"
begin

lemma get_total:
  assumes "wf m" "0 \<le> fd"
  shows "\<exists>p m'. get fd True m = Inr (Some p, m') \<and> wf m' \<and> lookup m' = (lookup m)(fd := Some p) \<and>
                (\<forall>b. get fd b m' = Inr (Some p, m'))"
proof (cases "lookup m fd")
  case None
  then show ?thesis
    using get_makes [OF assms(1) None assms(2)] get_there by fastforce
next
  case (Some p)
  then show ?thesis
    using get_there [OF Some] assms(1) by (auto simp: fun_upd_idem)
qed

lemma get_false:
  "0 \<le> fd \<Longrightarrow> get fd False m = Inr (lookup m fd, m)"
  using get_there get_not_there by (cases "lookup m fd") auto

lemma del_get:
  assumes "wf m" "0 \<le> fd"
  shows "\<exists>m'. del fd m = Inr m' \<and> wf m' \<and> lookup m' fd = None \<and> get fd False m' = Inr (None, m')"
  using del_removes [OF assms(1,2)] get_false [OF assms(2)] by auto

end

interpretation fdt: fd_table fd_wf fd_lookup "FdManager_get os" FdManager_del for os
proof
  fix m :: "'a FdManager" and fd p b
  show "FdManager_get os fd b m = Inr (Some p, m)" if "fd_lookup m fd = Some p"
    using that by (rule get_present)
  show "FdManager_get os fd False m = Inr (None, m)" if "fd_lookup m fd = None" "0 \<le> fd"
    using that by (rule get_absent(1))
  show "\<exists>p m'. FdManager_get os fd True m = Inr (Some p, m') \<and> fd_wf m' \<and>
      fd_lookup m' = (fd_lookup m)(fd := Some p) \<and> p \<notin> ran (fd_lookup m)"
    if hyps: "fd_wf m" "fd_lookup m fd = None" "0 \<le> fd"
  proof -
    obtain m' where m': "get_create os fd m = Inr (Some (length (ctx_heap m)), m')" "fd_wf m'"
      "fd_lookup m' = (fd_lookup m)(fd := Some (length (ctx_heap m)))"
      using get_create_state [OF hyps(1,3)] by metis
    have "length (ctx_heap m) \<notin> ran (fd_lookup m)"
    proof
      assume "length (ctx_heap m) \<in> ran (fd_lookup m)"
      then obtain fd' where "fd_lookup m fd' = Some (length (ctx_heap m))"
        by (auto simp: ran_def)
      then show False
        using fd_lookup_wf [OF hyps(1)] by blast
    qed
    then show ?thesis
      using get_absent(2) [OF hyps(2,3)] m' by auto
  qed
  show "\<exists>m'. FdManager_del fd m = Inr m' \<and> fd_wf m' \<and> fd_lookup m' = (fd_lookup m)(fd := None)"
    if "fd_wf m" "0 \<le> fd"
    using del_state [OF that] by metis
qed

section \<open>Properties of the table\<close>


text \<open>
  A system of its own for the witnesses: every descriptor is open, the odd ones are sockets, and
  the flags are a function.
\<close>

definition ex_os :: "(c_int \<Rightarrow> flags) os_ops" where
  "ex_os =
     \<lparr>fstat_sock = (\<lambda>k fd. Some (odd fd)), fcntl_getfl = (\<lambda>k fd. k fd),
      fcntl_setfl = (\<lambda>k fd v. (k(fd := v), 0))\<rparr>"

definition ex_fdm :: "(c_int \<Rightarrow> flags) FdManager" where
  "ex_fdm = FdManager_ctor (\<lambda>_. 2)"

lemma ex_os_spec: "os_spec ex_os"
  by (simp add: os_spec_def ex_os_def)

lemma FdManager_ctor_wf: "fd_wf (FdManager_ctor k)"
  by (auto simp: fd_wf_def FdManager_ctor_def nth_vec_resize)

lemma FdManager_ctor_lookup: "fd_lookup (FdManager_ctor k) fd = None"
  by (auto simp: fd_lookup_def FdManager_ctor_def nth_vec_resize nat_less_iff)

lemma ex_fdm_wf: "fd_wf ex_fdm" "fd_lookup ex_fdm fd = None"
  unfolding ex_fdm_def by (rule FdManager_ctor_wf, rule FdManager_ctor_lookup)


text \<open>
  The first \<open>get\<close> of a socket makes it non-blocking in the system and records that; its
  timeouts are unlimited and the user has not asked for non-blocking mode. Other descriptors keep
  their flags unless they are duplicates of it, and a descriptor that is not a socket is left as it is.
\<close>

theorem new_socket_nonblocking:
  assumes "os_spec os" "fd_wf m" "0 \<le> fd" "fd_lookup m fd = None"
    and "FdManager_get os fd True m = Inr (Some p, m')"
  shows "\<exists>c. fd_ctx m' fd = Some c \<and> \<not> m_userNonblock c \<and> \<not> m_isClosed c \<and>
             getTimeout SO_RCVTIMEO c = -1 \<and> getTimeout SO_SNDTIMEO c = -1 \<and>
             (\<forall>fd'. fcntl_getfl os (fd_os m') fd' \<in> {fcntl_getfl os (fd_os m) fd', fcntl_getfl os (fd_os m') fd}) \<and>
             (if fstat_sock os (fd_os m) fd = Some True
              then m_isSocket c \<and> m_sysNonblock c \<and> fcntl_getfl os (fd_os m') fd AND O_NONBLOCK \<noteq> 0
              else \<not> m_isSocket c \<and> \<not> m_sysNonblock c \<and> fd_os m' = fd_os m)"
proof -
  let ?k = "fd_os m"
  let ?c = "fst (FdCtx_ctor os fd ?k)"
  obtain m1 where m1: "get_create os fd m = Inr (Some (length (ctx_heap m)), m1)"
    "fd_lookup m1 = (fd_lookup m)(fd := Some (length (ctx_heap m)))"
    "ctx_heap m1 = ctx_heap m @ [?c]" "fd_os m1 = snd (FdCtx_ctor os fd ?k)"
    using get_create_state [OF assms(2,3)] by metis
  then have m': "m' = m1"
    using assms(5) get_absent(2) [OF assms(4,3)] by simp
  have ctx: "fd_ctx m' fd = Some ?c"
    using m1 by (simp add: m' fd_ctx_def)
  have os': "fd_os m' = (if fstat_sock os ?k fd = Some True \<and> fcntl_getfl os ?k fd AND O_NONBLOCK = 0
      then fst (fcntl_setfl os ?k fd (fcntl_getfl os ?k fd OR O_NONBLOCK)) else ?k)"
    using m1(4) by (auto simp: m' FdCtx_ctor_def FdCtx_init_def Let_def split: option.splits)
  have "fcntl_getfl os (fd_os m') fd AND O_NONBLOCK \<noteq> 0" if "fstat_sock os ?k fd = Some True"
    using assms(1) that nonblock_bit by (auto simp: os' os_spec_def)
  moreover have "fcntl_getfl os (fd_os m') fd' \<in> {fcntl_getfl os ?k fd', fcntl_getfl os (fd_os m') fd}" for fd'
    using assms(1) by (auto simp: os' os_spec_def)
  moreover have "fd_os m' = ?k" if "fstat_sock os ?k fd \<noteq> Some True"
    using that by (simp add: os')
  ultimately show ?thesis
    using ctx FdCtx_ctor_fresh [of os fd ?k] by (auto simp: getTimeout_def)
qed

theorem new_socket_nonblocking_witness:
  "\<exists>p m' c. FdManager_get ex_os 5 True ex_fdm = Inr (Some p, m') \<and> fd_ctx m' 5 = Some c \<and>
            m_sysNonblock c \<and> fcntl_getfl ex_os (fd_os m') 5 AND O_NONBLOCK \<noteq> 0"
proof -
  obtain p m' where g: "FdManager_get ex_os 5 True ex_fdm = Inr (Some p, m')"
    using fdt.get_total [OF ex_fdm_wf(1), of 5 ex_os] by auto
  have "fstat_sock ex_os (fd_os ex_fdm) 5 = Some True"
    by (simp add: ex_os_def)
  then show ?thesis
    using new_socket_nonblocking [OF ex_os_spec ex_fdm_wf(1) _ ex_fdm_wf(2) g] g by auto
qed

text \<open>
  \<open>get\<close> looks under the read lock and creates under the write lock without looking again. When
  two threads ask for a descriptor without an entry, both lookups before both creations, they end
  up with two different contexts, and the table keeps only the second.
\<close>

lemma get_race_two_contexts:
  assumes "fd_wf m" "0 \<le> fd" "fd_lookup m fd = None"
  shows "\<exists>p1 m1 p2 m2. get_lookup fd True m = Inr None \<and>
           get_create os fd m = Inr (Some p1, m1) \<and> get_create os fd m1 = Inr (Some p2, m2) \<and>
           p1 \<noteq> p2 \<and> fd_lookup m2 fd = Some p2"
proof -
  have "get_lookup fd True m = Inr None"
    using assms(2,3) by (auto simp: get_lookup_def fd_lookup_def vec_at_def split: if_splits)
  moreover obtain m1 where m1: "get_create os fd m = Inr (Some (length (ctx_heap m)), m1)" "fd_wf m1"
    "ctx_heap m1 = ctx_heap m @ [fst (FdCtx_ctor os fd (fd_os m))]"
    using get_create_state [OF assms(1,2)] by metis
  moreover obtain m2 where "get_create os fd m1 = Inr (Some (length (ctx_heap m1)), m2)"
    "fd_lookup m2 = (fd_lookup m1)(fd := Some (length (ctx_heap m1)))"
    using get_create_state [OF m1(2) assms(2)] by metis
  ultimately show ?thesis
    by auto
qed

text \<open>
  A negative descriptor passes the comparison with the table's size: \<open>get\<close> guards against -1
  only, \<open>del\<close> against none, and both then index the vector out of its range.
\<close>

lemma negative_fd_out_of_bounds:
  assumes "fd < 0"
  shows "FdManager_get os fd b m = (if fd = -1 then Inr (None, m) else Inl OutOfBounds) \<and>
         FdManager_del fd m = Inl OutOfBounds"
  using assms by (simp add: FdManager_get_def get_lookup_def FdManager_del_def vec_at_def vec_set_def)

end
