(* ===== verification/EVA_HookCtl.thy ===== *)
theory EVA_HookCtl
  imports EVA_FdManager "HOL-Library.Signed_Division"
begin

text \<open>
  The control calls of \<open>src/src/hook.cpp\<close>: \<open>socket\<close>, \<open>fcntl\<close>, \<open>ioctl\<close>, \<open>getsockopt\<close> and
  \<open>setsockopt\<close>, and the flag that turns the hooks on. They keep two views of a socket apart: the
  system's, which the library makes non-blocking, and the one the user asked for. The original
  functions found by \<open>dlsym\<close> are parameters acting on the system's state.
\<close>

section \<open>The original calls\<close>

datatype fcntl_cmd =
    F_DUPFD | F_DUPFD_CLOEXEC | F_SETFD | F_SETOWN | F_SETSIG | F_SETLEASE | F_NOTIFY | F_SETPIPE_SZ
  | F_GETFD | F_GETOWN | F_GETSIG | F_GETLEASE | F_GETPIPE_SZ
  | F_SETLK | F_SETLKW | F_GETLK | F_GETOWN_EX | F_SETOWN_EX
  | F_SETFL | F_GETFL
  | F_unknown c_int

record timeval =
  tv_sec :: int
  tv_usec :: int

datatype sockval = Opt_timeval timeval | Opt_other nat

record 'k sys_ops =
  base_ops :: "'k os_ops"  \<comment> \<open>\<open>fstat\<close>, and \<open>fcntl_f\<close> with \<open>F_GETFL\<close> and \<open>F_SETFL\<close>\<close>
  fcntl_f :: "'k \<Rightarrow> c_int \<Rightarrow> fcntl_cmd \<Rightarrow> u64 option \<Rightarrow> 'k \<times> u32"  \<comment> \<open>the other commands\<close>
  ioctl_f :: "'k \<Rightarrow> c_int \<Rightarrow> u64 \<Rightarrow> c_int \<Rightarrow> 'k \<times> c_int"  \<comment> \<open>with the \<open>int\<close> that the argument points to\<close>
  socket_f :: "'k \<Rightarrow> c_int \<Rightarrow> c_int \<Rightarrow> c_int \<Rightarrow> 'k \<times> c_int"
  getsockopt_f :: "'k \<Rightarrow> c_int \<Rightarrow> c_int \<Rightarrow> c_int \<Rightarrow> c_int \<times> c_int"  \<comment> \<open>the result, and the \<open>int\<close> stored\<close>
  setsockopt_f :: "'k \<Rightarrow> c_int \<Rightarrow> c_int \<Rightarrow> c_int \<Rightarrow> sockval \<Rightarrow> 'k \<times> c_int"
  close_f :: "'k \<Rightarrow> c_int \<Rightarrow> 'k \<times> c_int"

definition FIONBIO :: u64 where
  "FIONBIO = 0x5421"

definition SOL_SOCKET :: c_int where
  "SOL_SOCKET = 1"

definition SO_ERROR :: c_int where
  "SO_ERROR = 4"

section \<open>The flag of a thread\<close>

type_synonym hook_flags = "int \<Rightarrow> bool"

definition is_hooked :: "hook_flags \<Rightarrow> int \<Rightarrow> bool" where
  "is_hooked t_hooked t = t_hooked t"

definition set_hook :: "int \<Rightarrow> bool \<Rightarrow> hook_flags \<Rightarrow> hook_flags" where
  "set_hook t flag t_hooked = t_hooked(t := flag)"

section \<open>The calls\<close>

abbreviation upd_fdctx :: "nat \<Rightarrow> (FdCtx \<Rightarrow> FdCtx) \<Rightarrow> 'k FdManager \<Rightarrow> 'k FdManager" where
  "upd_fdctx p f m \<equiv> m\<lparr>ctx_heap := (ctx_heap m)[p := f (ctx_heap m ! p)]\<rparr>"

definition socket_call ::
  "'k sys_ops \<Rightarrow> bool \<Rightarrow> c_int \<Rightarrow> c_int \<Rightarrow> c_int \<Rightarrow> 'k FdManager \<Rightarrow> (c_int \<times> 'k FdManager) result" where
  "socket_call so hooked domain type protocol m =
     (case socket_f so (fd_os m) domain type protocol of
        (k, fd) \<Rightarrow>
          let m1 = m\<lparr>fd_os := k\<rparr> in
          if \<not> hooked \<or> fd = -1 then Inr (fd, m1)
          else res_bind (FdManager_get (base_ops so) fd True m1) (\<lambda>(_, m2). Inr (fd, m2)))"

text \<open>
  The context of a descriptor where \<open>fcntl\<close> and \<open>ioctl\<close> use it: \<open>None\<close> where there is none, or it is
  closed or not of a socket.
\<close>

definition socket_ctx :: "'k sys_ops \<Rightarrow> c_int \<Rightarrow> 'k FdManager \<Rightarrow> nat option result" where
  "socket_ctx so fd m =
     res_bind (FdManager_get (base_ops so) fd False m) (\<lambda>(ctx, _).
       Inr (case ctx of
              None \<Rightarrow> None
            | Some p \<Rightarrow>
                if m_isClosed (ctx_heap m ! p) \<or> \<not> m_isSocket (ctx_heap m ! p) then None else Some p))"

definition fcntl_SETFL ::
  "'k sys_ops \<Rightarrow> c_int \<Rightarrow> flags \<Rightarrow> 'k FdManager \<Rightarrow> (u32 \<times> 'k FdManager) result" where
  "fcntl_SETFL so fd arg m =
     res_bind (socket_ctx so fd m) (\<lambda>ctx.
       case ctx of
         None \<Rightarrow>
           (case fcntl_setfl (base_ops so) (fd_os m) fd arg of (k, rc) \<Rightarrow> Inr (word_of_int rc, m\<lparr>fd_os := k\<rparr>))
       | Some p \<Rightarrow>
           let m1 = upd_fdctx p (setUserNonblock (arg AND O_NONBLOCK \<noteq> 0)) m;
               arg1 = (if m_sysNonblock (ctx_heap m1 ! p) then arg OR O_NONBLOCK else arg AND NOT O_NONBLOCK)
           in case fcntl_setfl (base_ops so) (fd_os m1) fd arg1 of
                (k, rc) \<Rightarrow> Inr (word_of_int rc, m1\<lparr>fd_os := k\<rparr>))"

definition fcntl_GETFL :: "'k sys_ops \<Rightarrow> c_int \<Rightarrow> 'k FdManager \<Rightarrow> (u32 \<times> 'k FdManager) result" where
  "fcntl_GETFL so fd m =
     (let arg = fcntl_getfl (base_ops so) (fd_os m) fd in
      res_bind (socket_ctx so fd m) (\<lambda>ctx.
        Inr (case ctx of
               None \<Rightarrow> arg
             | Some p \<Rightarrow>
                 if m_userNonblock (ctx_heap m ! p) then arg OR O_NONBLOCK else arg AND NOT O_NONBLOCK,
             m)))"

text \<open>
  The optional argument is a slot of eight bytes, of which \<open>va_arg(va, int)\<close> reads the low half and
  \<open>va_arg(va, T*)\<close> the whole; the commands without an argument hand none on.
\<close>

definition fcntl_passes :: "fcntl_cmd \<Rightarrow> u64 \<Rightarrow> u64 option" where
  "fcntl_passes cmd slot =
     (if cmd \<in> {F_DUPFD, F_DUPFD_CLOEXEC, F_SETFD, F_SETOWN, F_SETSIG, F_SETLEASE, F_NOTIFY, F_SETPIPE_SZ}
      then Some (ucast (ucast slot :: u32))
      else if cmd \<in> {F_SETLK, F_SETLKW, F_GETLK, F_GETOWN_EX, F_SETOWN_EX} then Some slot
      else None)"

definition fcntl ::
  "'k sys_ops \<Rightarrow> c_int \<Rightarrow> fcntl_cmd \<Rightarrow> u64 \<Rightarrow> 'k FdManager \<Rightarrow> (u32 \<times> 'k FdManager) result" where
  "fcntl so fd cmd slot m =
     (if cmd = F_SETFL then fcntl_SETFL so fd (ucast slot) m
      else if cmd = F_GETFL then fcntl_GETFL so fd m
      else (case fcntl_f so (fd_os m) fd cmd (fcntl_passes cmd slot) of (k, rc) \<Rightarrow> Inr (rc, m\<lparr>fd_os := k\<rparr>)))"

definition ioctl ::
  "'k sys_ops \<Rightarrow> c_int \<Rightarrow> u64 \<Rightarrow> c_int \<Rightarrow> 'k FdManager \<Rightarrow> (c_int \<times> 'k FdManager) result" where
  "ioctl so d request arg m =
     res_bind
       (if request = FIONBIO
        then res_bind (socket_ctx so d m) (\<lambda>ctx.
               Inr (case ctx of
                      None \<Rightarrow> m
                    | Some p \<Rightarrow> upd_fdctx p (setUserNonblock (arg \<noteq> 0)) m))
        else Inr m)
       (\<lambda>m1. case ioctl_f so (fd_os m1) d request arg of (k, rc) \<Rightarrow> Inr (rc, m1\<lparr>fd_os := k\<rparr>))"

definition getsockopt :: "'k sys_ops \<Rightarrow> c_int \<Rightarrow> c_int \<Rightarrow> c_int \<Rightarrow> 'k FdManager \<Rightarrow> c_int \<times> c_int" where
  "getsockopt so sockfd level optname m = getsockopt_f so (fd_os m) sockfd level optname"

text \<open>The product and the sum are of type \<open>long\<close> and converted to \<open>uint64_t\<close>.\<close>

definition timeval_ms :: "timeval \<Rightarrow> u64" where
  "timeval_ms v = word_of_int (tv_sec v * 1000 + tv_usec v sdiv 1000)"

definition setsockopt ::
  "'k sys_ops \<Rightarrow> bool \<Rightarrow> c_int \<Rightarrow> c_int \<Rightarrow> c_int \<Rightarrow> sockval \<Rightarrow> 'k FdManager \<Rightarrow> (c_int \<times> 'k FdManager) result" where
  "setsockopt so hooked sockfd level optname optval m =
     res_bind
       (if hooked \<and> level = SOL_SOCKET \<and> (optname = SO_RCVTIMEO \<or> optname = SO_SNDTIMEO)
        then res_bind (FdManager_get (base_ops so) sockfd False m) (\<lambda>(ctx, m1).
               Inr (case (ctx, optval) of
                      (Some p, Opt_timeval v) \<Rightarrow> upd_fdctx p (setTimeout optname (timeval_ms v)) m1
                    | _ \<Rightarrow> m1))
        else Inr m)
       (\<lambda>m1. case setsockopt_f so (fd_os m1) sockfd level optname optval of
               (k, rc) \<Rightarrow> Inr (rc, m1\<lparr>fd_os := k\<rparr>))"

section \<open>Two views of a socket\<close>

lemma uint_of_int_u64: "0 \<le> x \<Longrightarrow> x < 2 ^ 64 \<Longrightarrow> uint (word_of_int x :: u64) = x"
  by (subst uint_word_of_int) simp

lemma uint_minus_1_u64: "uint (- 1 :: u64) = 2 ^ 64 - 1"
  by (simp add: unsigned_minus_1_eq_mask mask_eq_exp_minus_1)

lemma sdiv_nonneg: "0 \<le> a \<Longrightarrow> a sdiv (numeral n) = a div numeral n" for a :: int
  by (cases "a = 0") (simp_all add: signed_divide_int_def sgn_if)

text \<open>A descriptor with the context of an open socket that the library made non-blocking.\<close>

definition hooked_socket :: "'k sys_ops \<Rightarrow> c_int \<Rightarrow> 'k FdManager \<Rightarrow> bool" where
  "hooked_socket so fd m \<longleftrightarrow>
     (\<exists>c. fd_ctx m fd = Some c \<and> m_isSocket c \<and> m_sysNonblock c \<and> \<not> m_isClosed c) \<and>
     fstat_sock (base_ops so) (fd_os m) fd = Some True"

lemma hooked_socketE:
  assumes "fd_wf m" "hooked_socket so fd m"
  obtains p where "fd_lookup m fd = Some p" "p < length (ctx_heap m)" "socket_ctx so fd m = Inr (Some p)"
    and "fd_ctx m fd = Some (ctx_heap m ! p)" "m_sysNonblock (ctx_heap m ! p)"
proof -
  obtain p where p: "fd_lookup m fd = Some p" "m_isSocket (ctx_heap m ! p)" "m_sysNonblock (ctx_heap m ! p)"
    "\<not> m_isClosed (ctx_heap m ! p)"
    using assms(2) by (auto simp: hooked_socket_def fd_ctx_def)
  then have "socket_ctx so fd m = Inr (Some p)"
    using fdt.get_there [OF p(1)] by (simp add: socket_ctx_def)
  then show ?thesis
    using p fd_lookup_wf [OF assms(1) p(1)] by (intro that [of p]) (simp_all add: fd_ctx_def)
qed

lemma upd_fdctx_lookup [simp]: "fd_lookup (upd_fdctx p f m) = fd_lookup m"
  by (simp add: fd_lookup_def fun_eq_iff)

lemma fd_lookup_os [simp]: "fd_lookup (m\<lparr>fd_os := k\<rparr>) = fd_lookup m"
  by (simp add: fd_lookup_def fun_eq_iff)

lemma fd_lookup_inj:
  assumes "fd_wf m" "fd_lookup m fd = Some p" "fd_lookup m fd' = Some p"
  shows "fd' = fd"
  using fd_lookup_wf [OF assms(1)] assms(2,3) by metis

text \<open>Updating one context is seen under its own descriptor only.\<close>

lemma fd_ctx_upd:
  assumes "fd_wf m" "fd_lookup m fd = Some p"
  shows "fd_ctx (upd_fdctx p f m\<lparr>fd_os := k\<rparr>) = (fd_ctx m)(fd := map_option f (fd_ctx m fd))"
proof
  fix fd'
  have p: "p < length (ctx_heap m)"
    using fd_lookup_wf [OF assms] by simp
  show "fd_ctx (upd_fdctx p f m\<lparr>fd_os := k\<rparr>) fd' = ((fd_ctx m)(fd := map_option f (fd_ctx m fd))) fd'"
  proof (cases "fd' = fd")
    case True
    then show ?thesis
      using p assms(2) by (simp add: fd_ctx_def)
  next
    case False
    then have "fd_lookup m fd' \<noteq> Some p"
      using fd_lookup_inj [OF assms] by blast
    then show ?thesis
      using False by (cases "fd_lookup m fd'") (simp_all add: fd_ctx_def)
  qed
qed

definition ioctl_spec :: "'k sys_ops \<Rightarrow> bool" where
  "ioctl_spec so \<longleftrightarrow>
     (\<forall>k d v. fstat_sock (base_ops so) k d = Some True \<longrightarrow>
        snd (ioctl_f so k d FIONBIO v) = 0 \<and>
        (fcntl_getfl (base_ops so) (fst (ioctl_f so k d FIONBIO v)) d AND O_NONBLOCK \<noteq> 0 \<longleftrightarrow> v \<noteq> 0))"

text \<open>
  A system for the witnesses, on the flags of \<^const>\<open>ex_os\<close>, and a manager that holds the context of
  socket 5.
\<close>

definition ex_so :: "(c_int \<Rightarrow> flags) sys_ops" where
  "ex_so =
     \<lparr>base_ops = ex_os, fcntl_f = (\<lambda>k fd cmd arg. (k, 0)),
      ioctl_f = (\<lambda>k d req v. (if req = FIONBIO
        then k(d := if v \<noteq> 0 then k d OR O_NONBLOCK else k d AND NOT O_NONBLOCK) else k, 0)),
      socket_f = (\<lambda>k d t p. (k, 7)), getsockopt_f = (\<lambda>k fd l opt. (0, 0)),
      setsockopt_f = (\<lambda>k fd l opt v. (k, 0)), close_f = (\<lambda>k fd. (k, 0))\<rparr>"

definition ex_sock :: FdCtx where
  "ex_sock = \<lparr>m_isInit = True, m_isSocket = True, m_sysNonblock = True, m_userNonblock = False,
     m_isClosed = False, m_fd = 5, m_recvTimeout = -1, m_sendTimeout = -1\<rparr>"

definition ex_sock_fdm :: "(c_int \<Rightarrow> flags) FdManager" where
  "ex_sock_fdm = \<lparr>ctx_heap = [ex_sock], m_datas = (replicate 64 None)[5 := Some 0], fd_os = (\<lambda>_. O_NONBLOCK)\<rparr>"

lemma ex_sock_ok:
  "fd_wf ex_sock_fdm" "fd_ctx ex_sock_fdm 5 = Some ex_sock" "hooked_socket ex_so 5 ex_sock_fdm"
  "fd_lookup ex_sock_fdm 5 = Some 0"
proof -
  show "fd_wf ex_sock_fdm"
    by (auto simp: fd_wf_def ex_sock_fdm_def ex_sock_def nth_list_update split: if_splits)
  show "fd_lookup ex_sock_fdm 5 = Some 0"
    by (simp add: fd_lookup_def ex_sock_fdm_def)
  then show "fd_ctx ex_sock_fdm 5 = Some ex_sock"
    by (simp add: fd_ctx_def ex_sock_fdm_def)
  then show "hooked_socket ex_so 5 ex_sock_fdm"
    by (simp add: hooked_socket_def ex_sock_def ex_so_def ex_os_def)
qed

lemma ex_so_spec: "os_spec (base_ops ex_so)" "ioctl_spec ex_so"
  using ex_os_spec nonblock_bit by (simp_all add: ioctl_spec_def ex_so_def ex_os_def)

text \<open>
  C33. On a hooked socket \<open>F_SETFL\<close> and \<open>F_GETFL\<close> keep two views: what the user sets of \<open>O_NONBLOCK\<close> is
  what the user reads back, whichever way it was set, and the system's flag stays on. No other
  context changes.
\<close>

theorem fcntl_nonblock_roundtrip:
  assumes "os_spec (base_ops so)" "fd_wf m" "hooked_socket so fd m"
  shows "\<exists>m' r. fcntl so fd F_SETFL slot m = Inr (0, m') \<and> hooked_socket so fd m' \<and>
           fcntl_getfl (base_ops so) (fd_os m') fd AND O_NONBLOCK \<noteq> 0 \<and>
           fcntl so fd F_GETFL x m' = Inr (r, m') \<and>
           r AND O_NONBLOCK = ucast slot AND O_NONBLOCK \<and>
           (\<forall>fd'. fd' \<noteq> fd \<longrightarrow> fd_ctx m' fd' = fd_ctx m fd')"
proof -
  obtain p where p: "fd_lookup m fd = Some p" "p < length (ctx_heap m)" "socket_ctx so fd m = Inr (Some p)"
    "fd_ctx m fd = Some (ctx_heap m ! p)" "m_sysNonblock (ctx_heap m ! p)"
    by (rule hooked_socketE [OF assms(2,3)])
  let ?arg = "ucast slot :: u32"
  let ?f = "setUserNonblock (?arg AND O_NONBLOCK \<noteq> 0)"
  obtain k where set: "fcntl_setfl (base_ops so) (fd_os m) fd (?arg OR O_NONBLOCK) = (k, 0)"
    and get: "fcntl_getfl (base_ops so) k fd AND O_NONBLOCK = (?arg OR O_NONBLOCK) AND O_NONBLOCK"
    and stat: "fstat_sock (base_ops so) k fd = Some True"
    using assms(1,3) by (fastforce simp: os_spec_def hooked_socket_def prod_eq_iff intro: that)
  let ?m' = "upd_fdctx p ?f m\<lparr>fd_os := k\<rparr>"
  have ctx': "fd_ctx ?m' = (fd_ctx m)(fd := map_option ?f (fd_ctx m fd))"
    by (rule fd_ctx_upd [OF assms(2) p(1)])
  have sock': "hooked_socket so fd ?m'"
    using assms(3) stat ctx' by (auto simp: hooked_socket_def)
  have wf': "fd_wf ?m'"
    using assms(2) p(2) by (auto simp: fd_wf_def nth_list_update)
  have s: "fcntl so fd F_SETFL slot m = Inr (0, ?m')"
    using p(2,3,5) set by (simp add: fcntl_def fcntl_SETFL_def)
  obtain q where q: "fd_lookup ?m' fd = Some q" "socket_ctx so fd ?m' = Inr (Some q)"
    by (rule hooked_socketE [OF wf' sock'])
  then have "m_userNonblock (ctx_heap ?m' ! q) \<longleftrightarrow> ?arg AND O_NONBLOCK \<noteq> 0"
    using p(1,2) by simp
  then obtain r where g: "fcntl so fd F_GETFL x ?m' = Inr (r, ?m')" "r AND O_NONBLOCK = ?arg AND O_NONBLOCK"
    using q(2) nonblock_bit nonblock_cases [of ?arg] by (auto simp: fcntl_def fcntl_GETFL_def)
  show ?thesis
    using s sock' get nonblock_bit g ctx' by (intro exI [of _ ?m'] exI [of _ r]) simp
qed

theorem fcntl_nonblock_roundtrip_witness:
  "\<exists>m' r. fcntl ex_so 5 F_SETFL 0x802 ex_sock_fdm = Inr (0, m') \<and> fcntl ex_so 5 F_GETFL 0 m' = Inr (r, m') \<and>
          r AND O_NONBLOCK = O_NONBLOCK"
  using fcntl_nonblock_roundtrip [OF ex_so_spec(1) ex_sock_ok(1,3), of "0x802" 0]
  by (auto simp: O_NONBLOCK_def)

text \<open>
  \<open>ioctl\<close> with \<open>FIONBIO\<close> records what the user asks for as \<open>F_SETFL\<close> does, but hands the request on
  unchanged. A user who turns non-blocking mode off makes the socket block in the system, while its
  context still says that the system's mode is non-blocking and that blocking calls are to be
  turned into waits: the next one blocks the whole thread.
\<close>

lemma ioctl_unblocks_system_socket:
  assumes "ioctl_spec so" "fd_wf m" "hooked_socket so fd m"
  shows "\<exists>m' c. ioctl so fd FIONBIO v m = Inr (0, m') \<and> fd_ctx m' fd = Some c \<and>
           m_sysNonblock c \<and> (m_userNonblock c \<longleftrightarrow> v \<noteq> 0) \<and>
           (fcntl_getfl (base_ops so) (fd_os m') fd AND O_NONBLOCK \<noteq> 0 \<longleftrightarrow> v \<noteq> 0)"
proof -
  obtain p where p: "fd_lookup m fd = Some p" "p < length (ctx_heap m)" "socket_ctx so fd m = Inr (Some p)"
    "fd_ctx m fd = Some (ctx_heap m ! p)" "m_sysNonblock (ctx_heap m ! p)"
    by (rule hooked_socketE [OF assms(2,3)])
  obtain k where k: "ioctl_f so (fd_os m) fd FIONBIO v = (k, 0)"
    "fcntl_getfl (base_ops so) k fd AND O_NONBLOCK \<noteq> 0 \<longleftrightarrow> v \<noteq> 0"
    using assms(1,3) by (fastforce simp: ioctl_spec_def hooked_socket_def prod_eq_iff intro: that)
  let ?m' = "upd_fdctx p (setUserNonblock (v \<noteq> 0)) m\<lparr>fd_os := k\<rparr>"
  have "ioctl so fd FIONBIO v m = Inr (0, ?m')"
    using p(3) k(1) by (simp add: ioctl_def)
  moreover have "fd_ctx ?m' fd = Some ((ctx_heap m ! p)\<lparr>m_userNonblock := (v \<noteq> 0)\<rparr>)"
    using fd_ctx_upd [OF assms(2) p(1)] p(4) by simp
  ultimately show ?thesis
    using k(2) p(5) by (intro exI [of _ ?m']) simp
qed

text \<open>
  A receive or send timeout set with \<open>setsockopt\<close> is the one the context answers, in whole
  milliseconds; the other timeout keeps its value. So a timeout below a millisecond, and the zero
  that stands for no timeout in the system's interface, become a timeout of zero milliseconds,
  and never the value that stands for no timeout in the context.
\<close>

theorem setsockopt_timeout_roundtrip:
  assumes "fd_wf m" "fd_ctx m fd = Some c" "opt = SO_RCVTIMEO \<or> opt = SO_SNDTIMEO"
    and "0 \<le> tv_sec v" "tv_sec v < 2 ^ 63 div 1000" "0 \<le> tv_usec v" "tv_usec v < 1000000"
  shows "\<exists>rc m' c'. setsockopt so True fd SOL_SOCKET opt (Opt_timeval v) m = Inr (rc, m') \<and>
           fd_ctx m' fd = Some c' \<and>
           uint (getTimeout opt c') = tv_sec v * 1000 + tv_usec v div 1000 \<and>
           getTimeout opt c' \<noteq> -1 \<and>
           (\<forall>opt'. (opt' = SO_RCVTIMEO \<or> opt' = SO_SNDTIMEO) \<and> opt' \<noteq> opt \<longrightarrow> getTimeout opt' c' = getTimeout opt' c)"
proof -
  obtain p where p: "fd_lookup m fd = Some p" "c = ctx_heap m ! p"
    using assms(2) by (auto simp: fd_ctx_def)
  obtain k rc where k: "setsockopt_f so (fd_os m) fd SOL_SOCKET opt (Opt_timeval v) = (k, rc)"
    by fastforce
  let ?m' = "upd_fdctx p (setTimeout opt (timeval_ms v)) m\<lparr>fd_os := k\<rparr>"
  let ?ms = "tv_sec v * 1000 + tv_usec v div 1000"
  have "setsockopt so True fd SOL_SOCKET opt (Opt_timeval v) m = Inr (rc, ?m')"
    using assms(3) fdt.get_there [OF p(1)] k by (auto simp: setsockopt_def)
  moreover have "fd_ctx ?m' fd = Some (setTimeout opt (timeval_ms v) c)"
    using fd_ctx_upd [OF assms(1) p(1)] assms(2) by simp
  moreover have range: "0 \<le> ?ms" "?ms < 2 ^ 64 - 1"
    using assms(4-7) by simp_all
  have ms: "uint (timeval_ms v) = ?ms"
    unfolding timeval_ms_def sdiv_nonneg [OF assms(6)] using range by (intro uint_of_int_u64) simp_all
  moreover have "timeval_ms v \<noteq> -1"
    using ms range(2) by (auto simp: uint_minus_1_u64)
  ultimately show ?thesis
    using assms(3) by (intro exI [of _ rc] exI [of _ ?m'] exI [of _ "setTimeout opt (timeval_ms v) c"])
      (auto simp: getTimeout_def setTimeout_def SO_RCVTIMEO_def SO_SNDTIMEO_def)
qed

theorem setsockopt_timeout_roundtrip_witness:
  "\<exists>rc m' c. setsockopt ex_so True 5 SOL_SOCKET SO_RCVTIMEO (Opt_timeval \<lparr>tv_sec = 2, tv_usec = 500999\<rparr>) ex_sock_fdm =
      Inr (rc, m') \<and> fd_ctx m' 5 = Some c \<and> uint (getTimeout SO_RCVTIMEO c) = 2500"
  using setsockopt_timeout_roundtrip [OF ex_sock_ok(1,2), of SO_RCVTIMEO "\<lparr>tv_sec = 2, tv_usec = 500999\<rparr>" ex_so]
  by auto

end
