(* ===== verification/EVA_HookIO.thy ===== *)
theory EVA_HookIO
  imports EVA_IOEvents EVA_HookCtl
begin

text \<open>
  The blocking calls of \<open>src/src/hook.cpp\<close>: the sleeps, \<open>connect\<close>, \<open>close\<close>, and the reading and
  writing calls, all through \<open>do_io\<close>. A call that has to wait is cut at \<open>Fiber::Yield()\<close>: one
  definition goes up to there, one goes on from there, and the timer's callback is a definition of
  its own that may run in between. The IO manager's timers hold those callbacks as data.
\<close>

section \<open>State and surroundings\<close>

definition EINTR :: c_int where "EINTR = 4"
definition EBADF :: c_int where "EBADF = 9"
definition EAGAIN :: c_int where "EAGAIN = 11"
definition ETIMEDOUT :: c_int where "ETIMEDOUT = 110"
definition EINPROGRESS :: c_int where "EINPROGRESS = 115"

lemmas errno_defs = EINTR_def EBADF_def EAGAIN_def ETIMEDOUT_def EINPROGRESS_def

text \<open>What the code binds into timers: \<open>schedule(fiber, -1)\<close>, and the closure of \<open>do_io\<close> and \<open>connect\<close>.\<close>

datatype hook_cb = Wake fid | Timeout nat c_int Event

record ('k, 'e) hooks =
  hk_fds :: "'k FdManager"  \<comment> \<open>\<open>FdMgr::Get()\<close>\<close>
  hk_io :: "'e IOManager"
  hk_timers :: "hook_cb callback TimerManager"  \<comment> \<open>the IO manager's timers\<close>
  hk_fibs :: "eff fibers"
  t_hooked :: hook_flags
  hk_errno :: "tid \<Rightarrow> c_int"
  tinfos :: "nat \<Rightarrow> c_int option"  \<comment> \<open>the live \<open>timer_info\<close> objects, with \<open>cancelled\<close>\<close>

text \<open>
  What is given from outside: the system's calls, \<open>epoll_ctl\<close>, the context switches, the scheduler
  of each thread, what new memory holds, and the result of writing to the wake-up pipe.
\<close>

record ('k, 'e) henv =
  so_ops :: "'k sys_ops"
  ep_ctl :: "'e epoll_ctl"
  uctx :: ucontext_ops
  cur_sched :: "tid \<Rightarrow> sid option"
  garbage :: "nat \<Rightarrow> Event"
  write_rc :: int

text \<open>\<open>IOManager::GetThis()\<close> is not null.\<close>

definition IOManager_GetThis :: "('k, 'e) henv \<Rightarrow> tid \<Rightarrow> ('k, 'e) hooks \<Rightarrow> bool" where
  "IOManager_GetThis E t h \<longleftrightarrow> cur_sched E t = Some (io_self (hk_io h))"

abbreviation set_errno :: "tid \<Rightarrow> c_int \<Rightarrow> ('k, 'e) hooks \<Rightarrow> ('k, 'e) hooks" where
  "set_errno t e h \<equiv> h\<lparr>hk_errno := (hk_errno h)(t := e)\<rparr>"

abbreviation set_os :: "'k \<Rightarrow> ('k, 'e) hooks \<Rightarrow> ('k, 'e) hooks" where
  "set_os k h \<equiv> h\<lparr>hk_fds := (hk_fds h)\<lparr>fd_os := k\<rparr>\<rparr>"

abbreviation set_tinfo :: "nat \<Rightarrow> c_int option \<Rightarrow> ('k, 'e) hooks \<Rightarrow> ('k, 'e) hooks" where
  "set_tinfo i x h \<equiv> h\<lparr>tinfos := (tinfos h)(i := x)\<rparr>"

text \<open>An operation of the scheduler the IO manager is.\<close>

definition on_self :: "(Scheduler \<Rightarrow> Scheduler result) \<Rightarrow> ('k, 'e) hooks \<Rightarrow> ('k, 'e) hooks result" where
  "on_self f h =
     (let io = hk_io h in
      res_bind (f (io_scheds io (io_self io))) (\<lambda>s.
        Inr (h\<lparr>hk_io := io\<lparr>io_scheds := (io_scheds io)(io_self io := s)\<rparr>\<rparr>)))"

text \<open>A timer was added: the override of \<open>onFirstTimerChanged\<close> tickles.\<close>

definition timer_added ::
  "('k, 'e) henv \<Rightarrow> hook_cb callback TimerManager \<times> bool \<Rightarrow> ('k, 'e) hooks \<Rightarrow> ('k, 'e) hooks result" where
  "timer_added E r h =
     (case r of (tm, changed) \<Rightarrow>
        let h1 = h\<lparr>hk_timers := tm\<rparr> in if changed then on_self (tickle (write_rc E)) h1 else Inr h1)"

definition cancel_timer :: "addr option \<Rightarrow> ('k, 'e) hooks \<Rightarrow> ('k, 'e) hooks" where
  "cancel_timer timer h =
     (case timer of None \<Rightarrow> h | Some p \<Rightarrow> h\<lparr>hk_timers := fst (Timer_cancel p (hk_timers h))\<rparr>)"

text \<open>
  \<open>Fiber::Yield()\<close> on the current fiber, which goes on with \<open>k\<close> when it is called again. On a main
  fiber it returns at once and nothing changes.
\<close>

definition yield_now :: "('k, 'e) henv \<Rightarrow> tid \<Rightarrow> func \<Rightarrow> ('k, 'e) hooks \<Rightarrow> ('k, 'e) hooks result" where
  "yield_now E t k h =
     (case t_fiber (hk_fibs h) t of
        None \<Rightarrow> Inl NullDeref
      | Some b \<Rightarrow>
          (case Fiber_Yield (uctx E) t b (Ctx_saved k) (hk_fibs h) of
             None \<Rightarrow> Inr h
           | Some r \<Rightarrow> res_bind r (\<lambda>w. Inr (h\<lparr>hk_fibs := w\<rparr>))))"

text \<open>A call has returned, or has reached \<open>Fiber::Yield()\<close> with the timer it holds.\<close>

datatype outcome = Returned int | Waiting "addr option"

section \<open>Sleeping\<close>

text \<open>The periods: an \<open>unsigned\<close> product, an \<open>unsigned\<close> quotient, a \<open>long\<close> narrowed to \<open>int\<close>.\<close>

definition sleep_ms :: "u32 \<Rightarrow> u64" where
  "sleep_ms seconds = ucast (seconds * 1000)"

definition usleep_ms :: "u32 \<Rightarrow> u64" where
  "usleep_ms usec = ucast (usec div 1000)"

definition nanosleep_ms :: "int \<Rightarrow> int \<Rightarrow> u64" where
  "nanosleep_ms sec nsec = word_of_int (to_c_int (sec * 1000 + nsec sdiv 1000 sdiv 1000))"

text \<open>The common part of the three, up to \<open>Fiber::Yield()\<close>; called again they return 0.\<close>

definition sleep_for ::
  "('k, 'e) henv \<Rightarrow> tid \<Rightarrow> fid \<Rightarrow> addr \<Rightarrow> u64 \<Rightarrow> u64 \<Rightarrow> func \<Rightarrow> ('k, 'e) hooks \<Rightarrow> (outcome \<times> ('k, 'e) hooks) result" where
  "sleep_for E t a p now ms k h =
     res_bind (GetThis (uctx E) t a (hk_fibs h)) (\<lambda>(b, w).
       let h1 = h\<lparr>hk_fibs := w\<rparr> in
       if \<not> IOManager_GetThis E t h1 then Inl NullDeref
       else
         res_bind (timer_added E (addTimer now p ms (Callback (Wake b)) False (hk_timers h1)) h1) (\<lambda>h2.
           res_bind (yield_now E t k h2) (\<lambda>h3. Inr (Waiting (Some p), h3))))"

definition sleep ::
  "('k, 'e) henv \<Rightarrow> (u32 \<Rightarrow> u32) \<Rightarrow> tid \<Rightarrow> fid \<Rightarrow> addr \<Rightarrow> u64 \<Rightarrow> u32 \<Rightarrow> func \<Rightarrow> ('k, 'e) hooks \<Rightarrow>
   (outcome \<times> ('k, 'e) hooks) result" where
  "sleep E sleep_f t a p now seconds k h =
     (if \<not> t_hooked h t then Inr (Returned (uint (sleep_f seconds)), h)
      else sleep_for E t a p now (sleep_ms seconds) k h)"

definition usleep ::
  "('k, 'e) henv \<Rightarrow> (u32 \<Rightarrow> c_int) \<Rightarrow> tid \<Rightarrow> fid \<Rightarrow> addr \<Rightarrow> u64 \<Rightarrow> u32 \<Rightarrow> func \<Rightarrow> ('k, 'e) hooks \<Rightarrow>
   (outcome \<times> ('k, 'e) hooks) result" where
  "usleep E usleep_f t a p now usec k h =
     (if \<not> t_hooked h t then Inr (Returned (usleep_f usec), h)
      else sleep_for E t a p now (usleep_ms usec) k h)"

definition nanosleep ::
  "('k, 'e) henv \<Rightarrow> (int \<Rightarrow> int \<Rightarrow> c_int) \<Rightarrow> tid \<Rightarrow> fid \<Rightarrow> addr \<Rightarrow> u64 \<Rightarrow> int \<Rightarrow> int \<Rightarrow> func \<Rightarrow> ('k, 'e) hooks \<Rightarrow>
   (outcome \<times> ('k, 'e) hooks) result" where
  "nanosleep E nanosleep_f t a p now sec nsec k h =
     (if \<not> t_hooked h t then Inr (Returned (nanosleep_f sec nsec), h)
      else sleep_for E t a p now (nanosleep_ms sec nsec) k h)"

section \<open>Waiting for an event\<close>

text \<open>
  The part \<open>do_io\<close> and \<open>connect_with_timeout\<close> share: a timer unless the timeout is \<open>-1\<close>, the
  registration of the current fiber, and the switch. The flag is the answer of \<open>addEvent\<close>.
\<close>

definition wait_event ::
  "('k, 'e) henv \<Rightarrow> tid \<Rightarrow> fid \<Rightarrow> addr \<Rightarrow> u64 \<Rightarrow> nat \<Rightarrow> c_int \<Rightarrow> Event \<Rightarrow> u64 \<Rightarrow> func \<Rightarrow> ('k, 'e) hooks \<Rightarrow>
   (bool \<times> addr option \<times> ('k, 'e) hooks) result" where
  "wait_event E t a p now i fd event to k h =
     (if \<not> IOManager_GetThis E t h then Inl NullDeref
      else
        let timer = (if to \<noteq> -1 then Some p else None) in
        res_bind
          (if to \<noteq> -1
           then timer_added E (addConditionTimer now p to (Callback (Timeout i fd event)) i False (hk_timers h)) h
           else Inr h) (\<lambda>h1.
          res_bind (addEvent (ep_ctl E) (uctx E) (garbage E) (cur_sched E t) t a fd event None
                      (hk_io h1) (hk_fibs h1)) (\<lambda>(rt, io, w).
            let h2 = h1\<lparr>hk_io := io, hk_fibs := w\<rparr> in
            if \<not> rt then Inr (False, timer, cancel_timer timer h2)
            else res_bind (yield_now E t k h2) (\<lambda>h3. Inr (True, timer, h3)))))"

text \<open>The closure bound into the timer.\<close>

definition timeout_cb ::
  "('k, 'e) henv \<Rightarrow> nat \<Rightarrow> c_int \<Rightarrow> Event \<Rightarrow> ('k, 'e) hooks \<Rightarrow> ('k, 'e) hooks result" where
  "timeout_cb E i fd event h =
     (case tinfos h i of
        None \<Rightarrow> Inr h
      | Some cancelled \<Rightarrow>
          if cancelled \<noteq> 0 then Inr h
          else
            let h1 = set_tinfo i (Some ETIMEDOUT) h in
            res_bind (cancelEvent (ep_ctl E) (write_rc E) fd event (hk_io h1)) (\<lambda>(_, io).
              Inr (h1\<lparr>hk_io := io\<rparr>)))"

primrec run_hook_cb :: "('k, 'e) henv \<Rightarrow> hook_cb \<Rightarrow> ('k, 'e) hooks \<Rightarrow> ('k, 'e) hooks result" where
  "run_hook_cb E (Wake b) h = on_self (schedule (write_rc E) (Task_of_fiber b (-1))) h"
| "run_hook_cb E (Timeout i fd event) h = timeout_cb E i fd event h"

text \<open>A worker runs what a timer held, through \<open>OnTimer\<close> where it was bound with a condition.\<close>

definition run_callback :: "('k, 'e) henv \<Rightarrow> hook_cb callback \<Rightarrow> ('k, 'e) hooks \<Rightarrow> ('k, 'e) hooks result" where
  "run_callback E cb h =
     foldl (\<lambda>r c. res_bind r (run_hook_cb E c)) (Inr h) (OnTimer (\<lambda>i. tinfos h i \<noteq> None) cb)"

section \<open>Reading and writing\<close>

text \<open>An original call: the system's new state, the result, and what \<open>errno\<close> is then.\<close>

type_synonym 'k origin = "'k \<Rightarrow> 'k \<times> int \<times> c_int"

datatype route = Direct | Closed | Blocking u64

definition do_io_route :: "('k, 'e) henv \<Rightarrow> tid \<Rightarrow> c_int \<Rightarrow> c_int \<Rightarrow> ('k, 'e) hooks \<Rightarrow> route result" where
  "do_io_route E t fd timeout_so h =
     (if \<not> t_hooked h t then Inr Direct
      else
        res_bind (FdManager_get (base_ops (so_ops E)) fd False (hk_fds h)) (\<lambda>(ctx, _).
          Inr (case ctx of
                 None \<Rightarrow> Direct
               | Some p \<Rightarrow>
                   let c = ctx_heap (hk_fds h) ! p in
                   if m_isClosed c then Closed
                   else if \<not> m_isSocket c \<or> m_userNonblock c then Direct
                   else Blocking (getTimeout timeout_so c))))"

definition call_origin :: "'k origin \<Rightarrow> tid \<Rightarrow> ('k, 'e) hooks \<Rightarrow> int \<times> c_int \<times> ('k, 'e) hooks" where
  "call_origin f t h =
     (case f (fd_os (hk_fds h)) of (k, n, e) \<Rightarrow> (n, e, set_errno t e (set_os k h)))"

text \<open>The loop over interrupted calls; \<open>None\<close> if every call is interrupted.\<close>

partial_function (option) eintr_loop :: "'k origin \<Rightarrow> tid \<Rightarrow> ('k, 'e) hooks \<Rightarrow> (int \<times> c_int \<times> ('k, 'e) hooks) option" where
  "eintr_loop f t h =
     (case call_origin f t h of
        (n, e, h1) \<Rightarrow> if n = -1 \<and> e = EINTR then eintr_loop f t h1 else Some (n, e, h1))"

text \<open>From \<open>retry\<close> to the switch or the return; the \<open>timer_info\<close> dies with the call.\<close>

definition do_io_try ::
  "('k, 'e) henv \<Rightarrow> tid \<Rightarrow> fid \<Rightarrow> addr \<Rightarrow> u64 \<Rightarrow> nat \<Rightarrow> c_int \<Rightarrow> Event \<Rightarrow> u64 \<Rightarrow> 'k origin \<Rightarrow> func \<Rightarrow> ('k, 'e) hooks \<Rightarrow>
   (outcome \<times> ('k, 'e) hooks) result option" where
  "do_io_try E t a p now i fd event to f k h =
     (case eintr_loop f t h of
        None \<Rightarrow> None
      | Some (n, e, h1) \<Rightarrow>
          Some (if n = -1 \<and> e = EAGAIN
                then res_bind (wait_event E t a p now i fd event to k h1) (\<lambda>(rt, timer, h2).
                       Inr (if rt then (Waiting timer, h2) else (Returned (-1), set_tinfo i None h2)))
                else Inr (Returned n, set_tinfo i None h1)))"

definition do_io ::
  "('k, 'e) henv \<Rightarrow> tid \<Rightarrow> fid \<Rightarrow> addr \<Rightarrow> u64 \<Rightarrow> nat \<Rightarrow> c_int \<Rightarrow> Event \<Rightarrow> c_int \<Rightarrow> 'k origin \<Rightarrow> func \<Rightarrow> ('k, 'e) hooks \<Rightarrow>
   (outcome \<times> ('k, 'e) hooks) result option" where
  "do_io E t a p now i fd event timeout_so f k h =
     (case do_io_route E t fd timeout_so h of
        Inl e \<Rightarrow> Some (Inl e)
      | Inr Direct \<Rightarrow> (case call_origin f t h of (n, e, h1) \<Rightarrow> Some (Inr (Returned n, h1)))
      | Inr Closed \<Rightarrow> Some (Inr (Returned (-1), set_errno t EBADF h))
      | Inr (Blocking to) \<Rightarrow> do_io_try E t a p now i fd event to f k (set_tinfo i (Some 0) h))"

text \<open>The fiber is called again, on thread \<open>t\<close>; \<open>p\<close> is the address of a new timer should it wait again.\<close>

definition do_io_resume ::
  "('k, 'e) henv \<Rightarrow> tid \<Rightarrow> fid \<Rightarrow> addr option \<Rightarrow> addr \<Rightarrow> u64 \<Rightarrow> nat \<Rightarrow> c_int \<Rightarrow> Event \<Rightarrow> u64 \<Rightarrow> 'k origin \<Rightarrow> func \<Rightarrow>
   ('k, 'e) hooks \<Rightarrow> (outcome \<times> ('k, 'e) hooks) result option" where
  "do_io_resume E t a timer p now i fd event to f k h =
     (let h1 = cancel_timer timer h in
      case tinfos h1 i of
        None \<Rightarrow> Some (Inl NullDeref)
      | Some cancelled \<Rightarrow>
          if cancelled \<noteq> 0 then Some (Inr (Returned (-1), set_tinfo i None (set_errno t cancelled h1)))
          else do_io_try E t a p now i fd event to f k h1)"

text \<open>The calls that go through \<open>do_io\<close>, with the event and the timeout each waits with.\<close>

datatype io_fun =
    Accept | Read | Readv | Recv | Recvfrom | Recvmsg | Write | Writev | Send | Sendto | Sendmsg

fun io_event :: "io_fun \<Rightarrow> Event" where
  "io_event Accept = READ" | "io_event Read = READ" | "io_event Readv = READ" | "io_event Recv = READ"
| "io_event Recvfrom = READ" | "io_event Recvmsg = READ" | "io_event Write = WRITE" | "io_event Writev = WRITE"
| "io_event Send = WRITE" | "io_event Sendto = WRITE" | "io_event Sendmsg = WRITE"

fun io_timeout_so :: "io_fun \<Rightarrow> c_int" where
  "io_timeout_so Accept = SO_RCVTIMEO" | "io_timeout_so Read = SO_RCVTIMEO" | "io_timeout_so Readv = SO_RCVTIMEO"
| "io_timeout_so Recv = SO_RCVTIMEO" | "io_timeout_so Recvfrom = SO_RCVTIMEO" | "io_timeout_so Recvmsg = SO_RCVTIMEO"
| "io_timeout_so Write = SO_SNDTIMEO" | "io_timeout_so Writev = SO_SNDTIMEO" | "io_timeout_so Send = SO_SNDTIMEO"
| "io_timeout_so Sendto = SO_SNDTIMEO" | "io_timeout_so Sendmsg = SO_SNDTIMEO"

text \<open>What \<open>accept\<close> does with the descriptor that \<open>do_io\<close> answers.\<close>

definition accept_finish :: "('k, 'e) henv \<Rightarrow> int \<Rightarrow> ('k, 'e) hooks \<Rightarrow> (int \<times> ('k, 'e) hooks) result" where
  "accept_finish E n h =
     (let fd = to_c_int n in
      if fd \<ge> 0
      then res_bind (FdManager_get (base_ops (so_ops E)) fd True (hk_fds h)) (\<lambda>(_, m). Inr (fd, h\<lparr>hk_fds := m\<rparr>))
      else Inr (fd, h))"

text \<open>The calls themselves; only \<open>accept\<close> does something after \<open>do_io\<close>.\<close>

fun io_finish ::
  "('k, 'e) henv \<Rightarrow> io_fun \<Rightarrow> (outcome \<times> ('k, 'e) hooks) result option \<Rightarrow> (outcome \<times> ('k, 'e) hooks) result option" where
  "io_finish E Accept (Some (Inr (Returned n, h))) =
     Some (res_bind (accept_finish E n h) (\<lambda>(fd, h1). Inr (Returned fd, h1)))"
| "io_finish E g r = r"

definition io_call ::
  "('k, 'e) henv \<Rightarrow> io_fun \<Rightarrow> tid \<Rightarrow> fid \<Rightarrow> addr \<Rightarrow> u64 \<Rightarrow> nat \<Rightarrow> c_int \<Rightarrow> 'k origin \<Rightarrow> func \<Rightarrow> ('k, 'e) hooks \<Rightarrow>
   (outcome \<times> ('k, 'e) hooks) result option" where
  "io_call E g t a p now i fd f k h = io_finish E g (do_io E t a p now i fd (io_event g) (io_timeout_so g) f k h)"

definition io_resume ::
  "('k, 'e) henv \<Rightarrow> io_fun \<Rightarrow> tid \<Rightarrow> fid \<Rightarrow> addr option \<Rightarrow> addr \<Rightarrow> u64 \<Rightarrow> nat \<Rightarrow> c_int \<Rightarrow> u64 \<Rightarrow> 'k origin \<Rightarrow> func \<Rightarrow>
   ('k, 'e) hooks \<Rightarrow> (outcome \<times> ('k, 'e) hooks) result option" where
  "io_resume E g t a timer p now i fd to f k h =
     io_finish E g (do_io_resume E t a timer p now i fd (io_event g) to f k h)"

section \<open>Connecting and closing\<close>

definition connect_end :: "('k, 'e) henv \<Rightarrow> tid \<Rightarrow> nat \<Rightarrow> c_int \<Rightarrow> ('k, 'e) hooks \<Rightarrow> outcome \<times> ('k, 'e) hooks" where
  "connect_end E t i fd h =
     (let h1 = set_tinfo i None h in
      case getsockopt (so_ops E) fd SOL_SOCKET SO_ERROR (hk_fds h) of
        (rc, error) \<Rightarrow>
          if rc = -1 then (Returned (-1), h1)
          else if error = 0 then (Returned 0, h1)
          else (Returned (-1), set_errno t error h1))"

definition connect_with_timeout ::
  "('k, 'e) henv \<Rightarrow> tid \<Rightarrow> fid \<Rightarrow> addr \<Rightarrow> u64 \<Rightarrow> nat \<Rightarrow> c_int \<Rightarrow> u64 \<Rightarrow> 'k origin \<Rightarrow> func \<Rightarrow> ('k, 'e) hooks \<Rightarrow>
   (outcome \<times> ('k, 'e) hooks) result" where
  "connect_with_timeout E t a p now i fd timeout_ms connect_f k h =
     (case call_origin connect_f t h of
        (n, e, hc) \<Rightarrow>
          if \<not> t_hooked h t then Inr (Returned n, hc)
          else
            res_bind (FdManager_get (base_ops (so_ops E)) fd False (hk_fds h)) (\<lambda>(ctx, _).
              case ctx of
                None \<Rightarrow> Inr (Returned (-1), set_errno t EBADF h)
              | Some q \<Rightarrow>
                  let c = ctx_heap (hk_fds h) ! q in
                  if m_isClosed c then Inr (Returned (-1), set_errno t EBADF h)
                  else if \<not> m_isSocket c \<or> m_userNonblock c then Inr (Returned n, hc)
                  else if n = 0 then Inr (Returned 0, hc)
                  else if n \<noteq> -1 \<or> e \<noteq> EINPROGRESS then Inr (Returned n, hc)
                  else
                    res_bind (wait_event E t a p now i fd WRITE timeout_ms k (set_tinfo i (Some 0) hc))
                      (\<lambda>(rt, timer, h2). Inr (if rt then (Waiting timer, h2) else connect_end E t i fd h2))))"

definition connect_resume ::
  "('k, 'e) henv \<Rightarrow> tid \<Rightarrow> addr option \<Rightarrow> nat \<Rightarrow> c_int \<Rightarrow> ('k, 'e) hooks \<Rightarrow> (outcome \<times> ('k, 'e) hooks) result" where
  "connect_resume E t timer i fd h =
     (let h1 = cancel_timer timer h in
      case tinfos h1 i of
        None \<Rightarrow> Inl NullDeref
      | Some cancelled \<Rightarrow>
          Inr (if cancelled \<noteq> 0 then (Returned (-1), set_tinfo i None (set_errno t cancelled h1))
               else connect_end E t i fd h1))"

definition s_connect_timeout :: u64 where
  "s_connect_timeout = 5000"

definition connect ::
  "('k, 'e) henv \<Rightarrow> tid \<Rightarrow> fid \<Rightarrow> addr \<Rightarrow> u64 \<Rightarrow> nat \<Rightarrow> c_int \<Rightarrow> 'k origin \<Rightarrow> func \<Rightarrow> ('k, 'e) hooks \<Rightarrow>
   (outcome \<times> ('k, 'e) hooks) result" where
  "connect E t a p now i sockfd connect_f k h =
     connect_with_timeout E t a p now i sockfd s_connect_timeout connect_f k h"

definition close :: "('k, 'e) henv \<Rightarrow> tid \<Rightarrow> c_int \<Rightarrow> ('k, 'e) hooks \<Rightarrow> (c_int \<times> ('k, 'e) hooks) result" where
  "close E t fd h =
     res_bind
       (if \<not> t_hooked h t then Inr h
        else
          res_bind (FdManager_get (base_ops (so_ops E)) fd False (hk_fds h)) (\<lambda>(ctx, _).
            case ctx of
              None \<Rightarrow> Inr h
            | Some p \<Rightarrow>
                res_bind
                  (if IOManager_GetThis E t h
                   then res_bind (cancelAll (ep_ctl E) (write_rc E) fd (hk_io h)) (\<lambda>(_, io). Inr (h\<lparr>hk_io := io\<rparr>))
                   else Inr h) (\<lambda>h1.
                  res_bind (FdManager_del fd (hk_fds h1)) (\<lambda>m. Inr (h1\<lparr>hk_fds := m\<rparr>)))))
       (\<lambda>h2. case close_f (so_ops E) (fd_os (hk_fds h2)) fd of (k, rc) \<Rightarrow> Inr (rc, set_os k h2))"

end
