(* ===== verification/EVA_HookWait.thy ===== *)
theory EVA_HookWait
  imports EVA_HookIO
begin

text \<open>
  What the hooked calls of \<open>src/src/hook.cpp\<close> promise: how long the sleeps last, when a blocking call
  returns, what it leaves behind while it waits, how a timeout ends it, and that a descriptor can be
  waited for only once.
\<close>

section \<open>Interrupted calls\<close>

definition interrupted :: "'k origin \<Rightarrow> tid \<Rightarrow> ('k, 'e) hooks \<Rightarrow> bool" where
  "interrupted f t h \<longleftrightarrow> (case call_origin f t h of (n, e, h1) \<Rightarrow> n = -1 \<and> e = EINTR)"

text \<open>The state after \<open>j\<close> calls.\<close>

primrec after_calls :: "'k origin \<Rightarrow> tid \<Rightarrow> nat \<Rightarrow> ('k, 'e) hooks \<Rightarrow> ('k, 'e) hooks" where
  "after_calls f t 0 h = h"
| "after_calls f t (Suc j) h = after_calls f t j (snd (snd (call_origin f t h)))"

lemma eintr_loop_ends:
  assumes "\<forall>j < m. interrupted f t (after_calls f t j h)" "\<not> interrupted f t (after_calls f t m h)"
  shows "eintr_loop f t h = Some (call_origin f t (after_calls f t m h))"
  using assms
proof (induction m arbitrary: h)
  case 0
  then show ?case
    by (subst eintr_loop.simps) (auto simp: interrupted_def split: prod.splits)
next
  case (Suc m)
  let ?h1 = "snd (snd (call_origin f t h))"
  have int: "interrupted f t h"
    using Suc.prems(1) by (metis after_calls.simps(1) zero_less_Suc)
  have "\<forall>j < m. interrupted f t (after_calls f t j ?h1)"
    using Suc.prems(1) by (metis after_calls.simps(2) Suc_less_eq)
  then have "eintr_loop f t ?h1 = Some (call_origin f t (after_calls f t m ?h1))"
    using Suc.IH [of ?h1] Suc.prems(2) by simp
  then show ?case
    using int by (subst eintr_loop.simps) (auto simp: interrupted_def split: prod.splits)
qed

lemma eintr_loop_Some:
  assumes "eintr_loop f t h = Some r"
  shows "\<exists>m. \<not> interrupted f t (after_calls f t m h)"
  using assms
proof (induction rule: eintr_loop.raw_induct [rotated, consumes 1])
  case (1 loop f t h r)
  show ?case
  proof (cases "interrupted f t h")
    case True
    then have "loop f t (snd (snd (call_origin f t h))) = Some r"
      using 1(2) by (auto simp: interrupted_def split: prod.splits)
    from 1(1) [OF this] show ?thesis
      by (metis after_calls.simps(2))
  next
    case False
    then show ?thesis
      by (metis after_calls.simps(1))
  qed
qed

lemma eintr_loop_frame:
  assumes "eintr_loop f t h = Some (n, e, h1)"
  shows "\<exists>k. h1 = set_errno t e (set_os k h)"
  using assms
proof (induction f t h "(n, e, h1)" rule: eintr_loop.raw_induct [rotated, consumes 1])
  case (1 loop f t h)
  obtain k n0 e0 where c: "f (fd_os (hk_fds h)) = (k, n0, e0)"
    by (cases "f (fd_os (hk_fds h))") auto
  show ?case
  proof (cases "n0 = -1 \<and> e0 = EINTR")
    case True
    then have "loop f t (set_errno t e0 (set_os k h)) = Some (n, e, h1)"
      using 1(2) c by (simp add: call_origin_def)
    from 1(1) [OF this] show ?thesis
      by auto
  next
    case False
    then show ?thesis
      using 1(2) c by (auto simp: call_origin_def split: if_splits)
  qed
qed

text \<open>
  C35. A blocking call on a hooked socket repeats the original call as long as it is interrupted. If
  the call after \<open>m\<close> interruptions neither is interrupted nor would block, \<open>do_io\<close> returns its result
  after exactly those calls; if every call is interrupted, \<open>do_io\<close> never returns.
\<close>

theorem interrupted_calls_are_retried:
  assumes "do_io_route E t fd timeout_so h = Inr (Blocking to)" and h0: "h0 = set_tinfo i (Some 0) h"
  shows "(\<forall>m n e h1. (\<forall>j < m. interrupted f t (after_calls f t j h0)) \<and>
            call_origin f t (after_calls f t m h0) = (n, e, h1) \<and> \<not> (n = -1 \<and> (e = EINTR \<or> e = EAGAIN)) \<longrightarrow>
            do_io E t a p now i fd event timeout_so f k h = Some (Inr (Returned n, set_tinfo i None h1))) \<and>
         ((\<forall>j. interrupted f t (after_calls f t j h0)) \<longleftrightarrow>
            do_io E t a p now i fd event timeout_so f k h = None)"
proof -
  have io: "do_io E t a p now i fd event timeout_so f k h = do_io_try E t a p now i fd event to f k h0"
    using assms by (simp add: do_io_def)
  have ret: "do_io_try E t a p now i fd event to f k h0 = Some (Inr (Returned n, set_tinfo i None h1))"
    if "\<forall>j < m. interrupted f t (after_calls f t j h0)" "call_origin f t (after_calls f t m h0) = (n, e, h1)"
      "\<not> (n = -1 \<and> (e = EINTR \<or> e = EAGAIN))" for m n e h1
    using eintr_loop_ends [OF that(1)] that(2,3) by (auto simp: interrupted_def do_io_try_def)
  have "(\<forall>j. interrupted f t (after_calls f t j h0)) \<longleftrightarrow> eintr_loop f t h0 = None"
  proof
    show "eintr_loop f t h0 = None" if "\<forall>j. interrupted f t (after_calls f t j h0)"
      using that eintr_loop_Some [of f t h0] by (cases "eintr_loop f t h0") auto
    show "\<forall>j. interrupted f t (after_calls f t j h0)" if "eintr_loop f t h0 = None"
    proof (rule ccontr)
      assume "\<not> (\<forall>j. interrupted f t (after_calls f t j h0))"
      then obtain m where m: "\<not> interrupted f t (after_calls f t m h0)"
        "\<forall>j < m. interrupted f t (after_calls f t j h0)"
        using exists_least_iff [of "\<lambda>m. \<not> interrupted f t (after_calls f t m h0)"] by blast
      show False
        using eintr_loop_ends [OF m(2,1)] that by simp
    qed
  qed
  moreover have "eintr_loop f t h0 = None \<longleftrightarrow> do_io_try E t a p now i fd event to f k h0 = None"
    by (auto simp: do_io_try_def split: option.splits)
  ultimately have "(\<forall>j. interrupted f t (after_calls f t j h0)) \<longleftrightarrow>
      do_io_try E t a p now i fd event to f k h0 = None"
    by simp
  then show ?thesis
    unfolding io using ret by auto
qed

section \<open>A call on a fiber\<close>

text \<open>
  The setting of a hooked call: the thread has hooks, an IO manager and a current fiber \<open>b\<close> that is
  not its main one; context switches and writes to the pipe succeed.
\<close>

definition runs_on :: "('k, 'e) henv \<Rightarrow> tid \<Rightarrow> fid \<Rightarrow> ('k, 'e) hooks \<Rightarrow> bool" where
  "runs_on E t b h \<longleftrightarrow>
     ucontext_ok (uctx E) \<and> write_rc E = 1 \<and> IOManager_GetThis E t h \<and> t_hooked h t \<and>
     t_fiber (hk_fibs h) t = Some b \<and>
     (\<exists>m f. t_main_fiber (hk_fibs h) t = Some m \<and> b \<noteq> m \<and> fb_heap (hk_fibs h) b = Some f \<and> fb_state f = RUNNING)"

text \<open>The fiber has given its thread back to the main fiber and waits to be called.\<close>

definition parked :: "tid \<Rightarrow> fid \<Rightarrow> func \<Rightarrow> ('k, 'e) hooks \<Rightarrow> bool" where
  "parked t b k h \<longleftrightarrow>
     t_fiber (hk_fibs h) t = t_main_fiber (hk_fibs h) t \<and>
     (\<exists>f. fb_heap (hk_fibs h) b = Some f \<and> fb_state f = SUSPEND \<and> fb_ctx f = Ctx_saved k)"

lemma yield_now_ok:
  assumes "runs_on E t b h"
  shows "\<exists>w. yield_now E t k h = Inr (h\<lparr>hk_fibs := w\<rparr>) \<and> parked t b k (h\<lparr>hk_fibs := w\<rparr>)"
  using assms by (auto simp: runs_on_def yield_now_def Fiber_Yield_def swap_out_def ucontext_ok_def
      set_t_fiber_def parked_def)

abbreviation with_bytes :: "nat \<Rightarrow> 'e IOManager \<Rightarrow> 'e IOManager" where
  "with_bytes n io \<equiv>
     io\<lparr>io_scheds := (io_scheds io)(io_self io := (io_scheds io (io_self io))\<lparr>m_tickle_bytes := n\<rparr>)\<rparr>"

lemma timer_added_ok:
  assumes "write_rc E = 1"
  shows "\<exists>n. timer_added E r h = Inr (h\<lparr>hk_timers := fst r, hk_io := with_bytes n (hk_io h)\<rparr>)"
proof -
  have "\<exists>n. tickle 1 s = Inr (s\<lparr>m_tickle_bytes := n\<rparr>)" for s :: Scheduler
    by (auto simp: tickle_def intro: exI [of _ "m_tickle_bytes s"])
  then obtain n where n: "tickle 1 (io_scheds (hk_io h) (io_self (hk_io h))) =
      Inr ((io_scheds (hk_io h) (io_self (hk_io h)))\<lparr>m_tickle_bytes := n\<rparr>)"
    by blast
  obtain tm changed where r: "r = (tm, changed)"
    by fastforce
  show ?thesis
  proof (cases changed)
    case True
    then show ?thesis
      using n assms by (auto simp: r timer_added_def on_self_def Let_def)
  next
    case False
    then show ?thesis
      by (auto simp: r timer_added_def intro!: exI [of _ "m_tickle_bytes (io_scheds (hk_io h) (io_self (hk_io h)))"])
  qed
qed

lemma with_bytes_frame:
  "io_inv interest io \<Longrightarrow> io_inv interest (with_bytes n io)"
  "registered (with_bytes n io) fd ev = registered io fd ev"
  "slot_used (with_bytes n io) fd ev = slot_used io fd ev"
proof -
  show "io_inv interest (with_bytes n io)" if "io_inv interest io"
    using io_inv_frame [OF that, of "with_bytes n io"] by simp
  have "ctx_of (with_bytes n io) fd = ctx_of io fd"
    by (simp add: ctx_of_def)
  moreover have "fc_heap (with_bytes n io) = fc_heap io"
    by simp
  ultimately show "registered (with_bytes n io) fd ev = registered io fd ev"
    and "slot_used (with_bytes n io) fd ev = slot_used io fd ev"
    by (simp_all only: registered_def slot_used_def)
qed

text \<open>
  The surroundings of the witnesses: fiber 1 runs on thread 1 of the IO manager \<^const>\<open>ex_io\<close>, and
  descriptor 5 is a hooked socket; a call that would block, and one that is interrupted once.
\<close>

definition ex_env :: "(c_int \<Rightarrow> flags, c_int \<Rightarrow> (u32 \<times> nat) option) henv" where
  "ex_env = \<lparr>so_ops = ex_so, ep_ctl = ex_ctl, uctx = ex_uc, cur_sched = (\<lambda>_. Some 0), garbage = (\<lambda>_. 0), write_rc = 1\<rparr>"

definition ex_hooks :: "(c_int \<Rightarrow> flags, c_int \<Rightarrow> (u32 \<times> nat) option) hooks" where
  "ex_hooks =
     \<lparr>hk_fds = ex_sock_fdm, hk_io = ex_io,
      hk_timers = \<lparr>timer_heap = (\<lambda>_. Timer_ctor 0 0 (Callback (Wake 0)) False), m_timers = []\<rparr>,
      hk_fibs = \<lparr>fb_heap = [0 \<mapsto> ex_main, 1 \<mapsto> ex_ready\<lparr>fb_state := RUNNING\<rparr>], s_fiber_id = 1, s_fiber_count = 2,
                 t_fiber = [1 \<mapsto> 1], t_main_fiber = [1 \<mapsto> 0]\<rparr>,
      t_hooked = (\<lambda>_. True), hk_errno = (\<lambda>_. 0), tinfos = (\<lambda>_. None)\<rparr>"

definition ex_again :: "(c_int \<Rightarrow> flags) origin" where
  "ex_again k = (k, -1, EAGAIN)"

definition ex_once :: "(c_int \<Rightarrow> flags) origin" where
  "ex_once k = (if k 0 = O_NONBLOCK then (k(0 := 0), -1, EINTR) else (k, 3, 0))"

lemma ex_hooks_ok: "runs_on ex_env 1 1 ex_hooks" "tm_wf (hk_timers ex_hooks)" "m_timers (hk_timers ex_hooks) = []"
  "hk_io ex_hooks = ex_io" "hk_fds ex_hooks = ex_sock_fdm"
  by (simp_all add: runs_on_def ex_env_def ex_hooks_def IOManager_GetThis_def ex_io_def ucontext_ok_def ex_uc_def
      tm_wf_def)

lemma ex_env_ok: "epoll_spec (ep_ctl ex_env) (\<lambda>k. k) (\<lambda>fd. 0 \<le> fd)" "garbage ex_env = (\<lambda>_. 0)" "write_rc ex_env = 1"
  "cur_sched ex_env t = Some 0"
  using ex_epoll by (simp_all add: ex_env_def)

lemma ex_route:
  "do_io_route ex_env t 5 SO_RCVTIMEO ex_hooks = Inr (Blocking (-1))"
  "do_io_route ex_env t 5 SO_RCVTIMEO (ex_hooks\<lparr>hk_io := io\<rparr>) = Inr (Blocking (-1))"
  using fdt.get_there [OF ex_sock_ok(4), of ex_os False]
  by (simp_all add: do_io_route_def ex_hooks_def ex_env_def ex_so_def ex_sock_fdm_def ex_sock_def getTimeout_def)

lemma ex_again_loop: "eintr_loop ex_again t h = Some (-1, EAGAIN, set_errno t EAGAIN h)"
  by (subst eintr_loop.simps) (simp add: call_origin_def ex_again_def errno_defs)

theorem interrupted_calls_are_retried_witness:
  "\<exists>h. do_io ex_env 1 0 0 0 0 5 READ SO_RCVTIMEO ex_once Return ex_hooks = Some (Inr (Returned 3, h))"
proof -
  let ?h0 = "set_tinfo 0 (Some 0) ex_hooks"
  have "\<forall>j < Suc 0. interrupted ex_once 1 (after_calls ex_once 1 j ?h0)"
    by (simp add: interrupted_def call_origin_def ex_once_def ex_hooks_def ex_sock_fdm_def errno_defs)
  moreover obtain h1 where "call_origin ex_once 1 (after_calls ex_once 1 (Suc 0) ?h0) = (3, 0, h1)"
    by (simp add: call_origin_def ex_once_def ex_hooks_def ex_sock_fdm_def nonblock_bit(3) [symmetric])
  ultimately have "(\<forall>j < Suc 0. interrupted ex_once 1 (after_calls ex_once 1 j ?h0)) \<and>
      call_origin ex_once 1 (after_calls ex_once 1 (Suc 0) ?h0) = (3, 0, h1) \<and>
      \<not> ((3 :: int) = -1 \<and> (0 = EINTR \<or> 0 = EAGAIN))"
    by simp
  from interrupted_calls_are_retried [OF ex_route(1) refl, THEN conjunct1, THEN spec, THEN spec, THEN spec, THEN spec,
      THEN mp, OF this] show ?thesis
    by blast
qed

section \<open>Sleeping\<close>

lemma armed_addTimer:
  assumes "tm_wf tm" "p \<notin> set (m_timers tm)"
  shows "armed (fst (addTimer now p ms cb rec tm)) = (armed tm)(p \<mapsto> now + ms)"
  using addTimer_state(2,3) [OF assms, of now ms cb rec]
  by (auto simp: armed_def fun_eq_iff Timer_ctor_def)

lemma due_expires:
  assumes "armed tm p = Some d" "d \<le> x"
  shows "m_func (timer_heap tm p) \<in> set (fst (getExpiredFuncs x [] tm))"
  using assms by (auto simp: getExpiredFuncs_funcs expired_timers_def armed_def split: if_splits)

text \<open>
  A hooked sleep parks the fiber and arms a timer at now plus the period. The first poll of the
  timers at or after that time hands out a callback that queues exactly this fiber, for any worker.
\<close>

theorem sleep_parks_and_wakes:
  assumes "runs_on E t b h" "tm_wf (hk_timers h)" "p \<notin> set (m_timers (hk_timers h))"
  shows "\<exists>h'. sleep_for E t a p now ms k h = Inr (Waiting (Some p), h') \<and> parked t b k h' \<and>
           armed (hk_timers h') = (armed (hk_timers h))(p \<mapsto> now + ms) \<and>
           (\<forall>x. now + ms \<le> x \<longrightarrow> Callback (Wake b) \<in> set (fst (getExpiredFuncs x [] (hk_timers h')))) \<and>
           (\<exists>h''. run_callback E (Callback (Wake b)) h' = Inr h'' \<and>
              m_tasks (io_scheds (hk_io h'') (io_self (hk_io h''))) =
                m_tasks (io_scheds (hk_io h') (io_self (hk_io h'))) @ [Task_of_fiber b (-1)])"
proof -
  let ?r = "addTimer now p ms (Callback (Wake b)) False (hk_timers h)"
  obtain n where n: "timer_added E ?r h = Inr (h\<lparr>hk_timers := fst ?r, hk_io := with_bytes n (hk_io h)\<rparr>)"
    using timer_added_ok assms(1) unfolding runs_on_def by metis
  let ?h2 = "h\<lparr>hk_timers := fst ?r, hk_io := with_bytes n (hk_io h)\<rparr>"
  have "runs_on E t b ?h2"
    using assms(1) by (simp add: runs_on_def IOManager_GetThis_def)
  then obtain w where w: "yield_now E t k ?h2 = Inr (?h2\<lparr>hk_fibs := w\<rparr>)" "parked t b k (?h2\<lparr>hk_fibs := w\<rparr>)"
    using yield_now_ok by blast
  let ?h' = "?h2\<lparr>hk_fibs := w\<rparr>"
  have gt: "GetThis (uctx E) t a (hk_fibs h) = Inr (b, hk_fibs h)"
    using assms(1) by (simp add: runs_on_def GetThis_def)
  have run: "sleep_for E t a p now ms k h = Inr (Waiting (Some p), ?h')"
    using assms(1) n w(1) by (simp add: sleep_for_def gt runs_on_def IOManager_GetThis_def)
  have arm: "armed (hk_timers ?h') = (armed (hk_timers h))(p \<mapsto> now + ms)"
    using armed_addTimer [OF assms(2,3)] by simp
  have "timer_heap (fst ?r) p = Timer_ctor now ms (Callback (Wake b)) False"
    using addTimer_state(3) [OF assms(2,3)] by simp
  then have wake: "Callback (Wake b) \<in> set (fst (getExpiredFuncs x [] (hk_timers ?h')))" if "now + ms \<le> x" for x
    using due_expires [of "hk_timers ?h'" p "now + ms" x] arm that by (simp add: Timer_ctor_def)
  have "write_rc E = 1"
    using assms(1) by (simp add: runs_on_def)
  then have "\<exists>h''. run_callback E (Callback (Wake b)) ?h' = Inr h'' \<and>
      m_tasks (io_scheds (hk_io h'') (io_self (hk_io h''))) =
        m_tasks (io_scheds (hk_io ?h') (io_self (hk_io ?h'))) @ [Task_of_fiber b (-1)]"
    using schedule_total [of "Task_of_fiber b (-1)" "io_scheds (hk_io ?h') (io_self (hk_io ?h'))"]
    by (auto simp: run_callback_def on_self_def Let_def)
  then show ?thesis
    using run w(2) arm wake by blast
qed

theorem sleep_parks_and_wakes_witness:
  "\<exists>h. sleep_for ex_env 1 0 7 100 2000 Return ex_hooks = Inr (Waiting (Some 7), h) \<and> parked 1 1 Return h \<and>
       armed (hk_timers h) 7 = Some 2100"
  using sleep_parks_and_wakes [OF ex_hooks_ok(1,2), of 7 0 100 2000 Return] ex_hooks_ok(3) by auto

lemma uint_ucast_u64: "uint (ucast x :: u64) = uint x" for x :: u32
  using unsigned_less [of x, where ?'a = int] by (simp add: unsigned_ucast_eq take_bit_eq_mod mod_pos_pos_trivial)

lemma to_c_int_eq:
  "0 \<le> x \<Longrightarrow> x < 2 ^ 31 \<Longrightarrow> to_c_int x = x"
  "2 ^ 31 \<le> x \<Longrightarrow> x < 2 ^ 32 \<Longrightarrow> to_c_int x = x - 2 ^ 32"
proof -
  show "to_c_int x = x" if "0 \<le> x" "x < 2 ^ 31"
    using that by (simp add: to_c_int_def sint_sbintrunc' signed_take_bit_int_eq_self)
  show "to_c_int x = x - 2 ^ 32" if "2 ^ 31 \<le> x" "x < 2 ^ 32"
  proof -
    have "(x + 2 ^ 31) mod 2 ^ 32 = ((x - 2 ^ 31) + 2 ^ 32) mod 2 ^ 32"
      by (simp add: add.commute)
    also have "\<dots> = x - 2 ^ 31"
      unfolding mod_add_self2 using that by (intro mod_pos_pos_trivial) simp_all
    finally show ?thesis
      by (simp add: to_c_int_def sint_sbintrunc' signed_take_bit_eq_take_bit_shift take_bit_eq_mod)
  qed
qed

text \<open>
  C36. How long the sleeps last, in milliseconds. \<open>sleep\<close> multiplies in 32 bits: it is exact up to
  4294967 seconds and too short beyond. \<open>usleep\<close> drops the part below a millisecond, so it ends up to
  a millisecond early. \<open>nanosleep\<close> narrows to \<open>int\<close>: exact below \<open>2^31\<close> milliseconds (24 days); from there
  to \<open>2^32\<close> the period is \<open>2^64 - (2^32 - n)\<close>, so the deadline lies \<open>2^32 - n\<close> before now.
\<close>

theorem sleep_periods:
  assumes "0 \<le> sec" "0 \<le> nsec" and ms: "ms = sec * 1000 + nsec div 1000000"
  shows "uint (sleep_ms s) = (uint s * 1000) mod 2 ^ 32 \<and>
         (uint (sleep_ms s) = uint s * 1000 \<longleftrightarrow> s \<le> 4294967) \<and>
         uint (usleep_ms u) * 1000 \<le> uint u \<and> uint u - uint (usleep_ms u) * 1000 < 1000 \<and>
         (ms < 2 ^ 31 \<longrightarrow> uint (nanosleep_ms sec nsec) = ms) \<and>
         (2 ^ 31 \<le> ms \<and> ms < 2 ^ 32 \<longrightarrow> now + nanosleep_ms sec nsec = now - word_of_int (2 ^ 32 - ms))"
proof -
  have "uint (sleep_ms s) = uint (s * 1000)"
    by (simp add: sleep_ms_def uint_ucast_u64)
  then have 1: "uint (sleep_ms s) = (uint s * 1000) mod 2 ^ 32"
    by (simp add: uint_word_ariths)
  have "s \<le> 4294967 \<longleftrightarrow> uint s \<le> 4294967"
    by (simp add: word_le_def)
  also have "\<dots> \<longleftrightarrow> (uint s * 1000) mod 2 ^ 32 = uint s * 1000"
    using unsigned_less [of s, where ?'a = int] by (auto simp: mod_pos_pos_trivial)
  finally have 2: "uint (sleep_ms s) = uint s * 1000 \<longleftrightarrow> s \<le> 4294967"
    using 1 by simp
  have 3: "uint (usleep_ms u) = uint u div 1000"
    by (simp add: usleep_ms_def uint_ucast_u64 uint_div)
  have ns: "nanosleep_ms sec nsec = word_of_int (to_c_int ms)"
    using assms zdiv_zmult2_eq [of 1000 nsec 1000] by (simp add: nanosleep_ms_def sdiv_nonneg)
  have pos: "0 \<le> ms"
    using assms by simp
  have "uint (nanosleep_ms sec nsec) = ms" if "ms < 2 ^ 31"
    unfolding ns to_c_int_eq(1) [OF pos that] using pos that by (intro uint_of_int_u64) simp_all
  moreover have "now + nanosleep_ms sec nsec = now - word_of_int (2 ^ 32 - ms)" if "2 ^ 31 \<le> ms" "ms < 2 ^ 32"
    unfolding ns to_c_int_eq(2) [OF that] by simp
  ultimately show ?thesis
    using 1 2 3 by (auto simp: minus_div_mult_eq_mod)
qed

theorem sleep_periods_witness:
  "(7000 :: u64) + nanosleep_ms 2147484 0 = 7000 - word_of_int (2 ^ 32 - 2147484000) \<and>
   uint (sleep_ms 4294968) \<noteq> 4294968000"
  using sleep_periods [of 2147484 0 2147484000 4294968 0 7000] by simp

section \<open>Waiting\<close>

lemma wait_timer_ok:
  assumes "write_rc E = 1"
  shows "\<exists>n tm'. (if to \<noteq> (-1 :: u64) then timer_added E r h else Inr h) =
      Inr (h\<lparr>hk_timers := tm', hk_io := with_bytes n (hk_io h)\<rparr>) \<and>
      tm' = (if to \<noteq> -1 then fst r else hk_timers h)"
proof (cases "to = -1")
  case True
  then show ?thesis
    by (auto intro!: exI [of _ "m_tickle_bytes (io_scheds (hk_io h) (io_self (hk_io h)))"])
next
  case False
  then show ?thesis
    using timer_added_ok [OF assms, of r h] by simp
qed

lemma wait_event_ok:
  assumes spec: "epoll_spec (ep_ctl E) interest pollable" and inv: "io_inv interest (hk_io h)"
    and "garbage E = (\<lambda>_. 0)" "0 \<le> fd" "pollable fd" and ev: "event = READ \<or> event = WRITE"
    and "\<not> slot_used (hk_io h) fd event"
    and tm: "tm_wf (hk_timers h)" "p \<notin> set (m_timers (hk_timers h))" and on: "runs_on E t b h"
  shows "\<exists>h'. wait_event E t a p now i fd event to k h = Inr (True, if to \<noteq> -1 then Some p else None, h') \<and>
           io_inv interest (hk_io h') \<and> parked t b k h' \<and>
           registered (hk_io h') fd event = Some (cur_sched E t, Some (Task_of_fiber b (-1))) \<and>
           armed (hk_timers h') = (if to \<noteq> -1 then (armed (hk_timers h))(p \<mapsto> now + to) else armed (hk_timers h)) \<and>
           (to \<noteq> -1 \<longrightarrow> m_func (timer_heap (hk_timers h') p) = Bind_OnTimer i (Callback (Timeout i fd event))) \<and>
           tinfos h' = tinfos h \<and> tm_wf (hk_timers h') \<and> io_self (hk_io h') = io_self (hk_io h)"
proof -
  let ?r = "addConditionTimer now p to (Callback (Timeout i fd event)) i False (hk_timers h)"
  let ?add = "if to \<noteq> -1 then timer_added E ?r h else Inr h"
  obtain n tm' where add: "?add = Inr (h\<lparr>hk_timers := tm', hk_io := with_bytes n (hk_io h)\<rparr>)"
    and tm': "tm' = (if to \<noteq> -1 then fst ?r else hk_timers h)"
    using wait_timer_ok [of E to ?r h] on unfolding runs_on_def by blast
  let ?h1 = "h\<lparr>hk_timers := tm', hk_io := with_bytes n (hk_io h)\<rparr>"
  let ?c = "no_context\<lparr>ev_scheduler := cur_sched E t, ev_fiber := Some b\<rparr>"
  have ctx: "new_context (cur_sched E t) t None (hk_fibs h) ?c"
    using on by (auto simp: new_context_def runs_on_def)
  obtain io' where io': "addEvent (ep_ctl E) (uctx E) (\<lambda>_. 0) (cur_sched E t) t a fd event None
      (with_bytes n (hk_io h)) (hk_fibs h) = Inr (True, io', hk_fibs h)"
    "registered io' fd event = Some (cur_sched E t, ctx_task ?c)" "io_self io' = io_self (hk_io h)"
    using addEvent_adds_context [OF spec with_bytes_frame(1) [OF inv, of n] assms(4,5) ev _ ctx, of "uctx E" a]
      assms(7) by (auto simp: with_bytes_frame(3))
  let ?h2 = "?h1\<lparr>hk_io := io', hk_fibs := hk_fibs h\<rparr>"
  have "runs_on E t b ?h2"
    using on io'(3) by (simp add: runs_on_def IOManager_GetThis_def)
  then obtain w where w: "yield_now E t k ?h2 = Inr (?h2\<lparr>hk_fibs := w\<rparr>)" "parked t b k (?h2\<lparr>hk_fibs := w\<rparr>)"
    using yield_now_ok by blast
  let ?h' = "?h2\<lparr>hk_fibs := w\<rparr>"
  have "IOManager_GetThis E t h"
    using on by (simp add: runs_on_def)
  then have run: "wait_event E t a p now i fd event to k h = Inr (True, if to \<noteq> -1 then Some p else None, ?h')"
    unfolding wait_event_def Let_def add using io'(1) w(1) assms(3) by simp
  have "io_inv interest io'"
    by (rule addEvent_inv [OF spec with_bytes_frame(1) [OF inv, of n] io'(1)])
  moreover have "armed tm' = (if to \<noteq> -1 then (armed (hk_timers h))(p \<mapsto> now + to) else armed (hk_timers h))"
    using armed_addTimer [OF tm] by (simp add: tm' addConditionTimer_def)
  moreover have "m_func (timer_heap tm' p) = Bind_OnTimer i (Callback (Timeout i fd event))" if "to \<noteq> -1"
    using that addTimer_state(3) [OF tm] by (simp add: tm' addConditionTimer_def Timer_ctor_def)
  moreover have "ctx_task ?c = Some (Task_of_fiber b (-1))"
    by (simp add: ctx_task_def no_context_def)
  moreover have "tm_wf tm'"
    using addTimer_state(1) [OF tm] tm(1) by (simp add: tm' addConditionTimer_def)
  ultimately show ?thesis
    using run w(2) io'(2,3) by (intro exI [of _ ?h']) simp
qed

lemma do_io_waits:
  assumes "epoll_spec (ep_ctl E) interest pollable" "io_inv interest (hk_io h)"
    and "garbage E = (\<lambda>_. 0)" "0 \<le> fd" "pollable fd" "event = READ \<or> event = WRITE"
    and "\<not> slot_used (hk_io h) fd event"
    and "tm_wf (hk_timers h)" "p \<notin> set (m_timers (hk_timers h))" "runs_on E t b h"
    and "do_io_route E t fd timeout_so h = Inr (Blocking to)"
    and "eintr_loop f t (set_tinfo i (Some 0) h) = Some (-1, EAGAIN, h1)"
  shows "\<exists>h'. do_io E t a p now i fd event timeout_so f k h =
             Some (Inr (Waiting (if to \<noteq> -1 then Some p else None), h')) \<and>
           io_inv interest (hk_io h') \<and> parked t b k h' \<and> tinfos h' i = Some 0 \<and>
           registered (hk_io h') fd event = Some (cur_sched E t, Some (Task_of_fiber b (-1))) \<and>
           armed (hk_timers h') = (if to \<noteq> -1 then (armed (hk_timers h))(p \<mapsto> now + to) else armed (hk_timers h)) \<and>
           (to \<noteq> -1 \<longrightarrow> m_func (timer_heap (hk_timers h') p) = Bind_OnTimer i (Callback (Timeout i fd event)))"
proof -
  obtain kern where h1: "h1 = set_errno t EAGAIN (set_os kern (set_tinfo i (Some 0) h))"
    using eintr_loop_frame [OF assms(12)] by blast
  have on: "runs_on E t b h1"
    using assms(10) by (simp add: h1 runs_on_def IOManager_GetThis_def)
  have "\<exists>h'. wait_event E t a p now i fd event to k h1 = Inr (True, if to \<noteq> -1 then Some p else None, h') \<and>
           io_inv interest (hk_io h') \<and> parked t b k h' \<and>
           registered (hk_io h') fd event = Some (cur_sched E t, Some (Task_of_fiber b (-1))) \<and>
           armed (hk_timers h') = (if to \<noteq> -1 then (armed (hk_timers h1))(p \<mapsto> now + to) else armed (hk_timers h1)) \<and>
           (to \<noteq> -1 \<longrightarrow> m_func (timer_heap (hk_timers h') p) = Bind_OnTimer i (Callback (Timeout i fd event))) \<and>
           tinfos h' = tinfos h1 \<and> tm_wf (hk_timers h') \<and> io_self (hk_io h') = io_self (hk_io h1)"
    by (rule wait_event_ok [OF assms(1) _ assms(3-6) _ _ _ on]) (use assms(2,7-9) in \<open>simp_all add: h1\<close>)
  then obtain h' where h': "wait_event E t a p now i fd event to k h1 = Inr (True, if to \<noteq> -1 then Some p else None, h')"
    "io_inv interest (hk_io h')" "parked t b k h'"
    "registered (hk_io h') fd event = Some (cur_sched E t, Some (Task_of_fiber b (-1)))"
    "armed (hk_timers h') = (if to \<noteq> -1 then (armed (hk_timers h1))(p \<mapsto> now + to) else armed (hk_timers h1))"
    "to \<noteq> -1 \<longrightarrow> m_func (timer_heap (hk_timers h') p) = Bind_OnTimer i (Callback (Timeout i fd event))"
    "tinfos h' = tinfos h1"
    by blast
  have "do_io E t a p now i fd event timeout_so f k h =
      Some (Inr (Waiting (if to \<noteq> -1 then Some p else None), h'))"
    using assms(11,12) h'(1) by (simp add: do_io_def do_io_try_def)
  moreover have "hk_timers h1 = hk_timers h" "tinfos h1 i = Some 0"
    by (simp_all add: h1)
  ultimately show ?thesis
    using h'(2-7) by simp
qed

lemma io_event_cases: "io_event g = READ \<or> io_event g = WRITE"
  by (cases g) simp_all

lemma io_finish_waiting [simp]:
  "io_finish E g (Some (Inr (Waiting timer, h))) = Some (Inr (Waiting timer, h))"
  "io_finish E g (Some (Inl e)) = Some (Inl e)" "io_finish E g None = None"
  by (cases g; simp)+

lemma io_finish_returned:
  "io_finish E g (Some (Inr (Returned n, h))) =
     (if g = Accept then Some (res_bind (accept_finish E n h) (\<lambda>(fd, h1). Inr (Returned fd, h1)))
      else Some (Inr (Returned n, h)))"
  by (cases g) simp_all



lemma ex_waiting:
  "\<exists>h. wait_event ex_env 1 0 7 0 0 5 READ to Return (set_errno 1 EAGAIN (set_tinfo 0 (Some 0) ex_hooks)) =
         Inr (True, if to \<noteq> -1 then Some 7 else None, h) \<and> io_inv (\<lambda>k. k) (hk_io h) \<and>
       registered (hk_io h) 5 READ = Some (Some 0, Some (Task_of_fiber 1 (-1))) \<and> tinfos h 0 = Some 0 \<and>
       tm_wf (hk_timers h) \<and> io_self (hk_io h) = 0"
proof -
  let ?h = "set_errno 1 EAGAIN (set_tinfo 0 (Some 0) ex_hooks)"
  have "runs_on ex_env 1 1 ?h"
    using ex_hooks_ok(1) by (simp add: runs_on_def IOManager_GetThis_def)
  from wait_event_ok [OF ex_env_ok(1) _ ex_env_ok(2) _ _ _ _ _ _ this, of 5 READ 7 0 0 0 to Return]
  show ?thesis
    using ex_io_inv ex_io_unused [of READ 5] ex_hooks_ok(2-4) ex_env_ok(4) by (auto simp: ex_io_def)
qed

text \<open>
  C16. The timeout of a waiting call. When its callback runs while the event is still registered, the
  event is taken out and the waiting fiber queued; called again, the fiber returns -1 with \<open>errno\<close>
  set to \<open>ETIMEDOUT\<close>, its timer is out of the set, and running the callback once more changes nothing,
  since the \<open>timer_info\<close> is gone.
\<close>

theorem timeout_ends_call:
  assumes "epoll_spec (ep_ctl E) interest pollable" "io_inv interest (hk_io h)" "pollable fd"
    and "event = READ \<or> event = WRITE" "write_rc E = 1" "tm_wf (hk_timers h)"
    and "registered (hk_io h) fd event = Some (Some s, Some tk)" "tinfos h i = Some 0"
    and cb: "cb = Bind_OnTimer i (Callback (Timeout i fd event))"
  shows "\<exists>h1 h2. run_callback E cb h = Inr h1 \<and>
           m_tasks (io_scheds (hk_io h1) s) = m_tasks (io_scheds (hk_io h) s) @ [tk] \<and>
           registered (hk_io h1) fd event = None \<and>
           do_io_resume E t a (Some p) q now i fd event to f k h1 = Some (Inr (Returned (-1), h2)) \<and>
           hk_errno h2 t = ETIMEDOUT \<and> armed (hk_timers h2) p = None \<and> run_callback E cb h2 = Inr h2"
proof -
  obtain io' where io': "cancelEvent (ep_ctl E) 1 fd event (hk_io h) = Inr (True, io')"
    "m_tasks (io_scheds io' s) = m_tasks (io_scheds (hk_io h) s) @ [tk]" "registered io' fd event = None"
    using cancelEvent_fires [OF assms(1-4,7)] by blast
  let ?h1 = "set_tinfo i (Some ETIMEDOUT) h\<lparr>hk_io := io'\<rparr>"
  let ?hc = "?h1\<lparr>hk_timers := fst (Timer_cancel p (hk_timers h))\<rparr>"
  let ?h2 = "set_tinfo i None (set_errno t ETIMEDOUT ?hc)"
  have "run_callback E cb h = Inr ?h1"
    using assms(5,8) io'(1) by (simp add: cb run_callback_def timeout_cb_def Let_def)
  moreover have "do_io_resume E t a (Some p) q now i fd event to f k ?h1 = Some (Inr (Returned (-1), ?h2))"
    by (simp add: do_io_resume_def cancel_timer_def ETIMEDOUT_def)
  moreover have "armed (hk_timers ?h2) p = None"
    using Timer_cancel_state(2) [OF assms(6)] by (simp add: armed_def)
  moreover have "run_callback E cb ?h2 = Inr ?h2"
    by (simp add: cb run_callback_def)
  ultimately show ?thesis
    using io'(2,3) by (intro exI [of _ ?h1] exI [of _ ?h2]) simp
qed

theorem timeout_ends_call_witness:
  "\<exists>h h1 h2. wait_event ex_env 1 0 7 0 0 5 READ 100 Return (set_errno 1 EAGAIN (set_tinfo 0 (Some 0) ex_hooks)) =
       Inr (True, Some 7, h) \<and>
     run_callback ex_env (Bind_OnTimer 0 (Callback (Timeout 0 5 READ))) h = Inr h1 \<and>
     do_io_resume ex_env 1 0 (Some 7) 8 200 0 5 READ 100 ex_again Return h1 = Some (Inr (Returned (-1), h2)) \<and>
     hk_errno h2 1 = ETIMEDOUT"
proof -
  obtain h where h: "wait_event ex_env 1 0 7 0 0 5 READ 100 Return (set_errno 1 EAGAIN (set_tinfo 0 (Some 0) ex_hooks)) =
      Inr (True, Some 7, h)" "io_inv (\<lambda>k. k) (hk_io h)"
    "registered (hk_io h) 5 READ = Some (Some 0, Some (Task_of_fiber 1 (-1)))" "tinfos h 0 = Some 0" "tm_wf (hk_timers h)"
    using ex_waiting [of 100] by auto
  show ?thesis
    using timeout_ends_call [OF ex_env_ok(1) h(2) _ _ ex_env_ok(3) h(5,3,4) refl, of 1 0 7 8 200 100 ex_again Return] h(1)
    by auto
qed



section \<open>Event and timeout\<close>

text \<open>
  While a call waits, the timer's callback and reports of the event may come in any order, and more
  than once each.
\<close>

definition hook_wake ::
  "('k, 'e) henv \<Rightarrow> nat \<Rightarrow> c_int \<Rightarrow> Event \<Rightarrow> waker \<Rightarrow> ('k, 'e) hooks \<Rightarrow> ('k, 'e) hooks result" where
  "hook_wake E i fd event w h =
     (case w of
        By_cancel \<Rightarrow> run_callback E (Bind_OnTimer i (Callback (Timeout i fd event))) h
      | By_report \<Rightarrow> res_bind (io_wake (ep_ctl E) fd event By_report (hk_io h)) (\<lambda>io. Inr (h\<lparr>hk_io := io\<rparr>)))"

definition call_inv ::
  "('k, 'e) henv \<Rightarrow> ('e \<Rightarrow> c_int \<Rightarrow> (u32 \<times> nat) option) \<Rightarrow> (c_int \<Rightarrow> bool) \<Rightarrow> nat \<Rightarrow> c_int \<Rightarrow> Event \<Rightarrow> ('k, 'e) hooks \<Rightarrow> bool" where
  "call_inv E interest pollable i fd event h \<longleftrightarrow>
     wake_inv (ep_ctl E) interest pollable fd event (hk_io h) \<and> write_rc E = 1 \<and>
     (io_waiting fd event (hk_io h) = None \<or> tinfos h i = Some 0)"

text \<open>The callback is \<open>cancelEvent\<close> while the call has not timed out, and nothing afterwards.\<close>

lemma hook_wake_io:
  assumes "write_rc E = 1"
  shows "hook_wake E i fd event w h =
    (if w = By_cancel \<and> tinfos h i \<noteq> Some 0 then Inr h
     else res_bind (io_wake (ep_ctl E) fd event w (hk_io h)) (\<lambda>io.
       Inr ((if w = By_cancel then set_tinfo i (Some ETIMEDOUT) h else h)\<lparr>hk_io := io\<rparr>)))"
  using assms
  by (cases w)
    (auto simp: hook_wake_def io_wake_def run_callback_def timeout_cb_def res_bind_assoc Let_def case_prod_unfold
      split: option.splits)

interpretation hkw: wake_once "call_inv E interest pollable i fd event" "\<lambda>h. io_waiting fd event (hk_io h)"
  "\<lambda>h s. m_tasks (io_scheds (hk_io h) s)" "hook_wake E i fd event" for E interest pollable i fd event
proof
  fix h :: "('a, 'b) hooks" and s tk w
  assume inv: "call_inv E interest pollable i fd event h"
  have rc: "write_rc E = 1" and io: "wake_inv (ep_ctl E) interest pollable fd event (hk_io h)"
    using inv by (simp_all add: call_inv_def)
  show "\<exists>h'. hook_wake E i fd event w h = Inr h' \<and> call_inv E interest pollable i fd event h' \<and>
      io_waiting fd event (hk_io h') = None \<and>
      m_tasks (io_scheds (hk_io h') s) = m_tasks (io_scheds (hk_io h) s) @ [tk]"
    if waits: "io_waiting fd event (hk_io h) = Some (s, tk)"
    using iow.wake_first [OF io waits, of w] inv waits by (auto simp: hook_wake_io [OF rc] call_inv_def)
  show "\<exists>h'. hook_wake E i fd event w h = Inr h' \<and> call_inv E interest pollable i fd event h' \<and>
      io_waiting fd event (hk_io h') = None \<and>
      (\<lambda>s. m_tasks (io_scheds (hk_io h') s)) = (\<lambda>s. m_tasks (io_scheds (hk_io h) s))"
    if none: "io_waiting fd event (hk_io h) = None"
    using io_wake_idle [OF io none, of w] inv none by (auto simp: hook_wake_io [OF rc] call_inv_def)
qed

lemma run_wakers_tinfo:
  assumes "write_rc E = 1" "run_wakers (hook_wake E i fd event) ws h = Inr h'" "tinfos h i = Some c"
  shows "tinfos h' i = Some (if c = 0 \<and> By_cancel \<in> set ws then ETIMEDOUT else c)"
  using assms(2,3)
proof (induction ws arbitrary: h c)
  case (Cons w ws)
  obtain h1 where h1: "hook_wake E i fd event w h = Inr h1" "run_wakers (hook_wake E i fd event) ws h1 = Inr h'"
    using Cons.prems(1) by auto
  have "tinfos h1 i = Some (if c = 0 \<and> w = By_cancel then ETIMEDOUT else c)"
    using h1(1) Cons.prems(2) by (auto simp: hook_wake_io [OF assms(1)] split: if_splits)
  from Cons.IH [OF h1(2) this] show ?case
    by (cases w) (auto simp: ETIMEDOUT_def)
qed simp

text \<open>
  C17. The event and the timeout of a waiting call race. However many reports of the event and runs of
  the timer's callback come while the call waits, and in whatever order, none of them fails and
  the waiting fiber is queued exactly once. The call will report a timeout exactly if the callback
  has run, even if the event came first.
\<close>

theorem waiting_call_woken_once:
  assumes "epoll_spec (ep_ctl E) interest pollable" "io_inv interest (hk_io h)" "pollable fd" "event = io_event g"
    and "write_rc E = 1" "registered (hk_io h) fd event = Some (Some s, Some tk)" "tinfos h i = Some 0" "ws \<noteq> []"
  shows "\<exists>h'. run_wakers (hook_wake E i fd event) ws h = Inr h' \<and> registered (hk_io h') fd event = None \<and>
           m_tasks (io_scheds (hk_io h') s) = m_tasks (io_scheds (hk_io h) s) @ [tk] \<and>
           tinfos h' i = Some (if By_cancel \<in> set ws then ETIMEDOUT else 0)"
proof -
  have waits: "io_waiting fd event (hk_io h) = Some (s, tk)"
    using assms(6) by (simp add: io_waiting_Some)
  have "ctx_of (hk_io h) fd \<noteq> None"
    using assms(6) by (auto simp: registered_def split: option.splits)
  then have "call_inv E interest pollable i fd event h"
    using assms(1-7) waits io_event_cases [of g] by (simp add: call_inv_def wake_inv_def)
  from hkw.once [OF this waits assms(8)] obtain h' where h': "run_wakers (hook_wake E i fd event) ws h = Inr h'"
    "call_inv E interest pollable i fd event h'" "io_waiting fd event (hk_io h') = None"
    "m_tasks (io_scheds (hk_io h') s) = m_tasks (io_scheds (hk_io h) s) @ [tk]"
    by blast
  have "registered (hk_io h') fd event = None"
    using h'(2,3) by (auto simp: call_inv_def wake_inv_def)
  then show ?thesis
    using h'(1,4) run_wakers_tinfo [OF assms(5) h'(1) assms(7)] by auto
qed

theorem waiting_call_woken_once_witness:
  "\<exists>h h'. wait_event ex_env 1 0 7 0 0 5 READ 100 Return (set_errno 1 EAGAIN (set_tinfo 0 (Some 0) ex_hooks)) =
       Inr (True, Some 7, h) \<and>
     run_wakers (hook_wake ex_env 0 5 READ) [By_report, By_cancel, By_report] h = Inr h' \<and>
     m_tasks (io_scheds (hk_io h') 0) = m_tasks (io_scheds (hk_io h) 0) @ [Task_of_fiber 1 (-1)]"
proof -
  obtain h where h: "wait_event ex_env 1 0 7 0 0 5 READ 100 Return (set_errno 1 EAGAIN (set_tinfo 0 (Some 0) ex_hooks)) =
      Inr (True, Some 7, h)" "io_inv (\<lambda>k. k) (hk_io h)"
    "registered (hk_io h) 5 READ = Some (Some 0, Some (Task_of_fiber 1 (-1)))" "tinfos h 0 = Some 0"
    using ex_waiting [of 100] by auto
  show ?thesis
    using waiting_call_woken_once [OF ex_env_ok(1) h(2) _ _ ex_env_ok(3) h(3,4), of Recv "[By_report, By_cancel, By_report]"] h(1)
    by fastforce
qed

section \<open>Accepting and connecting\<close>

text \<open>A descriptor that \<open>accept\<close> answers has a context, other descriptors keep theirs.\<close>

lemma accept_gives_context:
  assumes "io_finish E Accept (Some (Inr (Returned n, h))) = Some (Inr (Returned fd, h'))"
    and "fd_wf (hk_fds h)" "0 \<le> fd"
  shows "fd_wf (hk_fds h')" "fd_lookup (hk_fds h') fd \<noteq> None"
    "fd' \<noteq> fd \<Longrightarrow> fd_lookup (hk_fds h') fd' = fd_lookup (hk_fds h) fd'"
proof -
  have fd: "fd = to_c_int n"
    using assms(1) by (auto simp: accept_finish_def Let_def split: if_splits sum.splits)
  obtain p m' where m': "FdManager_get (base_ops (so_ops E)) fd True (hk_fds h) = Inr (Some p, m')" "fd_wf m'"
    "fd_lookup m' = (fd_lookup (hk_fds h))(fd := Some p)"
    using fdt.get_total [OF assms(2,3)] by blast
  then have "h' = h\<lparr>hk_fds := m'\<rparr>"
    using assms(1,3) by (simp add: accept_finish_def Let_def fd [symmetric])
  then show "fd_wf (hk_fds h')" "fd_lookup (hk_fds h') fd \<noteq> None"
    "fd' \<noteq> fd \<Longrightarrow> fd_lookup (hk_fds h') fd' = fd_lookup (hk_fds h) fd'"
    using m' by simp_all
qed

text \<open>
  A connection in progress waits for the socket to become writable, for at most \<open>s_connect_timeout\<close>
  milliseconds; woken by the event, \<open>connect\<close> answers what the socket's error says.
\<close>

lemma connect_waits:
  assumes "epoll_spec (ep_ctl E) interest pollable" "io_inv interest (hk_io h)"
    and "garbage E = (\<lambda>_. 0)" "0 \<le> fd" "pollable fd" "\<not> slot_used (hk_io h) fd WRITE"
    and "tm_wf (hk_timers h)" "p \<notin> set (m_timers (hk_timers h))" "runs_on E t b h"
    and "do_io_route E t fd so h = Inr (Blocking to)"
    and "call_origin f t h = (-1, EINPROGRESS, h1)"
  shows "\<exists>h'. connect E t a p now i fd f k h = Inr (Waiting (Some p), h') \<and> parked t b k h' \<and>
           registered (hk_io h') fd WRITE = Some (cur_sched E t, Some (Task_of_fiber b (-1))) \<and>
           armed (hk_timers h') = (armed (hk_timers h))(p \<mapsto> now + 5000) \<and> tinfos h' i = Some 0"
proof -
  obtain kern where h1: "h1 = set_errno t EINPROGRESS (set_os kern h)"
    using assms(11) by (auto simp: call_origin_def split: prod.splits)
  have on: "runs_on E t b (set_tinfo i (Some 0) h1)"
    using assms(9) by (simp add: h1 runs_on_def IOManager_GetThis_def)
  from wait_event_ok [OF assms(1) _ assms(3-5) _ _ _ _ on, of WRITE p a now i 5000 k] assms(2,6-8) obtain h'
    where h': "wait_event E t a p now i fd WRITE 5000 k (set_tinfo i (Some 0) h1) = Inr (True, Some p, h')" "parked t b k h'"
      "registered (hk_io h') fd WRITE = Some (cur_sched E t, Some (Task_of_fiber b (-1)))"
      "armed (hk_timers h') = (armed (hk_timers h))(p \<mapsto> now + 5000)" "tinfos h' i = Some 0"
    by (auto simp: h1)
  have "connect E t a p now i fd f k h = Inr (Waiting (Some p), h')"
    using assms(10,11) h'(1)
    by (auto simp: connect_def connect_with_timeout_def s_connect_timeout_def do_io_route_def Let_def errno_defs
        split: if_splits option.splits sum.splits)
  then show ?thesis
    using h'(2-5) by blast
qed

lemma connect_result:
  assumes "tinfos h i = Some 0" "getsockopt (so_ops E) fd SOL_SOCKET SO_ERROR (hk_fds h) = (0, error)"
  shows "\<exists>h'. connect_resume E t timer i fd h = Inr (Returned (if error = 0 then 0 else -1), h') \<and>
           (error \<noteq> 0 \<longrightarrow> hk_errno h' t = error) \<and> tinfos h' i = None"
  using assms by (cases timer) (auto simp: connect_resume_def connect_end_def cancel_timer_def Let_def)

section \<open>A descriptor is waited for once\<close>

lemma yield_now_io: "yield_now E t k h = Inr h' \<Longrightarrow> hk_io h' = hk_io h"
  by (auto simp: yield_now_def split: option.splits)

lemma wait_event_adds:
  assumes "write_rc E = 1" "IOManager_GetThis E t h" "garbage E = (\<lambda>_. 0)"
  obtains n where
    "\<forall>e. addEvent (ep_ctl E) (uctx E) (\<lambda>_. 0) (cur_sched E t) t a fd event None (with_bytes n (hk_io h)) (hk_fibs h) = Inl e \<longrightarrow>
       wait_event E t a p now i fd event to k h = Inl e"
    and "\<forall>timer h'. wait_event E t a p now i fd event to k h = Inr (True, timer, h') \<longrightarrow>
       (\<exists>w. addEvent (ep_ctl E) (uctx E) (\<lambda>_. 0) (cur_sched E t) t a fd event None (with_bytes n (hk_io h)) (hk_fibs h) =
          Inr (True, hk_io h', w))"
proof -
  let ?r = "addConditionTimer now p to (Callback (Timeout i fd event)) i False (hk_timers h)"
  obtain n tm' where add: "(if to \<noteq> -1 then timer_added E ?r h else Inr h) =
      Inr (h\<lparr>hk_timers := tm', hk_io := with_bytes n (hk_io h)\<rparr>)"
    using wait_timer_ok [OF assms(1), of to ?r h] by blast
  show ?thesis
  proof (rule that [of n])
    show "\<forall>e. addEvent (ep_ctl E) (uctx E) (\<lambda>_. 0) (cur_sched E t) t a fd event None (with_bytes n (hk_io h)) (hk_fibs h) = Inl e \<longrightarrow>
       wait_event E t a p now i fd event to k h = Inl e"
      unfolding wait_event_def Let_def add using assms(2,3) by simp
    show "\<forall>timer h'. wait_event E t a p now i fd event to k h = Inr (True, timer, h') \<longrightarrow>
       (\<exists>w. addEvent (ep_ctl E) (uctx E) (\<lambda>_. 0) (cur_sched E t) t a fd event None (with_bytes n (hk_io h)) (hk_fibs h) =
          Inr (True, hk_io h', w))"
      unfolding wait_event_def Let_def add using assms(2,3)
      by (auto split: if_splits dest!: yield_now_io)
  qed
qed

lemma wait_event_used:
  assumes "epoll_spec (ep_ctl E) interest pollable" "io_inv interest (hk_io h)" "write_rc E = 1" "garbage E = (\<lambda>_. 0)"
    and "wait_event E t a p now i fd event to k h = Inr (True, timer, h')"
  shows "io_inv interest (hk_io h')" "slot_used (hk_io h') fd event" "event = READ \<or> event = WRITE"
proof -
  have iom: "IOManager_GetThis E t h"
    using assms(5) by (auto simp: wait_event_def split: if_splits)
  obtain n w where add: "addEvent (ep_ctl E) (uctx E) (\<lambda>_. 0) (cur_sched E t) t a fd event None
      (with_bytes n (hk_io h)) (hk_fibs h) = Inr (True, hk_io h', w)"
    using wait_event_adds [OF assms(3) iom assms(4)] assms(5) by metis
  note inv = with_bytes_frame(1) [OF assms(2), of n]
  show "io_inv interest (hk_io h')"
    by (rule addEvent_inv [OF assms(1) inv add])
  show "slot_used (hk_io h') fd event" "event = READ \<or> event = WRITE"
    by (rule addEvent_used(2,3) [OF inv add])+
qed

lemma wait_event_aborts:
  assumes "io_inv interest (hk_io h)" "write_rc E = 1" "garbage E = (\<lambda>_. 0)" "IOManager_GetThis E t h"
    and "event = READ \<or> event = WRITE" "slot_used (hk_io h) fd event"
  shows "wait_event E t a p now i fd event to k h = Inl AssertFail"
proof -
  have "addEvent (ep_ctl E) (uctx E) (\<lambda>_. 0) (cur_sched E t) t a fd event None (with_bytes n (hk_io h)) (hk_fibs h) =
      Inl AssertFail" for n
    using addEvent_aborts [OF with_bytes_frame(1) [OF assms(1)] assms(5)] assms(6) by (simp add: with_bytes_frame(3))
  then show ?thesis
    using wait_event_adds [OF assms(2,4,3)] by metis
qed

text \<open>
  C22. Hooked calls can wait for a descriptor once. After a call has waited for an event of a
  descriptor, whatever happens in between, the process aborts as soon as a call would have to
  wait for it again: another call of any fiber on any thread, or the same one that has been woken
  and finds that it still would block.
\<close>

theorem second_wait_aborts:
  assumes "epoll_spec (ep_ctl E) interest pollable" "io_inv interest (hk_io h)" "write_rc E = 1" "garbage E = (\<lambda>_. 0)"
    and "do_io E t a p now i fd event so f k h = Some (Inr (Waiting timer, h1))"
    and "io_runs (ep_ctl E) uc (hk_io h1) (hk_io h2)" "IOManager_GetThis E t' h2"
  shows "(\<forall>i' so' to' f' h3. do_io_route E t' fd so' h2 = Inr (Blocking to') \<and>
            eintr_loop f' t' (set_tinfo i' (Some 0) h2) = Some (-1, EAGAIN, h3) \<longrightarrow>
            do_io E t' a' p' now' i' fd event so' f' k' h2 = Some (Inl AssertFail)) \<and>
         (\<forall>to' h3. tinfos h2 i = Some 0 \<and> eintr_loop f t' (cancel_timer timer h2) = Some (-1, EAGAIN, h3) \<longrightarrow>
            do_io_resume E t' a' timer p' now' i fd event to' f k' h2 = Some (Inl AssertFail))"
proof -
  obtain to n e hx where route: "do_io_route E t fd so h = Inr (Blocking to)"
    and loop: "eintr_loop f t (set_tinfo i (Some 0) h) = Some (n, e, hx)"
    and wait: "wait_event E t a p now i fd event to k hx = Inr (True, timer, h1)"
    using assms(5) by (auto simp: do_io_def do_io_try_def split: sum.splits route.splits option.splits prod.splits if_splits)
  have "hk_io hx = hk_io h"
    using eintr_loop_frame [OF loop] by auto
  then have "io_inv interest (hk_io hx)"
    using assms(2) by simp
  note used = wait_event_used [OF assms(1) this assms(3,4) wait]
  have later: "io_inv interest (hk_io h2)" "slot_used (hk_io h2) fd event"
    using slot_used_runs [OF assms(1,6) used] by simp_all
  have abort: "do_io_try E t' a' p' now' i' fd event to' f' k' g = Some (Inl AssertFail)"
    if "eintr_loop f' t' g = Some (-1, EAGAIN, h3)" "hk_io g = hk_io h2" for i' to' f' g h3
  proof -
    have io: "hk_io h3 = hk_io h2"
      using eintr_loop_frame [OF that(1)] that(2) by auto
    then have "wait_event E t' a' p' now' i' fd event to' k' h3 = Inl AssertFail"
      using later assms(7) by (intro wait_event_aborts [OF _ assms(3,4) _ used(3)]) (simp_all add: IOManager_GetThis_def)
    then show ?thesis
      using that(1) by (simp add: do_io_try_def)
  qed
  have "do_io E t' a' p' now' i' fd event so' f' k' h2 = Some (Inl AssertFail)"
    if "do_io_route E t' fd so' h2 = Inr (Blocking to')"
      "eintr_loop f' t' (set_tinfo i' (Some 0) h2) = Some (-1, EAGAIN, h3)" for i' so' to' f' h3
    using that(1) abort [OF that(2)] by (simp add: do_io_def)
  moreover have "do_io_resume E t' a' timer p' now' i fd event to' f k' h2 = Some (Inl AssertFail)"
    if "tinfos h2 i = Some 0" "eintr_loop f t' (cancel_timer timer h2) = Some (-1, EAGAIN, h3)" for to' h3
    using that(1) abort [OF that(2)] by (cases timer) (simp_all add: do_io_resume_def cancel_timer_def)
  ultimately show ?thesis
    by blast
qed

theorem second_wait_aborts_witness:
  "\<exists>h1. do_io ex_env 1 0 7 0 0 5 READ SO_RCVTIMEO ex_again Return ex_hooks = Some (Inr (Waiting None, h1)) \<and>
     do_io ex_env 1 0 8 0 1 5 READ SO_RCVTIMEO ex_again Return (ex_hooks\<lparr>hk_io := hk_io h1\<rparr>) = Some (Inl AssertFail)"
proof -
  obtain h1 where w: "wait_event ex_env 1 0 7 0 0 5 READ (-1) Return (set_errno 1 EAGAIN (set_tinfo 0 (Some 0) ex_hooks)) =
      Inr (True, None, h1)" "io_self (hk_io h1) = 0"
    using ex_waiting [of "-1"] by auto
  have first: "do_io ex_env 1 0 7 0 0 5 READ SO_RCVTIMEO ex_again Return ex_hooks = Some (Inr (Waiting None, h1))"
    using w(1) by (simp add: do_io_def ex_route do_io_try_def ex_again_loop)
  have inv: "io_inv (\<lambda>k. k) (hk_io ex_hooks)"
    using ex_io_inv ex_hooks_ok(4) by simp
  have "io_runs (ep_ctl ex_env) ex_uc (hk_io h1) (hk_io (ex_hooks\<lparr>hk_io := hk_io h1\<rparr>))"
    by (simp add: io_runs_refl)
  moreover have "IOManager_GetThis ex_env 1 (ex_hooks\<lparr>hk_io := hk_io h1\<rparr>)"
    using w(2) by (simp add: IOManager_GetThis_def ex_env_ok)
  ultimately show ?thesis
    using second_wait_aborts [OF ex_env_ok(1) inv ex_env_ok(3,2) first] first ex_route(2) ex_again_loop by blast
qed

section \<open>Closing\<close>

lemma cancelAll_effect:
  assumes "epoll_spec ctl interest pollable" "io_inv interest io" "pollable fd" "ctx_of io fd = Some p"
    and fc_def: "fc = fc_heap io ! p"
    and "fc_events fc AND READ \<noteq> 0 \<longrightarrow> ev_scheduler (fc_read fc) = Some s"
      "fc_events fc AND WRITE \<noteq> 0 \<longrightarrow> ev_scheduler (fc_write fc) = Some s"
  shows "\<exists>b io'. cancelAll ctl 1 fd io = Inr (b, io') \<and> io_inv interest io' \<and>
             m_tasks (io_scheds io' s) = m_tasks (io_scheds io s) @
               (if fc_events fc AND READ \<noteq> 0 then [the (ctx_task (fc_read fc))] else []) @
               (if fc_events fc AND WRITE \<noteq> 0 then [the (ctx_task (fc_write fc))] else []) \<and>
             (\<forall>fd' ev. ev = READ \<or> ev = WRITE \<longrightarrow>
                registered io' fd' ev = (if fd' = fd then None else registered io fd' ev))"
proof (cases "fc_events fc = 0")
  case True
  have "ctx_ptr fd io = Inr p"
    using assms(4) by (auto simp: ctx_ptr_def ctx_of_def vec_at_def split: if_splits)
  then have "cancelAll ctl 1 fd io = Inr (False, io)"
    using True by (simp add: cancelAll_def fc_def)
  moreover have "registered io fd ev = None" for ev
    using True assms(4) by (simp add: registered_def fc_def)
  ultimately show ?thesis
    using True assms(2) by auto
next
  case False
  then show ?thesis
    using cancelAll_fires [OF assms(1-4) fc_def False assms(6,7)] by blast
qed

text \<open>
  C34. A hooked \<open>close\<close> of a descriptor with a context queues the tasks waiting for it, first the one
  for reading and then the one for writing, leaves nothing registered for it and other
  descriptors as they were, takes its context out of the table, and answers what the original
  \<open>close\<close> answers.
\<close>

theorem close_releases_waiters:
  assumes "epoll_spec (ep_ctl E) interest pollable" "io_inv interest (hk_io h)" "pollable fd" "write_rc E = 1"
    and "t_hooked h t" "IOManager_GetThis E t h" "fd_wf (hk_fds h)" "fd_lookup (hk_fds h) fd \<noteq> None"
    and "ctx_of (hk_io h) fd = Some p" and fc_def: "fc = fc_heap (hk_io h) ! p"
    and "fc_events fc AND READ \<noteq> 0 \<longrightarrow> ev_scheduler (fc_read fc) = Some s"
      "fc_events fc AND WRITE \<noteq> 0 \<longrightarrow> ev_scheduler (fc_write fc) = Some s"
  shows "\<exists>h'. close E t fd h = Inr (snd (close_f (so_ops E) (fd_os (hk_fds h)) fd), h') \<and>
           io_inv interest (hk_io h') \<and>
           m_tasks (io_scheds (hk_io h') s) = m_tasks (io_scheds (hk_io h) s) @
             (if fc_events fc AND READ \<noteq> 0 then [the (ctx_task (fc_read fc))] else []) @
             (if fc_events fc AND WRITE \<noteq> 0 then [the (ctx_task (fc_write fc))] else []) \<and>
           (\<forall>fd' ev. ev = READ \<or> ev = WRITE \<longrightarrow>
              registered (hk_io h') fd' ev = (if fd' = fd then None else registered (hk_io h) fd' ev)) \<and>
           fd_lookup (hk_fds h') = (fd_lookup (hk_fds h))(fd := None)"
proof -
  let ?io = "hk_io h"
  obtain b io' where io': "cancelAll (ep_ctl E) 1 fd ?io = Inr (b, io')" "io_inv interest io'"
    "m_tasks (io_scheds io' s) = m_tasks (io_scheds ?io s) @
        (if fc_events fc AND READ \<noteq> 0 then [the (ctx_task (fc_read fc))] else []) @
        (if fc_events fc AND WRITE \<noteq> 0 then [the (ctx_task (fc_write fc))] else [])"
    "\<forall>fd' ev. ev = READ \<or> ev = WRITE \<longrightarrow>
         registered io' fd' ev = (if fd' = fd then None else registered ?io fd' ev)"
    using cancelAll_effect [OF assms(1-3,9) fc_def assms(11,12)] by blast
  obtain q where q: "fd_lookup (hk_fds h) fd = Some q"
    using assms(8) by blast
  then have "0 \<le> fd"
    by (auto simp: fd_lookup_def split: if_splits)
  then obtain m' where m': "FdManager_del fd (hk_fds h) = Inr m'" "fd_lookup m' = (fd_lookup (hk_fds h))(fd := None)"
    "fd_os m' = fd_os (hk_fds h)"
    by (rule del_state [OF assms(7)])
  obtain kern rc where c: "close_f (so_ops E) (fd_os (hk_fds h)) fd = (kern, rc)"
    by fastforce
  have "close E t fd h = Inr (rc, set_os kern (h\<lparr>hk_io := io', hk_fds := m'\<rparr>))"
    using assms(4-6) fdt.get_there [OF q] io'(1) m'(1,3) c by (simp add: close_def)
  then show ?thesis
    using io'(2-4) m'(2) c by simp
qed

definition ex_hooks3 :: "(c_int \<Rightarrow> flags, c_int \<Rightarrow> (u32 \<times> nat) option) hooks" where
  "ex_hooks3 = ex_hooks\<lparr>hk_io := ex_io_read,
     hk_fds := \<lparr>ctx_heap = [ex_sock\<lparr>m_fd := 3\<rparr>], m_datas = (replicate 64 None)[3 := Some 0], fd_os = (\<lambda>_. 0)\<rparr>\<rparr>"

theorem close_releases_waiters_witness:
  "\<exists>h. close ex_env 1 3 ex_hooks3 = Inr (0, h) \<and> m_tasks (io_scheds (hk_io h) 0) = [ex_task] \<and>
       registered (hk_io h) 3 READ = None"
proof -
  have io: "hk_io ex_hooks3 = ex_io_read"
    by (simp add: ex_hooks3_def)
  have fds: "fd_wf (hk_fds ex_hooks3)" "fd_lookup (hk_fds ex_hooks3) 3 \<noteq> None"
    by (auto simp: ex_hooks3_def fd_wf_def fd_lookup_def nth_list_update split: if_splits)
  have "ctx_of ex_io_read 3 = Some 3" "IOManager_GetThis ex_env 1 ex_hooks3" "t_hooked ex_hooks3 1"
    by (simp_all add: ctx_of_def ex_io_read_def ex_io_def IOManager_GetThis_def ex_env_def ex_hooks_def ex_hooks3_def)
  moreover have task: "the (ctx_task (fc_read ex_ctx)) = ex_task" and ev: "fc_events ex_ctx = READ" "READ AND WRITE = 0"
    "READ AND READ \<noteq> 0" "ev_scheduler (fc_read ex_ctx) = Some 0"
    by (simp_all add: ctx_task_def ex_ctx_def ex_task_def READ_def WRITE_def)
  ultimately obtain h where h: "close ex_env 1 3 ex_hooks3 = Inr (snd (close_f (so_ops ex_env) (fd_os (hk_fds ex_hooks3)) 3), h)"
    "m_tasks (io_scheds (hk_io h) 0) = [ex_task]"
    "\<forall>fd' ev. ev = READ \<or> ev = WRITE \<longrightarrow>
       registered (hk_io h) fd' ev = (if fd' = 3 then None else registered ex_io_read fd' ev)"
    using close_releases_waiters [OF ex_env_ok(1) _ _ ex_env_ok(3) _ _ fds, of 1 3 ex_ctx 0] ex_io_read_inv ex_io_read_ctx
    unfolding io by auto
  moreover have "snd (close_f (so_ops ex_env) (fd_os (hk_fds ex_hooks3)) 3) = 0"
    by (simp add: ex_env_def ex_so_def)
  ultimately show ?thesis
    by (metis (full_types))
qed

section \<open>Closing on a thread without hooks\<close>

text \<open>
  A thread without hooks that closes a descriptor leaves its context in place. If a hooked thread
  then gets the number again for a new socket, \<open>socket\<close> finds the old context and does not make another:
  the new socket stays blocking in the system while its context says it is not, with the timeouts
  and the mode that were set for the old one.
\<close>

lemma unhooked_close_keeps_context:
  assumes "\<not> t_hooked h t" "fd_ctx (hk_fds h) fd = Some c" "m_sysNonblock c"
    and "close_f (so_ops E) (fd_os (hk_fds h)) fd = (k1, 0)"
    and "socket_f (so_ops E) k1 domain type protocol = (k2, fd)" "fcntl_getfl (base_ops (so_ops E)) k2 fd AND O_NONBLOCK = 0"
  shows "\<exists>h1 m. close E t fd h = Inr (0, h1) \<and>
           socket_call (so_ops E) True domain type protocol (hk_fds h1) = Inr (fd, m) \<and>
           fd_ctx m fd = Some c \<and> m_sysNonblock c \<and>
           fcntl_getfl (base_ops (so_ops E)) (fd_os m) fd AND O_NONBLOCK = 0"
proof -
  obtain p where p: "fd_lookup (hk_fds h) fd = Some p" "c = ctx_heap (hk_fds h) ! p"
    using assms(2) by (auto simp: fd_ctx_def)
  let ?h1 = "set_os k1 h" and ?m = "(hk_fds h)\<lparr>fd_os := k2\<rparr>"
  have same: "fd_lookup ?m fd = Some p" and nonneg: "fd \<noteq> -1"
    using p(1) by (auto simp: fd_lookup_def split: if_splits)
  have "close E t fd h = Inr (0, ?h1)"
    using assms(1,4) by (simp add: close_def)
  moreover have "socket_call (so_ops E) True domain type protocol (hk_fds ?h1) = Inr (fd, ?m)"
    using assms(5) nonneg fdt.get_there [OF same, of "base_ops (so_ops E)" True] by (simp add: socket_call_def)
  moreover have "fd_ctx ?m fd = Some c"
    using same p(2) by (simp add: fd_ctx_def)
  ultimately show ?thesis
    using assms(3,6) by (intro exI [of _ ?h1] exI [of _ ?m]) simp
qed

end
