(* ===== verification/EVA_Log.thy ===== *)
theory EVA_Log
  imports EVA_Prelude
begin

text \<open>
  \<open>src/src/log.h\<close> and \<open>src/src/log.cpp\<close>: levels, the pattern parser of \<open>LogFormatter\<close>, the items,
  appenders, loggers and the manager. Appenders and loggers are objects shared through pointers and
  live in heaps; a formatter never changes and is its list of items. \<open>strftime\<close> on the local time is
  a parameter. The mutexes make every operation atomic and are left out.
\<close>

section \<open>Levels\<close>

datatype Level = UNKNOW | DEBUG | INFO | WARN | ERROR | FATAL

primrec level_num :: "Level \<Rightarrow> nat" where
  "level_num UNKNOW = 0" | "level_num DEBUG = 1" | "level_num INFO = 2"
| "level_num WARN = 3" | "level_num ERROR = 4" | "level_num FATAL = 5"

lemma level_num_inj: "level_num l = level_num m \<longleftrightarrow> l = m"
  by (cases l; cases m) simp_all

instantiation Level :: linorder
begin

definition less_eq_Level :: "Level \<Rightarrow> Level \<Rightarrow> bool" where
  "l \<le> m \<longleftrightarrow> level_num l \<le> level_num m"

definition less_Level :: "Level \<Rightarrow> Level \<Rightarrow> bool" where
  "l < m \<longleftrightarrow> level_num l < level_num m"

instance
  by standard (auto simp: less_eq_Level_def less_Level_def level_num_inj)

end

primrec LogLevel_toString :: "Level \<Rightarrow> string" where
  "LogLevel_toString UNKNOW = ''UNKNOW''" | "LogLevel_toString DEBUG = ''DEBUG''"
| "LogLevel_toString INFO = ''INFO''" | "LogLevel_toString WARN = ''WARN''"
| "LogLevel_toString ERROR = ''ERROR''" | "LogLevel_toString FATAL = ''FATAL''"

section \<open>Events\<close>

text \<open>
  \<open>m_file\<close> points to the start of a character array, terminator included; \<open>m_logger\<close> is an address.
\<close>

record LogEvent =
  m_file :: "char list"
  m_line :: int
  m_time :: u64
  m_level :: Level
  m_thread_id :: u32
  m_fiber_id :: u64
  m_thread_name :: string
  m_ss :: string
  m_logger :: nat

definition LogEvent_ctor ::
  "nat \<Rightarrow> char list \<Rightarrow> int \<Rightarrow> u64 \<Rightarrow> Level \<Rightarrow> u32 \<Rightarrow> u64 \<Rightarrow> string \<Rightarrow> string \<Rightarrow> LogEvent" where
  "LogEvent_ctor logger file line time level thread_id fiber_id thread_name message =
     \<lparr>m_file = file, m_line = line, m_time = time, m_level = level, m_thread_id = thread_id,
      m_fiber_id = fiber_id, m_thread_name = thread_name, m_ss = [] @ message, m_logger = logger\<rparr>"

section \<open>Items\<close>

text \<open>What \<open>operator<<\<close> writes for integers.\<close>

fun digits :: "nat \<Rightarrow> string" where
  "digits n = (if n < 10 then [char_of (48 + n)] else digits (n div 10) @ [char_of (48 + n mod 10)])"

declare digits.simps [simp del]

definition show_int :: "int \<Rightarrow> string" where
  "show_int i = (if i < 0 then CHR ''-'' # digits (nat (- i)) else digits (nat i))"

text \<open>\<open>atoi\<close>: white space, a sign, digits.\<close>

fun atoi_digits :: "int \<Rightarrow> string \<Rightarrow> int" where
  "atoi_digits n [] = n"
| "atoi_digits n (c # cs) =
     (let d = int (of_char c) - 48 in if 0 \<le> d \<and> d < 10 then atoi_digits (n * 10 + d) cs else n)"

definition is_space :: "char \<Rightarrow> bool" where
  "is_space c \<longleftrightarrow> c = CHR '' '' \<or> (9 \<le> (of_char c :: nat) \<and> (of_char c :: nat) \<le> 13)"

definition atoi :: "string \<Rightarrow> int" where
  "atoi s =
     (case dropWhile is_space s of
        [] \<Rightarrow> 0
      | c # cs \<Rightarrow>
          if c = CHR ''-'' then - atoi_digits 0 cs
          else if c = CHR ''+'' then atoi_digits 0 cs
          else atoi_digits 0 (c # cs))"

datatype Item =
    DateLogItem string
  | MessageLogItem
  | LineLogItem
  | NameLogItem
  | TabLogItem
  | NewLineLogItem
  | LevelLogItem
  | FileLogItem string
  | ThreadIdLogItem
  | ThreadNameLogItem
  | FiberIdLogItem
  | StringLogItem string

definition default_date :: string where
  "default_date = ''%Y-%m-%d %H:%M:%S''"

definition DateLogItem_ctor :: "string \<Rightarrow> Item" where
  "DateLogItem_ctor pattern = DateLogItem (if pattern = [] then default_date else pattern)"

text \<open>
  The loop of \<open>FileLogItem::format\<close>: the pointer is the rest of the array, and reading where nothing
  is left is outside it.
\<close>

fun file_skip :: "char list \<Rightarrow> int \<Rightarrow> char list result" where
  "file_skip [] depth = Inl OutOfBounds"
| "file_skip (c # cs) depth =
     (if c \<noteq> CHR 0x0A \<and> depth \<noteq> 0 then file_skip cs (if c = CHR ''/'' then depth - 1 else depth)
      else Inr (c # cs))"

text \<open>What \<open>os << it\<close> writes for a pointer to characters: up to the terminator.\<close>

fun cstr :: "char list \<Rightarrow> string result" where
  "cstr [] = Inl OutOfBounds"
| "cstr (c # cs) = (if c = CHR 0x00 then Inr [] else res_bind (cstr cs) (\<lambda>s. Inr (c # s)))"

definition FileLogItem_format :: "string \<Rightarrow> LogEvent \<Rightarrow> string result" where
  "FileLogItem_format pattern event =
     res_bind (file_skip (m_file event) (atoi pattern)) cstr"

text \<open>
  \<open>Item::format\<close>, as the text it writes. \<open>strftime\<close> takes the pattern and the event's time; \<open>names\<close>
  is the name of the logger at an address.
\<close>

primrec Item_format :: "(string \<Rightarrow> u64 \<Rightarrow> string) \<Rightarrow> (nat \<Rightarrow> string) \<Rightarrow> Item \<Rightarrow> LogEvent \<Rightarrow> string result" where
  "Item_format strftime names (DateLogItem pattern) event = Inr (strftime pattern (m_time event))"
| "Item_format strftime names MessageLogItem event = Inr (m_ss event)"
| "Item_format strftime names LineLogItem event = Inr (show_int (m_line event))"
| "Item_format strftime names NameLogItem event = Inr (names (m_logger event))"
| "Item_format strftime names TabLogItem event = Inr [CHR 0x09]"
| "Item_format strftime names NewLineLogItem event = Inr [CHR 0x0A]"
| "Item_format strftime names LevelLogItem event = Inr (LogLevel_toString (m_level event))"
| "Item_format strftime names (FileLogItem pattern) event = FileLogItem_format pattern event"
| "Item_format strftime names ThreadIdLogItem event = Inr (show_int (uint (m_thread_id event)))"
| "Item_format strftime names ThreadNameLogItem event = Inr (m_thread_name event)"
| "Item_format strftime names FiberIdLogItem event = Inr (show_int (uint (m_fiber_id event)))"
| "Item_format strftime names (StringLogItem pattern) event = Inr pattern"

text \<open>
  Both overloads of \<open>LogFormatter::format\<close>: one collects into a string stream, the other writes
  every item to the stream it is given.
\<close>

fun format_loop ::
  "(string \<Rightarrow> u64 \<Rightarrow> string) \<Rightarrow> (nat \<Rightarrow> string) \<Rightarrow> string \<Rightarrow> Item list \<Rightarrow> LogEvent \<Rightarrow> string result" where
  "format_loop strftime names os [] event = Inr os"
| "format_loop strftime names os (item # items) event =
     res_bind (Item_format strftime names item event) (\<lambda>s. format_loop strftime names (os @ s) items event)"

definition format_string ::
  "(string \<Rightarrow> u64 \<Rightarrow> string) \<Rightarrow> (nat \<Rightarrow> string) \<Rightarrow> Item list \<Rightarrow> LogEvent \<Rightarrow> string result" where
  "format_string strftime names items event = format_loop strftime names [] items event"

definition format_os ::
  "(string \<Rightarrow> u64 \<Rightarrow> string) \<Rightarrow> (nat \<Rightarrow> string) \<Rightarrow> string \<Rightarrow> Item list \<Rightarrow> LogEvent \<Rightarrow> string result" where
  "format_os strftime names os items event = format_loop strftime names os items event"

section \<open>The pattern parser\<close>

definition FORMATS :: "char \<Rightarrow> (string \<Rightarrow> Item) option" where
  "FORMATS c =
     (if c = CHR ''m'' then Some (\<lambda>_. MessageLogItem)
      else if c = CHR ''p'' then Some (\<lambda>_. LevelLogItem)
      else if c = CHR ''c'' then Some (\<lambda>_. NameLogItem)
      else if c = CHR ''t'' then Some (\<lambda>_. ThreadIdLogItem)
      else if c = CHR ''n'' then Some (\<lambda>_. NewLineLogItem)
      else if c = CHR ''f'' then Some FileLogItem
      else if c = CHR ''l'' then Some (\<lambda>_. LineLogItem)
      else if c = CHR ''T'' then Some (\<lambda>_. TabLogItem)
      else if c = CHR ''d'' then Some DateLogItem_ctor
      else if c = CHR ''N'' then Some (\<lambda>_. ThreadNameLogItem)
      else if c = CHR ''F'' then Some (\<lambda>_. FiberIdLogItem)
      else None)"

text \<open>What the parser prints on \<open>std::cout\<close>.\<close>

datatype parse_error = Double_percent | Open_brace | Invalid_item char

text \<open>The inner loop: the text up to the closing brace, whether there is one, and what follows.\<close>

fun scan_fmt :: "string \<Rightarrow> string \<times> bool \<times> string" where
  "scan_fmt [] = ([], False, [])"
| "scan_fmt (c # cs) =
     (if c = CHR ''}'' then ([], True, cs)
      else case scan_fmt cs of (fmt, fmt_found, rest) \<Rightarrow> (c # fmt, fmt_found, rest))"

lemma scan_fmt_length: "scan_fmt cs = (fmt, b, rest) \<Longrightarrow> length rest \<le> length cs"
  by (induction cs arbitrary: fmt b rest) (force split: if_splits prod.splits)+

text \<open>
  The part after a known key: the braces, if they follow. \<open>fmt.clear()\<close> resets the stream's state
  flags and leaves its text, so an open brace keeps what was read.
\<close>

definition read_fmt :: "string \<Rightarrow> string \<times> parse_error list \<times> string" where
  "read_fmt cs =
     (case cs of
        [] \<Rightarrow> ([], [], [])
      | c # r \<Rightarrow>
          if c = CHR ''{''
          then (case scan_fmt r of (fmt, fmt_found, rest) \<Rightarrow> (fmt, if fmt_found then [] else [Open_brace], rest))
          else ([], [], cs))"

lemma read_fmt_length: "read_fmt cs = (fmt, errs, rest) \<Longrightarrow> length rest \<le> length cs"
  by (auto simp: read_fmt_def split: list.splits if_splits prod.splits dest!: scan_fmt_length)

text \<open>The loop over the pattern: the items pushed and the errors printed.\<close>

function items_loop :: "bool \<Rightarrow> string \<Rightarrow> Item list \<times> parse_error list" where
  "items_loop found [] = ([], [])"
| "items_loop found (c # cs) =
     (if c = CHR ''%'' then (if found then ([], [Double_percent]) else items_loop True cs)
      else if found
      then (case FORMATS c of
              None \<Rightarrow> ([], [Invalid_item c])
            | Some mk \<Rightarrow>
                (case read_fmt cs of (fmt, errs, rest) \<Rightarrow>
                   (case items_loop False rest of (items, errs') \<Rightarrow> (mk fmt # items, errs @ errs'))))
      else (case items_loop False cs of (items, errs) \<Rightarrow> (StringLogItem [c] # items, errs)))"
  by pat_completeness auto

termination
  by (relation "measure (\<lambda>(found, cs). length cs)")
    (auto dest: read_fmt_length [OF sym] simp: le_imp_less_Suc)

declare items_loop.simps(2) [simp del]

definition LogFormatter_ctor :: "string \<Rightarrow> Item list \<times> parse_error list" where
  "LogFormatter_ctor pattern = items_loop False pattern"

definition DEFAULT_PATTERN :: string where
  "DEFAULT_PATTERN = ''%d{%Y-%m-%d %a %H:%M:%S}%T[%p]%T[%c]%T%t%T%N%T%F%T%f{5}%T%l%T%m%n''"

section \<open>Appenders, loggers and the manager\<close>

datatype sink = Stdout | Stream | File string

record LogAppender =
  ap_sink :: sink
  ap_formatter :: "Item list option"
  ap_level :: Level
  ap_ss :: string  \<comment> \<open>\<open>m_ss\<close> of a \<open>StreamLogAppender\<close>\<close>

record Logger =
  lg_name :: string
  lg_level :: Level
  lg_formatter :: "Item list"
  lg_appenders :: "nat list"

text \<open>\<open>files\<close> is the contents of the files and \<open>can_open\<close> whether a file can be opened for appending.\<close>

record LogSys =
  strftime_fn :: "string \<Rightarrow> u64 \<Rightarrow> string"
  ap_heap :: "LogAppender list"
  lg_heap :: "Logger list"
  m_loggers :: "string \<rightharpoonup> nat"
  m_root_logger :: nat
  cout :: string
  files :: "string \<Rightarrow> string"
  can_open :: "string \<Rightarrow> bool"

abbreviation names_of :: "LogSys \<Rightarrow> nat \<Rightarrow> string" where
  "names_of s p \<equiv> lg_name (lg_heap s ! p)"

definition LogAppender_new :: "sink \<Rightarrow> LogAppender" where
  "LogAppender_new k = \<lparr>ap_sink = k, ap_formatter = None, ap_level = DEBUG, ap_ss = []\<rparr>"

text \<open>Writing to a file stream that is not open sets its error flag and writes nothing.\<close>

definition appender_log :: "nat \<Rightarrow> LogEvent \<Rightarrow> LogSys \<Rightarrow> LogSys result" where
  "appender_log p event s =
     (let ap = ap_heap s ! p in
      if m_level event \<ge> ap_level ap
      then (case ap_formatter ap of
              None \<Rightarrow> Inl NullDeref
            | Some items \<Rightarrow>
                (case ap_sink ap of
                   Stdout \<Rightarrow>
                     res_bind (format_os (strftime_fn s) (names_of s) (cout s) items event) (\<lambda>os. Inr (s\<lparr>cout := os\<rparr>))
                 | Stream \<Rightarrow>
                     res_bind (format_string (strftime_fn s) (names_of s) items event) (\<lambda>text.
                       Inr (s\<lparr>ap_heap := (ap_heap s)[p := ap\<lparr>ap_ss := ap_ss ap @ text\<rparr>]\<rparr>))
                 | File fname \<Rightarrow>
                     res_bind (format_os (strftime_fn s) (names_of s) (files s fname) items event) (\<lambda>os.
                       Inr (if can_open s fname then s\<lparr>files := (files s)(fname := os)\<rparr> else s))))
      else Inr s)"

text \<open>\<open>reopen()\<close>, also called by the constructor: the file is opened for appending and keeps its text.\<close>

definition FileLogAppender_reopen :: "nat \<Rightarrow> LogSys \<Rightarrow> bool" where
  "FileLogAppender_reopen p s = (case ap_sink (ap_heap s ! p) of File fname \<Rightarrow> can_open s fname | _ \<Rightarrow> False)"

text \<open>\<open>m_ss.clear()\<close> resets the state flags of the stream only.\<close>

definition StreamLogAppender_flush :: "nat \<Rightarrow> LogSys \<Rightarrow> string \<times> LogSys" where
  "StreamLogAppender_flush p s = (ap_ss (ap_heap s ! p), s)"

fun log_loop :: "nat list \<Rightarrow> LogEvent \<Rightarrow> LogSys \<Rightarrow> LogSys result" where
  "log_loop [] event s = Inr s"
| "log_loop (p # ps) event s = res_bind (appender_log p event s) (log_loop ps event)"

definition Logger_log :: "nat \<Rightarrow> Level \<Rightarrow> LogEvent \<Rightarrow> LogSys \<Rightarrow> LogSys result" where
  "Logger_log l level event s =
     (if level \<ge> lg_level (lg_heap s ! l) then log_loop (lg_appenders (lg_heap s ! l)) event s else Inr s)"

abbreviation upd_logger :: "nat \<Rightarrow> (Logger \<Rightarrow> Logger) \<Rightarrow> LogSys \<Rightarrow> LogSys" where
  "upd_logger l f s \<equiv> s\<lparr>lg_heap := (lg_heap s)[l := f (lg_heap s ! l)]\<rparr>"

definition addLogAppender :: "nat \<Rightarrow> nat \<Rightarrow> LogSys \<Rightarrow> LogSys" where
  "addLogAppender l p s =
     (let s1 = upd_logger l (\<lambda>lg. lg\<lparr>lg_appenders := lg_appenders lg @ [p]\<rparr>) s;
          ap = ap_heap s1 ! p
      in if ap_formatter ap = None
         then s1\<lparr>ap_heap := (ap_heap s1)[p := ap\<lparr>ap_formatter := Some (lg_formatter (lg_heap s1 ! l))\<rparr>]\<rparr>
         else s1)"

definition delLogAppender :: "nat \<Rightarrow> nat \<Rightarrow> LogSys \<Rightarrow> LogSys" where
  "delLogAppender l p s = upd_logger l (\<lambda>lg. lg\<lparr>lg_appenders := filter (\<lambda>q. q \<noteq> p) (lg_appenders lg)\<rparr>) s"

definition clearLogAppenders :: "nat \<Rightarrow> LogSys \<Rightarrow> LogSys" where
  "clearLogAppenders l s = upd_logger l (\<lambda>lg. lg\<lparr>lg_appenders := []\<rparr>) s"

definition Logger_setLevel :: "nat \<Rightarrow> Level \<Rightarrow> LogSys \<Rightarrow> LogSys" where
  "Logger_setLevel l level s = upd_logger l (\<lambda>lg. lg\<lparr>lg_level := level\<rparr>) s"

definition Logger_setFormatter :: "nat \<Rightarrow> string \<Rightarrow> LogSys \<Rightarrow> LogSys" where
  "Logger_setFormatter l pattern s = upd_logger l (\<lambda>lg. lg\<lparr>lg_formatter := fst (LogFormatter_ctor pattern)\<rparr>) s"

definition appender_setFormatter :: "nat \<Rightarrow> string \<Rightarrow> LogSys \<Rightarrow> LogSys" where
  "appender_setFormatter p pattern s =
     s\<lparr>ap_heap := (ap_heap s)[p := (ap_heap s ! p)\<lparr>ap_formatter := Some (fst (LogFormatter_ctor pattern))\<rparr>]\<rparr>"

definition appender_setLevel :: "nat \<Rightarrow> Level \<Rightarrow> LogSys \<Rightarrow> LogSys" where
  "appender_setLevel p level s = s\<lparr>ap_heap := (ap_heap s)[p := (ap_heap s ! p)\<lparr>ap_level := level\<rparr>]\<rparr>"

definition Logger_ctor :: "string \<Rightarrow> Level \<Rightarrow> string \<Rightarrow> Logger" where
  "Logger_ctor name level pattern =
     \<lparr>lg_name = name, lg_level = level, lg_formatter = fst (LogFormatter_ctor pattern), lg_appenders = []\<rparr>"

text \<open>\<open>make_shared<Logger>(name)\<close> and \<open>new StdoutLogAppender\<close>, added to it.\<close>

definition new_logger :: "string \<Rightarrow> LogSys \<Rightarrow> nat \<times> LogSys" where
  "new_logger name s =
     (let l = length (lg_heap s);
          p = length (ap_heap s);
          s1 = s\<lparr>lg_heap := lg_heap s @ [Logger_ctor name DEBUG DEFAULT_PATTERN],
                 ap_heap := ap_heap s @ [LogAppender_new Stdout]\<rparr>
      in (l, addLogAppender l p s1))"

definition LoggerManager_ctor ::
  "(string \<Rightarrow> u64 \<Rightarrow> string) \<Rightarrow> (string \<Rightarrow> string) \<Rightarrow> (string \<Rightarrow> bool) \<Rightarrow> LogSys" where
  "LoggerManager_ctor strftime fs can =
     (let s0 = \<lparr>strftime_fn = strftime, ap_heap = [], lg_heap = [], m_loggers = Map.empty, m_root_logger = 0,
                cout = [], files = fs, can_open = can\<rparr>
      in case new_logger ''root'' s0 of
           (l, s) \<Rightarrow> s\<lparr>m_root_logger := l, m_loggers := (m_loggers s)(names_of s l \<mapsto> l)\<rparr>)"

definition getLogger :: "string \<Rightarrow> LogSys \<Rightarrow> nat \<times> LogSys" where
  "getLogger name s =
     (case m_loggers s name of
        Some l \<Rightarrow> (l, s)
      | None \<Rightarrow> (case new_logger name s of (l, s1) \<Rightarrow> (l, s1\<lparr>m_loggers := (m_loggers s1)(name \<mapsto> l)\<rparr>)))"

text \<open>
  A logging statement \<open>EVA_LOG_LEVEL(logger, level) << text\<close>: the event is built only if the level
  passes, and the wrapper's destructor logs it when the statement ends.
\<close>

definition LogWrapper_dtor :: "nat \<Rightarrow> LogEvent \<Rightarrow> LogSys \<Rightarrow> LogSys result" where
  "LogWrapper_dtor l event s = Logger_log l (m_level event) event s"

definition EVA_LOG_LEVEL ::
  "nat \<Rightarrow> Level \<Rightarrow> char list \<Rightarrow> int \<Rightarrow> u64 \<Rightarrow> u32 \<Rightarrow> u64 \<Rightarrow> string \<Rightarrow> string \<Rightarrow> LogSys \<Rightarrow> LogSys result" where
  "EVA_LOG_LEVEL l level file line time thread_id fiber_id thread_name text s =
     (if lg_level (lg_heap s ! l) \<le> level
      then let event = LogEvent_ctor l file line time level thread_id fiber_id thread_name [];
               event' = event\<lparr>m_ss := m_ss event @ text\<rparr>
           in LogWrapper_dtor l event' s
      else Inr s)"

definition EVA_LOG_DEBUG :: "nat \<Rightarrow> char list \<Rightarrow> int \<Rightarrow> u64 \<Rightarrow> u32 \<Rightarrow> u64 \<Rightarrow> string \<Rightarrow> string \<Rightarrow> LogSys \<Rightarrow> LogSys result" where
  "EVA_LOG_DEBUG l = EVA_LOG_LEVEL l DEBUG"

definition EVA_LOG_INFO :: "nat \<Rightarrow> char list \<Rightarrow> int \<Rightarrow> u64 \<Rightarrow> u32 \<Rightarrow> u64 \<Rightarrow> string \<Rightarrow> string \<Rightarrow> LogSys \<Rightarrow> LogSys result" where
  "EVA_LOG_INFO l = EVA_LOG_LEVEL l INFO"

definition EVA_LOG_WARN :: "nat \<Rightarrow> char list \<Rightarrow> int \<Rightarrow> u64 \<Rightarrow> u32 \<Rightarrow> u64 \<Rightarrow> string \<Rightarrow> string \<Rightarrow> LogSys \<Rightarrow> LogSys result" where
  "EVA_LOG_WARN l = EVA_LOG_LEVEL l WARN"

definition EVA_LOG_ERROR :: "nat \<Rightarrow> char list \<Rightarrow> int \<Rightarrow> u64 \<Rightarrow> u32 \<Rightarrow> u64 \<Rightarrow> string \<Rightarrow> string \<Rightarrow> LogSys \<Rightarrow> LogSys result" where
  "EVA_LOG_ERROR l = EVA_LOG_LEVEL l ERROR"

definition EVA_LOG_FATAL :: "nat \<Rightarrow> char list \<Rightarrow> int \<Rightarrow> u64 \<Rightarrow> u32 \<Rightarrow> u64 \<Rightarrow> string \<Rightarrow> string \<Rightarrow> LogSys \<Rightarrow> LogSys result" where
  "EVA_LOG_FATAL l = EVA_LOG_LEVEL l FATAL"

definition EVA_ROOT_LOGGER :: "LogSys \<Rightarrow> nat" where
  "EVA_ROOT_LOGGER s = m_root_logger s"

text \<open>The other way to log: an event made by a macro, given to the method of a level.\<close>

definition EVA_LOG_EVENT :: "nat \<Rightarrow> Level \<Rightarrow> char list \<Rightarrow> int \<Rightarrow> u64 \<Rightarrow> string \<Rightarrow> string \<Rightarrow> LogEvent" where
  "EVA_LOG_EVENT l level file line time thread_name message = LogEvent_ctor l file line time level 0 0 thread_name message"

definition Logger_debug :: "nat \<Rightarrow> LogEvent \<Rightarrow> LogSys \<Rightarrow> LogSys result" where
  "Logger_debug l event s = Logger_log l DEBUG event s"

definition Logger_info :: "nat \<Rightarrow> LogEvent \<Rightarrow> LogSys \<Rightarrow> LogSys result" where
  "Logger_info l event s = Logger_log l INFO event s"

definition Logger_warn :: "nat \<Rightarrow> LogEvent \<Rightarrow> LogSys \<Rightarrow> LogSys result" where
  "Logger_warn l event s = Logger_log l WARN event s"

definition Logger_error :: "nat \<Rightarrow> LogEvent \<Rightarrow> LogSys \<Rightarrow> LogSys result" where
  "Logger_error l event s = Logger_log l ERROR event s"

definition Logger_fatal :: "nat \<Rightarrow> LogEvent \<Rightarrow> LogSys \<Rightarrow> LogSys result" where
  "Logger_fatal l event s = Logger_log l FATAL event s"

section \<open>Patterns\<close>

text \<open>A pattern for every item, always with braces where the item has a key.\<close>

fun item_pattern :: "Item \<Rightarrow> string" where
  "item_pattern (DateLogItem f) = ''%d{'' @ f @ ''}''"
| "item_pattern MessageLogItem = ''%m{}''"
| "item_pattern LineLogItem = ''%l{}''"
| "item_pattern NameLogItem = ''%c{}''"
| "item_pattern TabLogItem = ''%T{}''"
| "item_pattern NewLineLogItem = ''%n{}''"
| "item_pattern LevelLogItem = ''%p{}''"
| "item_pattern (FileLogItem f) = ''%f{'' @ f @ ''}''"
| "item_pattern ThreadIdLogItem = ''%t{}''"
| "item_pattern ThreadNameLogItem = ''%N{}''"
| "item_pattern FiberIdLogItem = ''%F{}''"
| "item_pattern (StringLogItem t) = t"

fun item_ok :: "Item \<Rightarrow> bool" where
  "item_ok (DateLogItem f) \<longleftrightarrow> f \<noteq> [] \<and> CHR ''}'' \<notin> set f"
| "item_ok (FileLogItem f) \<longleftrightarrow> CHR ''}'' \<notin> set f"
| "item_ok (StringLogItem t) \<longleftrightarrow> (\<exists>c. t = [c] \<and> c \<noteq> CHR ''%'')"
| "item_ok _ \<longleftrightarrow> True"

lemma scan_fmt_close: "CHR ''}'' \<notin> set f \<Longrightarrow> scan_fmt (f @ CHR ''}'' # cs) = (f, True, cs)"
  by (induction f) auto

lemma scan_fmt_text: "scan_fmt cs = (f, b, rest) \<Longrightarrow> CHR ''}'' \<notin> set f"
  by (induction cs arbitrary: f) (auto split: if_splits prod.splits)

lemma read_fmt_close: "CHR ''}'' \<notin> set f \<Longrightarrow> read_fmt (CHR ''{'' # f @ CHR ''}'' # cs) = (f, [], cs)"
  by (simp add: read_fmt_def scan_fmt_close)

lemma read_fmt_text: "read_fmt cs = (f, errs, rest) \<Longrightarrow> CHR ''}'' \<notin> set f"
  by (auto simp: read_fmt_def split: list.splits if_splits prod.splits dest: scan_fmt_text)

lemma items_loop_item:
  assumes "item_ok it"
  shows "items_loop False (item_pattern it @ cs) = (case items_loop False cs of (items, errs) \<Rightarrow> (it # items, errs))"
  using assms read_fmt_close [of _ cs] read_fmt_close [of "[]" cs]
  by (cases it) (auto simp: items_loop.simps(2) FORMATS_def DateLogItem_ctor_def split: prod.splits)

lemma FORMATS_ok: "FORMATS c = Some mk \<Longrightarrow> CHR ''}'' \<notin> set f \<Longrightarrow> item_ok (mk f)"
  by (auto simp: FORMATS_def DateLogItem_ctor_def default_date_def split: if_splits)

lemma items_loop_ok: "it \<in> set (fst (items_loop found cs)) \<Longrightarrow> item_ok it"
proof (induction found cs rule: items_loop.induct)
  case (2 found c cs)
  then show ?case
    by (auto simp: items_loop.simps(2) split: if_splits option.splits prod.splits
        dest: FORMATS_ok read_fmt_text)
qed simp

lemma pattern_of_items:
  assumes "\<forall>it \<in> set items. item_ok it"
  shows "LogFormatter_ctor (concat (map item_pattern items)) = (items, [])"
proof -
  have "items_loop False (concat (map item_pattern items)) = (items, [])"
    using assms by (induction items) (auto simp: items_loop_item)
  then show ?thesis
    by (simp add: LogFormatter_ctor_def)
qed

text \<open>
  C28. Patterns and items: every list of items with well-formed arguments has a pattern that parses
  to it without a complaint, and the items of any pattern, erroneous ones included, are such a
  list, so writing them out and parsing again gives them back. In particular no pattern writes a
  percent sign of its own.
\<close>

theorem pattern_roundtrip:
  "((\<forall>it \<in> set items. item_ok it) \<longrightarrow> LogFormatter_ctor (concat (map item_pattern items)) = (items, [])) \<and>
   LogFormatter_ctor (concat (map item_pattern (fst (LogFormatter_ctor pattern)))) = (fst (LogFormatter_ctor pattern), []) \<and>
   StringLogItem ''%'' \<notin> set (fst (LogFormatter_ctor pattern))"
proof -
  have ok: "\<forall>it \<in> set (fst (LogFormatter_ctor pattern)). item_ok it"
    using items_loop_ok by (auto simp: LogFormatter_ctor_def)
  then have "StringLogItem ''%'' \<notin> set (fst (LogFormatter_ctor pattern))"
    by fastforce
  then show ?thesis
    using ok pattern_of_items by blast
qed

theorem pattern_roundtrip_witness:
  "LogFormatter_ctor (concat (map item_pattern [LevelLogItem, StringLogItem ''{'', FileLogItem ''5''])) =
     ([LevelLogItem, StringLogItem ''{'', FileLogItem ''5''], [])"
  using pattern_roundtrip [of "[LevelLogItem, StringLogItem ''{'', FileLogItem ''5'']" "[]"] by simp

section \<open>File names\<close>

text \<open>The path after its first \<open>n\<close> slashes.\<close>

primrec drop_dirs :: "nat \<Rightarrow> string \<Rightarrow> string" where
  "drop_dirs 0 path = path"
| "drop_dirs (Suc n) path = drop_dirs n (tl (dropWhile (\<lambda>c. c \<noteq> CHR ''/'') path))"

abbreviation slashes :: "string \<Rightarrow> nat" where
  "slashes path \<equiv> length (filter (\<lambda>c. c = CHR ''/'') path)"

lemma file_skip_path:
  assumes "CHR 0x0A \<notin> set path"
  shows "file_skip (path @ [CHR 0x00]) d =
    (if 0 \<le> d \<and> d \<le> int (slashes path) then Inr (drop_dirs (nat d) path @ [CHR 0x00]) else Inl OutOfBounds)"
  using assms
proof (induction path arbitrary: d)
  case (Cons c path)
  show ?case
  proof (cases "d = 0")
    case False
    define d' where "d' = (if c = CHR ''/'' then d - 1 else d)"
    have "file_skip ((c # path) @ [CHR 0x00]) d = file_skip (path @ [CHR 0x00]) d'"
      using Cons.prems False by (auto simp: d'_def)
    also have "\<dots> = (if 0 \<le> d' \<and> d' \<le> int (slashes path) then Inr (drop_dirs (nat d') path @ [CHR 0x00]) else Inl OutOfBounds)"
      using Cons.IH [of d'] Cons.prems by simp
    finally have skip: "file_skip ((c # path) @ [CHR 0x00]) d =
        (if 0 \<le> d' \<and> d' \<le> int (slashes path) then Inr (drop_dirs (nat d') path @ [CHR 0x00]) else Inl OutOfBounds)" .
    have range: "0 \<le> d' \<and> d' \<le> int (slashes path) \<longleftrightarrow> 0 \<le> d \<and> d \<le> int (slashes (c # path))"
      using False by (auto simp: d'_def)
    have "drop_dirs (nat d') path = drop_dirs (nat d) (c # path)" if "0 \<le> d"
    proof -
      have "nat d = Suc (nat (d - 1))"
        using that False by simp
      then show ?thesis
        by (simp add: d'_def)
    qed
    then show ?thesis
      unfolding skip range by (cases "0 \<le> d \<and> d \<le> int (slashes (c # path))") (simp_all only: if_True if_False)
  qed simp
qed auto

lemma cstr_path: "CHR 0x00 \<notin> set path \<Longrightarrow> cstr (path @ [CHR 0x00]) = Inr path"
  by (induction path) auto

lemma set_drop_dirs: "set (drop_dirs n path) \<subseteq> set path"
proof (induction n arbitrary: path)
  case (Suc n)
  have "x \<in> set path" if "x \<in> set (tl (dropWhile (\<lambda>c. c \<noteq> CHR ''/'') path))" for x
    using that set_dropWhileD [of x "\<lambda>c. c \<noteq> CHR ''/''" path]
    by (cases "dropWhile (\<lambda>c. c \<noteq> CHR ''/'') path") simp_all
  then show ?case
    using Suc [of "tl (dropWhile (\<lambda>c. c \<noteq> CHR ''/'') path)"] by auto
qed simp

text \<open>
  \<open>%f{n}\<close> writes the file name without its first \<open>n\<close> directories as long as it has that many. The
  loop looks for a line feed instead of the terminator, so with more directories to drop than the
  name has, or a negative number, it reads past the end of the array. The default pattern asks for
  five.
\<close>

lemma file_item_depth:
  assumes "CHR 0x0A \<notin> set path" "CHR 0x00 \<notin> set path" "m_file event = path @ [CHR 0x00]"
  shows "FileLogItem_format pattern event =
    (if 0 \<le> atoi pattern \<and> atoi pattern \<le> int (slashes path) then Inr (drop_dirs (nat (atoi pattern)) path)
     else Inl OutOfBounds)"
proof -
  have "cstr (drop_dirs n path @ [CHR 0x00]) = Inr (drop_dirs n path)" for n
    using set_drop_dirs [of n path] assms(2) by (intro cstr_path) auto
  then show ?thesis
    using file_skip_path [OF assms(1)] by (simp add: FileLogItem_format_def assms(3))
qed

text \<open>The items of the default pattern, and the line they make of an event.\<close>

lemma default_items:
  "LogFormatter_ctor DEFAULT_PATTERN =
     ([DateLogItem ''%Y-%m-%d %a %H:%M:%S'', TabLogItem, StringLogItem ''['', LevelLogItem, StringLogItem '']'', TabLogItem,
       StringLogItem ''['', NameLogItem, StringLogItem '']'', TabLogItem, ThreadIdLogItem, TabLogItem, ThreadNameLogItem,
       TabLogItem, FiberIdLogItem, TabLogItem, FileLogItem ''5'', TabLogItem, LineLogItem, TabLogItem, MessageLogItem,
       NewLineLogItem], [])"
  by (simp add: LogFormatter_ctor_def DEFAULT_PATTERN_def items_loop.simps FORMATS_def read_fmt_def DateLogItem_ctor_def)

definition default_line :: "(string \<Rightarrow> u64 \<Rightarrow> string) \<Rightarrow> string \<Rightarrow> string \<Rightarrow> LogEvent \<Rightarrow> string" where
  "default_line strftime name path event =
     (let tab = [CHR 0x09] in
      strftime ''%Y-%m-%d %a %H:%M:%S'' (m_time event) @ tab @ ''['' @ LogLevel_toString (m_level event) @ '']'' @ tab @
      ''['' @ name @ '']'' @ tab @ show_int (uint (m_thread_id event)) @ tab @ m_thread_name event @ tab @
      show_int (uint (m_fiber_id event)) @ tab @ drop_dirs 5 path @ tab @ show_int (m_line event) @ tab @
      m_ss event @ [CHR 0x0A])"

definition source_path :: "string \<Rightarrow> bool" where
  "source_path path \<longleftrightarrow> CHR 0x0A \<notin> set path \<and> CHR 0x00 \<notin> set path"

lemma format_default:
  assumes "source_path path" "m_file event = path @ [CHR 0x00]"
  shows "format_string st nm (fst (LogFormatter_ctor DEFAULT_PATTERN)) event =
    (if 5 \<le> slashes path then Inr (default_line st (nm (m_logger event)) path event) else Inl OutOfBounds)"
proof -
  have "atoi ''5'' = 5"
    by (simp add: atoi_def is_space_def)
  then have "FileLogItem_format ''5'' event = (if 5 \<le> slashes path then Inr (drop_dirs 5 path) else Inl OutOfBounds)"
    using file_item_depth [of path event "''5''"] assms by (simp add: source_path_def)
  then show ?thesis
    by (simp add: default_items format_string_def default_line_def)
qed

section \<open>Where a statement's text goes\<close>

lemma format_loop_append:
  "format_loop st nm os items event = res_bind (format_loop st nm [] items event) (\<lambda>text. Inr (os @ text))"
proof (induction items arbitrary: os)
  case (Cons item items)
  show ?case
  proof (cases "Item_format st nm item event")
    case (Inr t)
    have 1: "format_loop st nm os (item # items) event = format_loop st nm (os @ t) items event"
      and 2: "format_loop st nm [] (item # items) event = format_loop st nm t items event"
      using Inr by simp_all
    show ?thesis
      unfolding 1 2 Cons.IH [of "os @ t"] Cons.IH [of t] by (cases "format_loop st nm [] items event") simp_all
  qed simp
qed simp

text \<open>An appender that lets an event through, and the text it formats.\<close>

definition passes :: "LogSys \<Rightarrow> LogEvent \<Rightarrow> nat \<Rightarrow> bool" where
  "passes s event p \<longleftrightarrow> ap_level (ap_heap s ! p) \<le> m_level event"

definition formats :: "LogSys \<Rightarrow> LogEvent \<Rightarrow> (nat \<Rightarrow> string) \<Rightarrow> nat \<Rightarrow> bool" where
  "formats s event tx p \<longleftrightarrow>
     p < length (ap_heap s) \<and>
     (passes s event p \<longrightarrow>
        (\<exists>items. ap_formatter (ap_heap s ! p) = Some items \<and>
           format_string (strftime_fn s) (names_of s) items event = Inr (tx p)))"

text \<open>What the appenders \<open>ps\<close> that let the event through write to one sink.\<close>

definition sent :: "LogSys \<Rightarrow> LogEvent \<Rightarrow> (nat \<Rightarrow> string) \<Rightarrow> (nat \<Rightarrow> bool) \<Rightarrow> nat list \<Rightarrow> string" where
  "sent s event tx sel ps = concat (map tx (filter (\<lambda>p. passes s event p \<and> sel p) ps))"

text \<open>The state in which the texts have been written.\<close>

definition written :: "LogSys \<Rightarrow> LogEvent \<Rightarrow> (nat \<Rightarrow> string) \<Rightarrow> nat list \<Rightarrow> LogSys" where
  "written s event tx ps =
     s\<lparr>cout := cout s @ sent s event tx (\<lambda>p. ap_sink (ap_heap s ! p) = Stdout) ps,
       files := (\<lambda>f. files s f @ sent s event tx (\<lambda>p. can_open s f \<and> ap_sink (ap_heap s ! p) = File f) ps),
       ap_heap := map (\<lambda>q. (ap_heap s ! q)\<lparr>ap_ss := ap_ss (ap_heap s ! q) @
         sent s event tx (\<lambda>p. p = q \<and> ap_sink (ap_heap s ! p) = Stream) ps\<rparr>) [0..<length (ap_heap s)]\<rparr>"

lemma sent_one: "sent s event tx sel [p] = (if passes s event p \<and> sel p then tx p else [])"
  by (simp add: sent_def)

lemma appender_log_written:
  assumes "formats s event tx p"
  shows "appender_log p event s = Inr (written s event tx [p])"
proof (cases "passes s event p")
  case False
  then have "written s event tx [p] = s"
    unfolding written_def sent_one by (simp add: map_nth)
  then show ?thesis
    using False by (simp add: appender_log_def passes_def Let_def)
next
  case True
  then obtain items where items: "ap_formatter (ap_heap s ! p) = Some items"
    "format_string (strftime_fn s) (names_of s) items event = Inr (tx p)"
    using assms unfolding formats_def by blast
  have os: "format_os (strftime_fn s) (names_of s) os items event = Inr (os @ tx p)" for os
    using items(2) unfolding format_os_def format_string_def format_loop_append [of _ _ os] by simp
  have lvl: "ap_level (ap_heap s ! p) \<le> m_level event"
    using True by (simp add: passes_def)
  show ?thesis
  proof (cases "ap_sink (ap_heap s ! p)")
    case Stdout
    then have "written s event tx [p] = s\<lparr>cout := cout s @ tx p\<rparr>"
      unfolding written_def sent_one using True by (simp add: map_nth)
    then show ?thesis
      using lvl items(1) os Stdout by (simp add: appender_log_def)
  next
    case Stream
    have "(ap_heap s)[p := (ap_heap s ! p)\<lparr>ap_ss := ap_ss (ap_heap s ! p) @ tx p\<rparr>] =
        map (\<lambda>q. (ap_heap s ! q)\<lparr>ap_ss := ap_ss (ap_heap s ! q) @ (if p = q then tx p else [])\<rparr>) [0..<length (ap_heap s)]"
      by (rule nth_equalityI) (auto simp: nth_list_update)
    then have "written s event tx [p] =
        s\<lparr>ap_heap := (ap_heap s)[p := (ap_heap s ! p)\<lparr>ap_ss := ap_ss (ap_heap s ! p) @ tx p\<rparr>]\<rparr>"
      unfolding written_def sent_one using True Stream by simp
    then show ?thesis
      using lvl items Stream by (simp add: appender_log_def Let_def)
  next
    case (File f)
    have "(\<lambda>g. files s g @ (if can_open s g \<and> f = g then tx p else [])) =
        (if can_open s f then (files s)(f := files s f @ tx p) else files s)"
      by auto
    then have "written s event tx [p] =
        (if can_open s f then s\<lparr>files := (files s)(f := files s f @ tx p)\<rparr> else s)"
      unfolding written_def sent_one using True File by (simp add: map_nth)
    then show ?thesis
      using lvl items(1) os File by (simp add: appender_log_def Let_def)
  qed
qed

lemma written_frame:
  "ap_sink (ap_heap (written s event tx ps) ! p) = ap_sink (ap_heap s ! p)"
  "ap_level (ap_heap (written s event tx ps) ! p) = ap_level (ap_heap s ! p)"
  "ap_formatter (ap_heap (written s event tx ps) ! p) = ap_formatter (ap_heap s ! p)"
  if "p < length (ap_heap s)"
  using that by (simp_all add: written_def)

lemma written_Cons:
  assumes "\<forall>p \<in> set (p0 # ps). formats s event tx p"
  shows "written (written s event tx [p0]) event tx ps = written s event tx (p0 # ps)"
proof -
  let ?s1 = "written s event tx [p0]"
  have same: "sent ?s1 event tx sel' ps = sent s event tx sel ps"
    if "\<And>p. p < length (ap_heap s) \<Longrightarrow> sel' p = sel p" for sel sel'
  proof -
    have "filter (\<lambda>p. passes ?s1 event p \<and> sel' p) ps = filter (\<lambda>p. passes s event p \<and> sel p) ps"
      using assms that by (intro filter_cong refl) (simp add: passes_def formats_def written_frame)
    then show ?thesis
      by (simp add: sent_def)
  qed
  have add: "sent s event tx sel [p0] @ sent s event tx sel ps = sent s event tx sel (p0 # ps)" for sel
    by (simp add: sent_def)
  have len: "length (ap_heap ?s1) = length (ap_heap s)"
    by (simp add: written_def)
  have heap: "ap_heap (written ?s1 event tx ps) = ap_heap (written s event tx (p0 # ps))"
  proof (rule nth_equalityI)
    show "length (ap_heap (written ?s1 event tx ps)) = length (ap_heap (written s event tx (p0 # ps)))"
      by (simp add: written_def)
    fix q assume "q < length (ap_heap (written ?s1 event tx ps))"
    then have q: "q < length (ap_heap s)"
      by (simp add: written_def)
    have "sent ?s1 event tx (\<lambda>p. p = q \<and> ap_sink (ap_heap ?s1 ! p) = Stream) ps =
        sent s event tx (\<lambda>p. p = q \<and> ap_sink (ap_heap s ! p) = Stream) ps"
      by (rule same) (simp add: written_frame)
    then show "ap_heap (written ?s1 event tx ps) ! q = ap_heap (written s event tx (p0 # ps)) ! q"
      using q add [of "\<lambda>p. p = q \<and> ap_sink (ap_heap s ! p) = Stream"] unfolding written_def [of ?s1]
      by (simp add: len) (simp add: written_def)
  qed
  have "sent ?s1 event tx (\<lambda>p. ap_sink (ap_heap ?s1 ! p) = Stdout) ps =
      sent s event tx (\<lambda>p. ap_sink (ap_heap s ! p) = Stdout) ps"
    by (rule same) (simp add: written_frame)
  then have out: "cout (written ?s1 event tx ps) = cout (written s event tx (p0 # ps))"
    using add unfolding written_def [of ?s1] by (simp add: written_def [of s])
  have "sent ?s1 event tx (\<lambda>p. can_open ?s1 f \<and> ap_sink (ap_heap ?s1 ! p) = File f) ps =
      sent s event tx (\<lambda>p. can_open s f \<and> ap_sink (ap_heap s ! p) = File f) ps" for f
    by (rule same) (simp add: written_frame, simp add: written_def)
  then have fil: "files (written ?s1 event tx ps) = files (written s event tx (p0 # ps))"
    using add unfolding written_def [of ?s1] by (simp add: fun_eq_iff written_def [of s])
  show ?thesis
    by (rule LogSys.equality) (use heap out fil in \<open>simp_all, simp_all add: written_def\<close>)
qed

lemma log_loop_written:
  "\<forall>p \<in> set ps. formats s event tx p \<Longrightarrow> log_loop ps event s = Inr (written s event tx ps)"
proof (induction ps arbitrary: s)
  case Nil
  have "written s event tx [] = s"
    by (simp add: written_def sent_def map_nth)
  then show ?case
    by simp
next
  case (Cons p ps)
  have "formats (written s event tx [p]) event tx q" if "q \<in> set ps" for q
    using Cons.prems that by (auto simp: formats_def passes_def written_frame) (simp_all add: written_def)
  then have "log_loop ps event (written s event tx [p]) = Inr (written s event tx (p # ps))"
    using Cons.IH [of "written s event tx [p]"] written_Cons [OF Cons.prems] by simp
  then show ?case
    using appender_log_written [of s event tx p] Cons.prems by simp
qed

lemma Logger_log_output:
  assumes "\<forall>p \<in> set (lg_appenders (lg_heap s ! l)). formats s event tx p"
  shows "Logger_log l level event s =
    Inr (if lg_level (lg_heap s ! l) \<le> level then written s event tx (lg_appenders (lg_heap s ! l)) else s)"
  using log_loop_written [OF assms] by (simp add: Logger_log_def)

text \<open>
  \<open>logger->info(EVA_LOG_EVENT(\<dots>))\<close> and the like: the logger goes by the method, the appenders by the
  event's own level; such an event has no thread and no fiber, so the items for them print zeros.
\<close>

lemma log_method_output:
  assumes "\<forall>p \<in> set (lg_appenders (lg_heap s ! l)). formats s event tx p"
  shows "Logger_debug l event s = Inr (if lg_level (lg_heap s ! l) \<le> DEBUG then written s event tx (lg_appenders (lg_heap s ! l)) else s)"
    and "Logger_info l event s = Inr (if lg_level (lg_heap s ! l) \<le> INFO then written s event tx (lg_appenders (lg_heap s ! l)) else s)"
    and "Logger_warn l event s = Inr (if lg_level (lg_heap s ! l) \<le> WARN then written s event tx (lg_appenders (lg_heap s ! l)) else s)"
    and "Logger_error l event s = Inr (if lg_level (lg_heap s ! l) \<le> ERROR then written s event tx (lg_appenders (lg_heap s ! l)) else s)"
    and "Logger_fatal l event s = Inr (if lg_level (lg_heap s ! l) \<le> FATAL then written s event tx (lg_appenders (lg_heap s ! l)) else s)"
  unfolding Logger_debug_def Logger_info_def Logger_warn_def Logger_error_def Logger_fatal_def
  by (rule Logger_log_output [OF assms])+

lemma log_event_ids:
  "Item_format st nm ThreadIdLogItem (EVA_LOG_EVENT l level file line time tname msg) = Inr ''0''"
  "Item_format st nm FiberIdLogItem (EVA_LOG_EVENT l level file line time tname msg) = Inr ''0''"
  by (simp_all add: EVA_LOG_EVENT_def LogEvent_ctor_def show_int_def digits.simps char_of_eq_iff)

text \<open>
  C29. A logging statement below the logger's level does nothing. Otherwise every appender of the
  logger whose level lets the event through adds its own text to its sink, in the order of the
  appenders: the texts of the standard output one after the other, those of a string stream to the
  stream of that appender, those of a file to the file if it could be opened. Nothing else changes.
\<close>

theorem log_statement_output:
  assumes "\<forall>p \<in> set (lg_appenders (lg_heap s ! l)). formats s event tx p"
    and event: "event = (LogEvent_ctor l file line time level tid fid tname [])\<lparr>m_ss := msg\<rparr>"
  shows "EVA_LOG_LEVEL l level file line time tid fid tname msg s =
    Inr (if lg_level (lg_heap s ! l) \<le> level then written s event tx (lg_appenders (lg_heap s ! l)) else s)"
proof -
  have "m_level event = level"
    by (simp add: event LogEvent_ctor_def)
  then show ?thesis
    using Logger_log_output [OF assms(1)]
    by (simp add: EVA_LOG_LEVEL_def LogWrapper_dtor_def Let_def event LogEvent_ctor_def)
qed

text \<open>A logger with two appenders for the witness, one of them for warnings only.\<close>

definition ex_log :: LogSys where
  "ex_log =
     \<lparr>strftime_fn = (\<lambda>_ _. []),
      ap_heap = [\<lparr>ap_sink = Stdout, ap_formatter = Some [LevelLogItem, MessageLogItem], ap_level = DEBUG, ap_ss = []\<rparr>,
                 \<lparr>ap_sink = Stream, ap_formatter = Some [MessageLogItem], ap_level = WARN, ap_ss = []\<rparr>],
      lg_heap = [\<lparr>lg_name = ''root'', lg_level = INFO, lg_formatter = [], lg_appenders = [0, 1, 0]\<rparr>],
      m_loggers = [''root'' \<mapsto> 0], m_root_logger = 0, cout = [], files = (\<lambda>_. []), can_open = (\<lambda>_. True)\<rparr>"

theorem log_statement_output_witness:
  "\<exists>s. EVA_LOG_LEVEL 0 INFO [CHR 0x00] 1 0 0 0 [] ''hi'' ex_log = Inr s \<and> cout s = ''INFOhiINFOhi'' \<and> ap_ss (ap_heap s ! 1) = []"
proof -
  let ?ev = "(LogEvent_ctor 0 [CHR 0x00] 1 0 INFO 0 0 [] [])\<lparr>m_ss := ''hi''\<rparr>"
  let ?tx = "\<lambda>p. if p = 0 then ''INFOhi'' else ''hi''"
  have "\<forall>p \<in> set (lg_appenders (lg_heap ex_log ! 0)). formats ex_log ?ev ?tx p"
    by (simp add: formats_def passes_def ex_log_def LogEvent_ctor_def format_string_def less_eq_Level_def)
  from log_statement_output [OF this refl] show ?thesis
    by (simp add: ex_log_def written_def sent_def passes_def LogEvent_ctor_def less_eq_Level_def)
qed

text \<open>\<open>flush\<close> empties nothing: what was logged once is answered by every later \<open>flush\<close> again.\<close>

lemma flush_repeats:
  "StreamLogAppender_flush p s = (t, s') \<Longrightarrow> StreamLogAppender_flush p s' = (t, s')"
  by (auto simp: StreamLogAppender_flush_def)

section \<open>Well-formed loggers\<close>

definition log_wf :: "LogSys \<Rightarrow> bool" where
  "log_wf s \<longleftrightarrow>
     (\<forall>name l. m_loggers s name = Some l \<longrightarrow> l < length (lg_heap s) \<and> lg_name (lg_heap s ! l) = name) \<and>
     (\<forall>l < length (lg_heap s). \<forall>p \<in> set (lg_appenders (lg_heap s ! l)).
        p < length (ap_heap s) \<and> ap_formatter (ap_heap s ! p) \<noteq> None) \<and>
     m_loggers s ''root'' = Some (m_root_logger s)"

text \<open>
  What a program can do with the logging interface: ask the manager for a logger, make loggers and
  appenders, and call any member function on objects it holds.
\<close>

inductive log_step :: "LogSys \<Rightarrow> LogSys \<Rightarrow> bool" where
  st_get: "getLogger name s = (l, s') \<Longrightarrow> log_step s s'"
| st_appender: "log_step s (s\<lparr>ap_heap := ap_heap s @ [LogAppender_new k]\<rparr>)"
| st_logger: "log_step s (s\<lparr>lg_heap := lg_heap s @ [Logger_ctor name level pattern]\<rparr>)"
| st_add: "l < length (lg_heap s) \<Longrightarrow> p < length (ap_heap s) \<Longrightarrow> log_step s (addLogAppender l p s)"
| st_del: "l < length (lg_heap s) \<Longrightarrow> log_step s (delLogAppender l p s)"
| st_clear: "l < length (lg_heap s) \<Longrightarrow> log_step s (clearLogAppenders l s)"
| st_level: "l < length (lg_heap s) \<Longrightarrow> log_step s (Logger_setLevel l level s)"
| st_formatter: "l < length (lg_heap s) \<Longrightarrow> log_step s (Logger_setFormatter l pattern s)"
| st_ap_formatter: "p < length (ap_heap s) \<Longrightarrow> log_step s (appender_setFormatter p pattern s)"
| st_ap_level: "p < length (ap_heap s) \<Longrightarrow> log_step s (appender_setLevel p level s)"
| st_log: "l < length (lg_heap s) \<Longrightarrow> Logger_log l level event s = Inr s' \<Longrightarrow> log_step s s'"

inductive log_runs :: "LogSys \<Rightarrow> LogSys \<Rightarrow> bool" for s where
  log_runs_refl: "log_runs s s"
| log_runs_step: "log_runs s s1 \<Longrightarrow> log_step s1 s2 \<Longrightarrow> log_runs s s2"

lemma addLogAppender_wf:
  assumes "log_wf s" "l < length (lg_heap s)" "p < length (ap_heap s)"
  shows "log_wf (addLogAppender l p s)"
  using assms by (auto simp: log_wf_def addLogAppender_def Let_def nth_list_update split: if_splits)

lemma formatter_upd_ss [simp]:
  "ap_formatter (xs[p := (xs ! p)\<lparr>ap_ss := t\<rparr>] ! q) = ap_formatter (xs ! q)"
  by (cases "q = p"; cases "p < length xs") (auto simp: list_update_beyond)

lemma appender_log_frame:
  assumes "appender_log p event s = Inr s'"
  shows "lg_heap s' = lg_heap s \<and> m_loggers s' = m_loggers s \<and> m_root_logger s' = m_root_logger s \<and>
         length (ap_heap s') = length (ap_heap s) \<and>
         (\<forall>q < length (ap_heap s). ap_formatter (ap_heap s' ! q) = ap_formatter (ap_heap s ! q))"
  using assms
  by (auto simp: appender_log_def Let_def nth_list_update split: if_splits option.splits sink.splits)

lemma log_wf_frame:
  assumes "log_wf s" "lg_heap s' = lg_heap s" "m_loggers s' = m_loggers s" "m_root_logger s' = m_root_logger s"
    and "length (ap_heap s) \<le> length (ap_heap s')"
    and "\<forall>q < length (ap_heap s). ap_formatter (ap_heap s ! q) \<noteq> None \<longrightarrow> ap_formatter (ap_heap s' ! q) \<noteq> None"
  shows "log_wf s'"
  using assms unfolding log_wf_def by (metis order_less_le_trans)

lemma log_loop_wf: "log_loop ps event s = Inr s' \<Longrightarrow> log_wf s \<Longrightarrow> log_wf s'"
proof (induction ps arbitrary: s)
  case (Cons p ps)
  obtain s1 where s1: "appender_log p event s = Inr s1" "log_loop ps event s1 = Inr s'"
    using Cons.prems(1) by auto
  have "log_wf s1"
    using log_wf_frame [OF Cons.prems(2), of s1] appender_log_frame [OF s1(1)] by simp
  then show ?case
    using Cons.IH s1(2) by blast
qed simp

lemma upd_logger_wf:
  assumes "log_wf s" "l < length (lg_heap s)" "lg_name (f (lg_heap s ! l)) = lg_name (lg_heap s ! l)"
    and "set (lg_appenders (f (lg_heap s ! l))) \<subseteq> set (lg_appenders (lg_heap s ! l))"
  shows "log_wf (upd_logger l f s)"
  using assms unfolding log_wf_def by (auto simp: nth_list_update)

text \<open>A new logger comes with one appender of its own, which has the logger's formatter.\<close>

lemma new_logger_eq:
  "new_logger name s =
     (length (lg_heap s),
      s\<lparr>lg_heap := lg_heap s @ [(Logger_ctor name DEBUG DEFAULT_PATTERN)\<lparr>lg_appenders := [length (ap_heap s)]\<rparr>],
        ap_heap := ap_heap s @ [(LogAppender_new Stdout)
          \<lparr>ap_formatter := Some (fst (LogFormatter_ctor DEFAULT_PATTERN))\<rparr>]\<rparr>)"
  by (simp add: new_logger_def addLogAppender_def Let_def Logger_ctor_def LogAppender_new_def)

lemma LoggerManager_ctor_wf: "log_wf (LoggerManager_ctor st fs can)"
  by (simp add: LoggerManager_ctor_def Let_def new_logger_eq log_wf_def Logger_ctor_def)

lemma getLogger_wf:
  assumes "log_wf s" "getLogger name s = (l, s')"
  shows "log_wf s'" "m_loggers s' = (m_loggers s)(name \<mapsto> l)" "m_loggers s name = None \<Longrightarrow> l = length (lg_heap s)"
    and "l' < length (lg_heap s) \<Longrightarrow> lg_heap s' ! l' = lg_heap s ! l'"
proof -
  have "log_wf s' \<and> m_loggers s' = (m_loggers s)(name \<mapsto> l) \<and> (m_loggers s name = None \<longrightarrow> l = length (lg_heap s)) \<and>
      (l' < length (lg_heap s) \<longrightarrow> lg_heap s' ! l' = lg_heap s ! l')"
  proof (cases "m_loggers s name")
    case None
    have l: "l = length (lg_heap s)"
      and s': "s' = s\<lparr>lg_heap := lg_heap s @ [(Logger_ctor name DEBUG DEFAULT_PATTERN)\<lparr>lg_appenders := [length (ap_heap s)]\<rparr>],
        ap_heap := ap_heap s @ [(LogAppender_new Stdout)\<lparr>ap_formatter := Some (fst (LogFormatter_ctor DEFAULT_PATTERN))\<rparr>],
        m_loggers := (m_loggers s)(name \<mapsto> l)\<rparr>"
      using assms(2) None by (auto simp: getLogger_def new_logger_eq)
    have "name \<noteq> ''root''"
      using None assms(1) by (auto simp: log_wf_def)
    moreover have "\<forall>n q. m_loggers s n = Some q \<longrightarrow> q < length (lg_heap s) \<and> lg_name (lg_heap s ! q) = n"
      "m_loggers s ''root'' = Some (m_root_logger s)"
      and aps: "\<forall>q < length (lg_heap s). \<forall>p \<in> set (lg_appenders (lg_heap s ! q)).
        p < length (ap_heap s) \<and> ap_formatter (ap_heap s ! p) \<noteq> None"
      using assms(1) unfolding log_wf_def by blast+
    ultimately have "log_wf s'"
      unfolding log_wf_def s' using aps
      by (auto simp: l nth_append less_Suc_eq Logger_ctor_def less_imp_le dest: spec)
    then show ?thesis
      by (simp add: s' l nth_append)
  next
    case (Some q)
    then show ?thesis
      using assms by (auto simp: getLogger_def)
  qed
  then show "log_wf s'" "m_loggers s' = (m_loggers s)(name \<mapsto> l)" "m_loggers s name = None \<Longrightarrow> l = length (lg_heap s)"
    and "l' < length (lg_heap s) \<Longrightarrow> lg_heap s' ! l' = lg_heap s ! l'"
    by blast+
qed

lemma log_step_wf: "log_step s s' \<Longrightarrow> log_wf s \<Longrightarrow> log_wf s'"
proof (induction rule: log_step.induct)
  case (st_get name s l s')
  then show ?case
    by (rule getLogger_wf(1) [rotated])
next
  case (st_appender s k)
  then show ?case
    by (rule log_wf_frame) (auto simp: nth_append)
next
  case (st_logger s name level pattern)
  then show ?case
    unfolding log_wf_def by (auto simp: nth_append less_Suc_eq Logger_ctor_def)
next
  case (st_add l s p)
  then show ?case
    by (intro addLogAppender_wf)
next
  case (st_del l s p)
  then show ?case
    unfolding delLogAppender_def by (intro upd_logger_wf) auto
next
  case (st_clear l s)
  then show ?case
    unfolding clearLogAppenders_def by (intro upd_logger_wf) auto
next
  case (st_level l s level)
  then show ?case
    unfolding Logger_setLevel_def by (intro upd_logger_wf) auto
next
  case (st_formatter l s pattern)
  then show ?case
    unfolding Logger_setFormatter_def by (intro upd_logger_wf) auto
next
  case (st_ap_formatter p s pattern)
  then show ?case
    using log_wf_frame [of s "appender_setFormatter p pattern s"] by (simp add: appender_setFormatter_def nth_list_update)
next
  case (st_ap_level p s level)
  then show ?case
    using log_wf_frame [of s "appender_setLevel p level s"] by (simp add: appender_setLevel_def nth_list_update)
next
  case (st_log l s level event s')
  then show ?case
    using log_loop_wf [of "lg_appenders (lg_heap s ! l)" event s s'] by (simp add: Logger_log_def split: if_splits)
qed

lemma log_runs_wf: "log_runs s s' \<Longrightarrow> log_wf s \<Longrightarrow> log_wf s'"
  by (induction rule: log_runs.induct) (auto intro: log_step_wf)

lemma format_not_null: "format_loop st nm os items event \<noteq> Inl NullDeref"
proof -
  have skip: "file_skip cs d \<noteq> Inl NullDeref" for cs d
    by (induction cs arbitrary: d) auto
  have "cstr cs \<noteq> Inl NullDeref" for cs
    by (induction cs) (auto simp: res_bind_Inl)
  then have "Item_format st nm item event \<noteq> Inl NullDeref" for item
    using skip by (cases item) (auto simp: FileLogItem_format_def res_bind_Inl)
  then show ?thesis
    by (induction items arbitrary: os) (auto simp: res_bind_Inl)
qed

lemma log_loop_not_null:
  assumes "log_wf s" "\<forall>p \<in> set ps. p < length (ap_heap s) \<and> ap_formatter (ap_heap s ! p) \<noteq> None"
  shows "log_loop ps event s \<noteq> Inl NullDeref"
  using assms
proof (induction ps arbitrary: s)
  case (Cons p ps)
  have "appender_log p event s \<noteq> Inl NullDeref"
    using Cons.prems(2) format_not_null
    by (auto simp: appender_log_def Let_def res_bind_Inl format_os_def format_string_def split: sink.splits option.splits)
  moreover have "log_loop ps event s1 \<noteq> Inl NullDeref" if "appender_log p event s = Inr s1" for s1
    using Cons.IH [of s1] log_wf_frame [OF Cons.prems(1), of s1] appender_log_frame [OF that] Cons.prems(2) by simp
  ultimately show ?case
    by (auto simp: res_bind_Inl)
qed simp



end
