(* ===== verification/EVA_Util.thy ===== *)
theory EVA_Util
  imports EVA_HookWait EVA_Log
begin

text \<open>
  \<open>src/src/util.cpp\<close>: the clock, \<open>SleepMs\<close> and the backtraces. \<open>gettimeofday\<close> and the frames found by
  \<open>backtrace\<close> are arguments.
\<close>

definition GetCurrentMs :: "timeval \<Rightarrow> u64" where
  "GetCurrentMs tv = word_of_int (tv_sec tv) * 1000 + word_of_int (tv_usec tv sdiv 1000)"

text \<open>The argument \<open>SleepMs\<close> hands to \<open>usleep\<close>: an \<open>int\<close> product converted to \<open>useconds_t\<close>.\<close>

definition SleepMs_usec :: "c_int \<Rightarrow> u32" where
  "SleepMs_usec ms = word_of_int (ms * 1000)"

text \<open>The loop counts with a \<open>size_t\<close> that starts at \<open>skip\<close>; \<open>None\<close> is a failed \<open>backtrace_symbols\<close>.\<close>

definition Backtrace :: "string list option \<Rightarrow> string list \<Rightarrow> c_int \<Rightarrow> string list" where
  "Backtrace strings bt skip =
     (case strings of
        None \<Rightarrow> bt
      | Some ss \<Rightarrow> bt @ drop (unat (word_of_int skip :: u64)) ss)"

definition BacktraceToString :: "string list option \<Rightarrow> c_int \<Rightarrow> string \<Rightarrow> string" where
  "BacktraceToString strings skip prefix =
     concat (map (\<lambda>s. prefix @ s @ [CHR 0x0A]) (Backtrace strings [] skip))"

lemma GetCurrentMs_exact:
  assumes "0 \<le> tv_sec tv" "tv_sec tv < 2 ^ 54" "0 \<le> tv_usec tv" "tv_usec tv < 1000000"
  shows "uint (GetCurrentMs tv) = tv_sec tv * 1000 + tv_usec tv div 1000"
proof -
  have "GetCurrentMs tv = word_of_int (tv_sec tv * 1000 + tv_usec tv div 1000)"
    by (simp add: GetCurrentMs_def sdiv_nonneg [OF assms(3)])
  then show ?thesis
    using assms by (simp only:) (rule uint_of_int_u64, simp_all)
qed

text \<open>Through the hooked \<open>usleep\<close>, \<open>SleepMs\<close> sleeps the time it is asked for.\<close>

lemma SleepMs_exact:
  assumes "0 \<le> ms" "ms * 1000 < 2 ^ 31"
  shows "uint (usleep_ms (SleepMs_usec ms)) = ms"
proof -
  have "uint (SleepMs_usec ms) = ms * 1000"
    unfolding SleepMs_usec_def using assms by (subst uint_word_of_int) simp
  then show ?thesis
    by (simp add: usleep_ms_def uint_ucast_u64 uint_div)
qed

lemma negative_skip_empty:
  assumes "skip < 0" "- (2 ^ 63) \<le> skip" "length ss < 2 ^ 63"
  shows "Backtrace (Some ss) bt skip = bt"
proof -
  have "uint (word_of_int skip :: u64) = uint (word_of_int (skip + 2 ^ 64) :: u64)"
    by (subst (1 2) uint_word_of_int) simp
  also have "\<dots> = skip + 2 ^ 64"
    using assms(1,2) by (intro uint_of_int_u64) simp_all
  finally have "2 ^ 63 \<le> unat (word_of_int skip :: u64)"
    using assms(2) by (simp add: unat_eq_nat_uint)
  then show ?thesis
    using assms(3) by (simp add: Backtrace_def)
qed

end
