(* ===== verification/EVA_Idle.thy ===== *)
theory EVA_Idle
  imports EVA_HookIO
begin

text \<open>
  One round of \<open>Scheduler::idle()\<close> (\<open>src/src/scheduler.cpp\<close>) as an IO manager runs it: waiting in
  \<open>epoll_wait\<close>, the timers that are due, and the events reported, with the override of
  \<open>scheduleEvent\<close> in \<open>src/src/iomanager.cpp\<close>; and the destructor of \<open>IOManager\<close>. The step relation of
  the scheduler has the same round with its critical sections interleaved and without file events.
\<close>

section \<open>Waiting\<close>

text \<open>
  What \<open>epoll_wait\<close> reports: a mask, and the member \<open>data\<close>, a union. The pipe was registered with
  \<open>data.fd\<close>, contexts with \<open>data.ptr\<close>; \<open>idle()\<close> reads \<open>data.fd\<close> of both, which is the lower half of a
  pointer. \<open>addr\<close> is where contexts are in memory.
\<close>

datatype epoll_data = Data_fd c_int | Data_ptr nat

type_synonym report = "u32 \<times> epoll_data"

primrec data_fd :: "(nat \<Rightarrow> u64) \<Rightarrow> epoll_data \<Rightarrow> c_int" where
  "data_fd addr (Data_fd fd) = fd"
| "data_fd addr (Data_ptr p) = sint (ucast (addr p) :: u32)"

text \<open>
  The loop around \<open>epoll_wait\<close>. The world holds the clock and the timers, which other threads change
  meanwhile; a call answers the world after it, the result, \<open>errno\<close> and the reports. \<open>None\<close> is a loop
  in which every call is interrupted.
\<close>

type_synonym 'w epoll_wait = "'w \<Rightarrow> u64 \<Rightarrow> 'w \<times> c_int \<times> c_int \<times> report list"

definition wait_call ::
  "('w \<Rightarrow> u64) \<Rightarrow> ('w \<Rightarrow> 'f TimerManager) \<Rightarrow> 'w epoll_wait \<Rightarrow> 'w \<Rightarrow> 'w \<times> c_int \<times> c_int \<times> report list" where
  "wait_call clock timers epoll_wait s = epoll_wait s (idle_timeout (getNextTimeMs (clock s) (timers s)))"

partial_function (option) idle_wait ::
  "('w \<Rightarrow> u64) \<Rightarrow> ('w \<Rightarrow> 'f TimerManager) \<Rightarrow> 'w epoll_wait \<Rightarrow> 'w \<Rightarrow> ('w \<times> c_int \<times> report list) option" where
  "idle_wait clock timers epoll_wait s =
     (case wait_call clock timers epoll_wait s of
        (s', rt, e, evs) \<Rightarrow>
          if rt < 0 \<and> e = EINTR then idle_wait clock timers epoll_wait s' else Some (s', rt, evs))"

section \<open>Handling the reports\<close>

text \<open>\<open>while(read(m_tickle_fds[0], dummy, sizeof(dummy)) > 0);\<close> on a pipe with \<open>n\<close> bytes in it.\<close>

function drain_pipe :: "nat \<Rightarrow> nat" where
  "drain_pipe n = (let r = min n 256 in if r > 0 then drain_pipe (n - r) else n)"
  by pat_completeness auto

termination
  by (relation "measure id") auto

declare drain_pipe.simps [simp del]

definition upd_self :: "(Scheduler \<Rightarrow> Scheduler) \<Rightarrow> 'k IOManager \<Rightarrow> 'k IOManager" where
  "upd_self f io = io\<lparr>io_scheds := (io_scheds io)(io_self io := f (io_scheds io (io_self io)))\<rparr>"

definition idle_event ::
  "'k epoll_ctl \<Rightarrow> int \<Rightarrow> (nat \<Rightarrow> u64) \<Rightarrow> c_int \<Rightarrow> report \<Rightarrow> 'k IOManager \<Rightarrow> 'k IOManager result" where
  "idle_event ctl wr addr tickle_fd ev io =
     (case ev of (bits, d) \<Rightarrow>
        if data_fd addr d = tickle_fd
        then Inr (upd_self (\<lambda>s. s\<lparr>m_tickle_bytes := drain_pipe (m_tickle_bytes s)\<rparr>) io)
        else (case d of
                Data_fd fd \<Rightarrow> Inl OutOfBounds
              | Data_ptr p \<Rightarrow> res_bind (IOManager_scheduleEvent ctl wr bits p io) (\<lambda>(_, io'). Inr io')))"

primrec idle_events ::
  "'k epoll_ctl \<Rightarrow> int \<Rightarrow> (nat \<Rightarrow> u64) \<Rightarrow> c_int \<Rightarrow> report list \<Rightarrow> 'k IOManager \<Rightarrow> 'k IOManager result" where
  "idle_events ctl wr addr tickle_fd [] io = Inr io"
| "idle_events ctl wr addr tickle_fd (ev # evs) io =
     res_bind (idle_event ctl wr addr tickle_fd ev io) (idle_events ctl wr addr tickle_fd evs)"

text \<open>The functions of the timers that are due are queued, then the reports are handled.\<close>

definition idle_dispatch ::
  "'k epoll_ctl \<Rightarrow> int \<Rightarrow> (nat \<Rightarrow> u64) \<Rightarrow> c_int \<Rightarrow> func list \<Rightarrow> report list \<Rightarrow> 'k IOManager \<Rightarrow> 'k IOManager result" where
  "idle_dispatch ctl wr addr tickle_fd fs evs io =
     res_bind
       (if fs \<noteq> []
        then res_bind (schedule_range wr fs (-1) (io_scheds io (io_self io))) (\<lambda>s. Inr (upd_self (\<lambda>_. s) io))
        else Inr io)
       (idle_events ctl wr addr tickle_fd evs)"

definition idle_round ::
  "'k epoll_ctl \<Rightarrow> int \<Rightarrow> (nat \<Rightarrow> u64) \<Rightarrow> c_int \<Rightarrow> u64 \<Rightarrow> report list \<Rightarrow> 'k IOManager \<Rightarrow> 'k IOManager result" where
  "idle_round ctl wr addr tickle_fd now evs io =
     (case getExpiredFuncs now [] (m_timer_manager (io_scheds io (io_self io))) of
        (fs, tm) \<Rightarrow>
          idle_dispatch ctl wr addr tickle_fd fs evs (upd_self (\<lambda>s. s\<lparr>m_timer_manager := tm\<rparr>) io))"

section \<open>Destruction\<close>

text \<open>\<open>~IOManager\<close>: \<open>stop()\<close>, once it has joined the threads, and the contexts deleted, in order.\<close>

definition IOManager_dtor :: "'k IOManager \<Rightarrow> nat list \<times> 'k IOManager" where
  "IOManager_dtor io = (concat (map (case_option [] (\<lambda>p. [p])) (m_fd_contexts io)), upd_self (\<lambda>s. stop_end (stop_begin s)) io)"

section \<open>The loop around \<open>epoll_wait\<close>\<close>

definition wait_interrupted ::
  "('w \<Rightarrow> u64) \<Rightarrow> ('w \<Rightarrow> 'f TimerManager) \<Rightarrow> 'w epoll_wait \<Rightarrow> 'w \<Rightarrow> bool" where
  "wait_interrupted clock timers epoll_wait s \<longleftrightarrow>
     (case wait_call clock timers epoll_wait s of (s', rt, e, evs) \<Rightarrow> rt < 0 \<and> e = EINTR)"

primrec after_waits ::
  "('w \<Rightarrow> u64) \<Rightarrow> ('w \<Rightarrow> 'f TimerManager) \<Rightarrow> 'w epoll_wait \<Rightarrow> nat \<Rightarrow> 'w \<Rightarrow> 'w" where
  "after_waits clock timers epoll_wait 0 s = s"
| "after_waits clock timers epoll_wait (Suc j) s =
     after_waits clock timers epoll_wait j (fst (wait_call clock timers epoll_wait s))"

lemma idle_wait_ends:
  assumes "\<forall>j < m. wait_interrupted clock timers ew (after_waits clock timers ew j s)"
    and "\<not> wait_interrupted clock timers ew (after_waits clock timers ew m s)"
    and "wait_call clock timers ew (after_waits clock timers ew m s) = (s', rt, e, evs)"
  shows "idle_wait clock timers ew s = Some (s', rt, evs)"
  using assms
proof (induction m arbitrary: s)
  case 0
  then show ?case
    by (subst idle_wait.simps) (auto simp: wait_interrupted_def)
next
  case (Suc m)
  obtain s1 r1 e1 v1 where c: "wait_call clock timers ew s = (s1, r1, e1, v1)"
    by (metis prod_cases4)
  have "wait_interrupted clock timers ew s"
    using Suc.prems(1) by fastforce
  moreover have "\<forall>j < m. wait_interrupted clock timers ew (after_waits clock timers ew j s1)"
  proof (intro allI impI)
    fix j assume "j < m"
    then show "wait_interrupted clock timers ew (after_waits clock timers ew j s1)"
      using Suc.prems(1) [rule_format, of "Suc j"] c by simp
  qed
  ultimately show ?case
    using Suc.IH [of s1] Suc.prems(2,3) c by (subst idle_wait.simps) (auto simp: wait_interrupted_def)
qed

lemma drain_pipe_0 [simp]: "drain_pipe n = 0"
  by (induction n rule: drain_pipe.induct) (subst drain_pipe.simps, auto simp: Let_def min_def)

section \<open>What a round does\<close>

text \<open>
  A report of a context as \<open>epoll\<close> gives it while nobody else touches the context: the events are
  among the registered ones, and were registered on scheduler \<open>i\<close>.
\<close>

definition report_ok :: "(c_int \<Rightarrow> bool) \<Rightarrow> sid \<Rightarrow> 'k IOManager \<Rightarrow> u32 \<Rightarrow> nat \<Rightarrow> bool" where
  "report_ok pollable i io bits p \<longleftrightarrow>
     (let fc = fc_heap io ! p; tr = triggered bits fc in
      p < length (fc_heap io) \<and> pollable (fc_fd fc) \<and> tr \<noteq> 0 \<and> tr AND fc_events fc = tr \<and>
      (tr AND READ \<noteq> 0 \<longrightarrow> ev_scheduler (fc_read fc) = Some i) \<and>
      (tr AND WRITE \<noteq> 0 \<longrightarrow> ev_scheduler (fc_write fc) = Some i))"

definition report_tasks :: "'k IOManager \<Rightarrow> report \<Rightarrow> Task list" where
  "report_tasks io ev =
     (case ev of
        (bits, Data_fd fd) \<Rightarrow> []
      | (bits, Data_ptr p) \<Rightarrow>
          let fc = fc_heap io ! p; tr = triggered bits fc in
          (if tr AND READ \<noteq> 0 then [the (ctx_task (fc_read fc))] else []) @
          (if tr AND WRITE \<noteq> 0 then [the (ctx_task (fc_write fc))] else []))"

definition reported :: "'k IOManager \<Rightarrow> report list \<Rightarrow> c_int \<Rightarrow> Event \<Rightarrow> bool" where
  "reported io evs fd event \<longleftrightarrow>
     (\<exists>bits p. (bits, Data_ptr p) \<in> set evs \<and> fc_fd (fc_heap io ! p) = fd \<and>
        triggered bits (fc_heap io ! p) AND event \<noteq> 0)"

text \<open>
  The reports of one \<open>epoll_wait\<close>: the pipe, and contexts, each at most once; no context lies where
  the lower half of its address is the pipe's descriptor.
\<close>

definition reports_ok ::
  "(c_int \<Rightarrow> bool) \<Rightarrow> (nat \<Rightarrow> u64) \<Rightarrow> c_int \<Rightarrow> sid \<Rightarrow> 'k IOManager \<Rightarrow> report list \<Rightarrow> bool" where
  "reports_ok pollable addr tickle_fd i io evs \<longleftrightarrow>
     distinct (map snd evs) \<and>
     (\<forall>(bits, d) \<in> set evs. case d of
        Data_fd fd \<Rightarrow> fd = tickle_fd
      | Data_ptr p \<Rightarrow> data_fd addr d \<noteq> tickle_fd \<and> report_ok pollable i io bits p)"

text \<open>Exactly the events of \<open>P\<close> are no longer registered.\<close>

definition taken_out :: "(c_int \<Rightarrow> Event \<Rightarrow> bool) \<Rightarrow> 'k IOManager \<Rightarrow> 'k IOManager \<Rightarrow> bool" where
  "taken_out P io io' \<longleftrightarrow>
     (\<forall>fd event. event = READ \<or> event = WRITE \<longrightarrow>
        registered io' fd event = (if P fd event then None else registered io fd event))"

lemma taken_out_trans:
  "taken_out P io io1 \<Longrightarrow> taken_out Q io1 io' \<Longrightarrow> taken_out (\<lambda>fd event. P fd event \<or> Q fd event) io io'"
  unfolding taken_out_def by metis

lemma upd_self_frame [simp]:
  "fc_heap (upd_self f io) = fc_heap io" "m_fd_contexts (upd_self f io) = m_fd_contexts io"
  "io_self (upd_self f io) = io_self io" "io_kernel (upd_self f io) = io_kernel io"
  "io_scheds (upd_self f io) i = (if i = io_self io then f (io_scheds io i) else io_scheds io i)"
  by (simp_all add: upd_self_def)

lemma upd_self_inv:
  assumes "io_inv interest io" "\<And>s. m_pending_count (f s) = m_pending_count s"
  shows "io_inv interest (upd_self f io)" "registered (upd_self f io) = registered io"
proof -
  show "io_inv interest (upd_self f io)"
    by (rule io_inv_frame [OF assms(1)]) (simp_all add: assms(2))
  have "ctx_of (upd_self f io) = ctx_of io"
    by (rule ext) (simp add: ctx_of_def)
  then show "registered (upd_self f io) = registered io"
    unfolding registered_def upd_self_frame by simp
qed

text \<open>Reports of contexts that have not changed mean the same.\<close>

lemma reports_frame:
  assumes "length (fc_heap io') = length (fc_heap io)"
    and "\<And>bits p. (bits, Data_ptr p) \<in> set evs \<Longrightarrow> fc_heap io' ! p = fc_heap io ! p"
  shows "reports_ok pollable addr tickle_fd i io' evs = reports_ok pollable addr tickle_fd i io evs"
    and "map (report_tasks io') evs = map (report_tasks io) evs"
    and "reported io' evs = reported io evs"
proof -
  have ok: "report_ok pollable i io' bits p = report_ok pollable i io bits p"
    "report_tasks io' (bits, Data_ptr p) = report_tasks io (bits, Data_ptr p)"
    if "(bits, Data_ptr p) \<in> set evs" for bits p
    using assms(1) assms(2) [OF that] by (simp_all add: report_ok_def report_tasks_def)
  show "reports_ok pollable addr tickle_fd i io' evs = reports_ok pollable addr tickle_fd i io evs"
    unfolding reports_ok_def using ok(1) by (fastforce split: epoll_data.splits)
  show "map (report_tasks io') evs = map (report_tasks io) evs"
  proof (rule map_cong [OF refl])
    fix ev assume ev: "ev \<in> set evs"
    obtain bits d where "ev = (bits, d)"
      by fastforce
    then show "report_tasks io' ev = report_tasks io ev"
      using ev ok(2) by (cases d) (auto simp: report_tasks_def)
  qed
  show "reported io' evs = reported io evs"
    unfolding reported_def fun_eq_iff using assms(2) by metis
qed

lemma idle_event_ok:
  assumes "epoll_spec ctl interest pollable" "io_inv interest io" "reports_ok pollable addr tickle_fd i io (ev # evs)"
  shows "\<exists>io1. idle_event ctl 1 addr tickle_fd ev io = Inr io1 \<and> io_inv interest io1 \<and> io_self io1 = io_self io \<and>
    m_tasks (io_scheds io1 i) = m_tasks (io_scheds io i) @ report_tasks io ev \<and>
    taken_out (reported io [ev]) io io1 \<and>
    length (fc_heap io1) = length (fc_heap io) \<and>
    (\<forall>bits p. (bits, Data_ptr p) \<in> set evs \<longrightarrow> fc_heap io1 ! p = fc_heap io ! p)"
proof -
  obtain bits d where ev: "ev = (bits, d)"
    by fastforce
  have other: "d' \<noteq> d" if "(bits', d') \<in> set evs" for bits' d'
    using assms(3) that by (force simp: reports_ok_def ev)
  show ?thesis
  proof (cases d)
    case (Data_fd fd)
    let ?io1 = "upd_self (\<lambda>s. s\<lparr>m_tickle_bytes := drain_pipe (m_tickle_bytes s)\<rparr>) io"
    have "idle_event ctl 1 addr tickle_fd ev io = Inr ?io1"
      using assms(3) by (simp add: idle_event_def ev Data_fd reports_ok_def)
    moreover have "io_inv interest ?io1" "registered ?io1 = registered io"
      by (rule upd_self_inv [OF assms(2)]; simp)+
    ultimately show ?thesis
      by (intro exI [of _ ?io1]) (simp add: ev Data_fd report_tasks_def reported_def taken_out_def)
  next
    case (Data_ptr p)
    let ?fc = "fc_heap io ! p"
    have ok: "report_ok pollable i io bits p" and fd: "data_fd addr d \<noteq> tickle_fd"
      using assms(3) by (simp_all add: reports_ok_def ev Data_ptr)
    from ok obtain io1 where io1: "IOManager_scheduleEvent ctl 1 bits p io = Inr (True, io1)" "io_inv interest io1"
      "m_tasks (io_scheds io1 i) = m_tasks (io_scheds io i) @ report_tasks io ev"
      "taken_out (\<lambda>fd event. fd = fc_fd ?fc \<and> triggered bits ?fc AND event \<noteq> 0) io io1"
      "fc_heap io1 = (fc_heap io)[p := ?fc\<lparr>fc_events := fc_events ?fc AND NOT (triggered bits ?fc)\<rparr>]"
      "io_self io1 = io_self io"
      using scheduleEvent_effect [OF assms(1,2) _ refl refl, of p bits i]
      unfolding report_ok_def Let_def ev Data_ptr report_tasks_def taken_out_def by auto
    have "idle_event ctl 1 addr tickle_fd ev io = Inr io1"
      using io1(1) fd by (simp add: idle_event_def ev Data_ptr)
    moreover have "reported io [ev] = (\<lambda>fd event. fd = fc_fd ?fc \<and> triggered bits ?fc AND event \<noteq> 0)"
      by (intro ext) (auto simp: reported_def ev Data_ptr)
    moreover have "fc_heap io1 ! p' = fc_heap io ! p'" if "(bits', Data_ptr p') \<in> set evs" for bits' p'
      using other [OF that] by (simp add: io1(5) Data_ptr)
    moreover have "length (fc_heap io1) = length (fc_heap io)"
      by (simp add: io1(5))
    ultimately show ?thesis
      using io1(2-4,6) by (intro exI [of _ io1]) simp
  qed
qed

lemma idle_events_ok:
  assumes "epoll_spec ctl interest pollable" "io_inv interest io" "reports_ok pollable addr tickle_fd i io evs"
  shows "\<exists>io'. idle_events ctl 1 addr tickle_fd evs io = Inr io' \<and> io_inv interest io' \<and> io_self io' = io_self io \<and>
    m_tasks (io_scheds io' i) = m_tasks (io_scheds io i) @ concat (map (report_tasks io) evs) \<and>
    taken_out (reported io evs) io io'"
  using assms(2,3)
proof (induction evs arbitrary: io)
  case Nil
  then show ?case
    by (simp add: reported_def taken_out_def)
next
  case (Cons ev evs)
  obtain io1 where io1: "idle_event ctl 1 addr tickle_fd ev io = Inr io1" "io_inv interest io1" "io_self io1 = io_self io"
    "m_tasks (io_scheds io1 i) = m_tasks (io_scheds io i) @ report_tasks io ev"
    "taken_out (reported io [ev]) io io1"
    and frame: "length (fc_heap io1) = length (fc_heap io)"
      "\<And>bits p. (bits, Data_ptr p) \<in> set evs \<Longrightarrow> fc_heap io1 ! p = fc_heap io ! p"
    using idle_event_ok [OF assms(1) Cons.prems] by blast
  have rest: "reports_ok pollable addr tickle_fd i io1 evs = reports_ok pollable addr tickle_fd i io evs"
    "map (report_tasks io1) evs = map (report_tasks io) evs" "reported io1 evs = reported io evs"
    by (rule reports_frame; use frame in blast)+
  have "reports_ok pollable addr tickle_fd i io evs"
    using Cons.prems(2) by (auto simp: reports_ok_def)
  then obtain io' where io': "idle_events ctl 1 addr tickle_fd evs io1 = Inr io'" "io_inv interest io'"
    "io_self io' = io_self io1"
    "m_tasks (io_scheds io' i) = m_tasks (io_scheds io1 i) @ concat (map (report_tasks io) evs)"
    "taken_out (reported io evs) io1 io'"
    using Cons.IH [OF io1(2), unfolded rest] by blast
  have "reported io (ev # evs) = (\<lambda>fd event. reported io [ev] fd event \<or> reported io evs fd event)"
    by (intro ext) (auto simp: reported_def)
  then have "taken_out (reported io (ev # evs)) io io'"
    using taken_out_trans [OF io1(5) io'(5)] by simp
  then show ?case
    using io1(1,3,4) io'(1-4) by (intro exI [of _ io']) simp
qed

lemma schedule_range_total:
  "\<exists>n. schedule_range 1 fs thr s = Inr (s\<lparr>m_tasks := m_tasks s @ map (\<lambda>f. Task_of_func f thr) fs, m_tickle_bytes := n\<rparr>)"
proof -
  obtain s' where "schedule_range 1 fs thr s = Inr s'"
    by (cases "schedule_range 1 fs thr s") (auto simp: schedule_range_def tickle_def Let_def split: if_splits)
  then show ?thesis
    by (auto elim!: schedule_range_Inr)
qed

text \<open>Queueing functions changes nothing that the reports depend on.\<close>

lemma idle_dispatch_ok:
  assumes "epoll_spec ctl interest pollable" "io_inv interest io" "reports_ok pollable addr tickle_fd (io_self io) io evs"
  shows "\<exists>io'. idle_dispatch ctl 1 addr tickle_fd fs evs io = Inr io' \<and> io_inv interest io' \<and>
    m_tasks (io_scheds io' (io_self io)) = m_tasks (io_scheds io (io_self io)) @
      map (\<lambda>f. Task_of_func f (-1)) fs @ concat (map (report_tasks io) evs) \<and>
    taken_out (reported io evs) io io'"
proof -
  let ?i = "io_self io"
  obtain n where n: "schedule_range 1 fs (-1) (io_scheds io ?i) =
      Inr ((io_scheds io ?i)\<lparr>m_tasks := m_tasks (io_scheds io ?i) @ map (\<lambda>f. Task_of_func f (-1)) fs, m_tickle_bytes := n\<rparr>)"
    using schedule_range_total by blast
  define c where "c = (if fs \<noteq> [] then (io_scheds io ?i)\<lparr>m_tasks := m_tasks (io_scheds io ?i) @ map (\<lambda>f. Task_of_func f (-1)) fs,
      m_tickle_bytes := n\<rparr> else io_scheds io ?i)"
  define io1 where "io1 = upd_self (\<lambda>_. c) io"
  have "upd_self (\<lambda>_. io_scheds io ?i) io = io"
    by (simp add: upd_self_def)
  then have run: "idle_dispatch ctl 1 addr tickle_fd fs evs io = idle_events ctl 1 addr tickle_fd evs io1"
    using n by (simp add: idle_dispatch_def io1_def c_def)
  have inv: "io_inv interest io1"
    by (rule io_inv_frame [OF assms(2)]) (simp_all add: io1_def c_def)
  have same: "reports_ok pollable addr tickle_fd ?i io1 evs = reports_ok pollable addr tickle_fd ?i io evs"
    "map (report_tasks io1) evs = map (report_tasks io) evs" "reported io1 evs = reported io evs"
    by (rule reports_frame; simp add: io1_def)+
  obtain io' where io': "idle_events ctl 1 addr tickle_fd evs io1 = Inr io'" "io_inv interest io'"
    "m_tasks (io_scheds io' ?i) = m_tasks (io_scheds io1 ?i) @ concat (map (report_tasks io) evs)"
    "taken_out (reported io evs) io1 io'"
    using idle_events_ok [OF assms(1) inv, of addr tickle_fd ?i evs] assms(3) unfolding same by blast
  have "ctx_of io1 = ctx_of io"
    by (rule ext) (simp add: ctx_of_def io1_def)
  then have "registered io1 = registered io"
    unfolding registered_def io1_def upd_self_frame by simp
  then have "taken_out (reported io evs) io io'"
    using io'(4) by (simp add: taken_out_def)
  then show ?thesis
    using run io'(1-3) by (intro exI [of _ io']) (simp add: io1_def c_def)
qed

lemma idle_round_effect:
  assumes "epoll_spec ctl interest pollable" "io_inv interest io"
    and "reports_ok pollable addr tickle_fd (io_self io) io evs"
    and tm: "tm = m_timer_manager (io_scheds io (io_self io))" "tm_wf tm"
  shows "\<exists>io' es. idle_round ctl 1 addr tickle_fd now evs io = Inr io' \<and> io_inv interest io' \<and>
           set es = {p \<in> set (m_timers tm). m_next (timer_heap tm p) \<le> now} \<and> distinct es \<and>
           sorted_wrt (\<lambda>p q. m_next (timer_heap tm p) \<le> m_next (timer_heap tm q)) es \<and>
           m_tasks (io_scheds io' (io_self io)) = m_tasks (io_scheds io (io_self io)) @
             map (\<lambda>p. Task_of_func (m_func (timer_heap tm p)) (-1)) es @ concat (map (report_tasks io) evs) \<and>
           taken_out (reported io evs) io io'"
proof -
  obtain fs tm' where e: "getExpiredFuncs now [] tm = (fs, tm')"
    by fastforce
  have fs: "fs = map (\<lambda>p. m_func (timer_heap tm p)) (expired_timers now tm)"
    using getExpiredFuncs_funcs [of now "[]" tm] e by simp
  define io1 where "io1 = upd_self (\<lambda>s. s\<lparr>m_timer_manager := tm'\<rparr>) io"
  have io1: "io_inv interest io1" "registered io1 = registered io"
    unfolding io1_def by (rule upd_self_inv [OF assms(2)]; simp)+
  have same: "reports_ok pollable addr tickle_fd (io_self io1) io1 evs = reports_ok pollable addr tickle_fd (io_self io) io evs"
    "map (report_tasks io1) evs = map (report_tasks io) evs" "reported io1 evs = reported io evs"
    unfolding io1_def upd_self_frame(3) by (rule reports_frame; simp)+
  obtain io' where io': "idle_dispatch ctl 1 addr tickle_fd fs evs io1 = Inr io'" "io_inv interest io'"
    "m_tasks (io_scheds io' (io_self io1)) = m_tasks (io_scheds io1 (io_self io1)) @
      map (\<lambda>f. Task_of_func f (-1)) fs @ concat (map (report_tasks io) evs)"
    "taken_out (reported io evs) io1 io'"
    using idle_dispatch_ok [OF assms(1) io1(1), of addr tickle_fd evs fs] assms(3) unfolding same by blast
  have "idle_round ctl 1 addr tickle_fd now evs io = Inr io'"
    using e io'(1) by (simp add: idle_round_def tm(1) io1_def)
  moreover have "taken_out (reported io evs) io io'"
    using io'(4) io1(2) by (simp add: taken_out_def)
  ultimately show ?thesis
    using io'(2,3) expired_timers_due [OF tm(2)]
    by (intro exI [of _ io'] exI [of _ "expired_timers now tm"]) (simp add: io1_def fs comp_def)
qed

text \<open>
  C11. A round of \<open>idle()\<close>. The functions of exactly the timers that are due are queued in order of
  their deadlines, then the tasks registered for the reported events in the order of the reports;
  exactly the reported events are no longer registered, and the interest list follows.
\<close>

theorem idle_round_correct:
  assumes "epoll_spec ctl interest pollable" "io_inv interest io"
    and "reports_ok pollable addr tickle_fd (io_self io) io evs"
    and tm: "tm = m_timer_manager (io_scheds io (io_self io))" "tm_wf tm"
  shows "\<exists>io' es. idle_round ctl 1 addr tickle_fd now evs io = Inr io' \<and> io_inv interest io' \<and>
           set es = {p \<in> set (m_timers tm). m_next (timer_heap tm p) \<le> now} \<and> distinct es \<and>
           sorted_wrt (\<lambda>p q. m_next (timer_heap tm p) \<le> m_next (timer_heap tm q)) es \<and>
           m_tasks (io_scheds io' (io_self io)) = m_tasks (io_scheds io (io_self io)) @
             map (\<lambda>p. Task_of_func (m_func (timer_heap tm p)) (-1)) es @ concat (map (report_tasks io) evs) \<and>
           taken_out (reported io evs) io io'"
  using idle_round_effect [OF assms] .

text \<open>One timer that is due, the pipe, and a descriptor that can be read.\<close>

definition ex_due :: "func TimerManager" where
  "ex_due = \<lparr>timer_heap = (\<lambda>_. \<lparr>m_period = 10, m_next = 50, m_func = Throw, m_recurring = False\<rparr>), m_timers = [0]\<rparr>"

definition ex_io_due :: "(c_int \<Rightarrow> (u32 \<times> nat) option) IOManager" where
  "ex_io_due = upd_self (\<lambda>s. s\<lparr>m_timer_manager := ex_due\<rparr>) ex_io_read"

definition ex_addr :: "nat \<Rightarrow> u64" where
  "ex_addr p = 4096 + 256 * of_nat p"

lemma ex_reports:
  "reports_ok (\<lambda>fd. 0 \<le> fd) ex_addr 20 0 ex_io_due [(EPOLLIN, Data_fd 20), (EPOLLIN, Data_ptr 3)]"
  "map (report_tasks ex_io_due) [(EPOLLIN, Data_fd 20), (EPOLLIN, Data_ptr 3)] = [[], [ex_task]]"
proof -
  have fc: "fc_heap ex_io_due ! 3 = ex_ctx" "length (fc_heap ex_io_due) = 32"
    using ex_io_read_ctx by (simp_all add: ex_io_due_def)
  have tr: "triggered EPOLLIN ex_ctx = READ" "READ AND READ = READ" "READ AND WRITE = 0"
    by (simp_all add: triggered_def ex_ctx_def event_defs)
  show "reports_ok (\<lambda>fd. 0 \<le> fd) ex_addr 20 0 ex_io_due [(EPOLLIN, Data_fd 20), (EPOLLIN, Data_ptr 3)]"
    by (simp add: reports_ok_def report_ok_def Let_def fc tr ex_addr_def) (simp add: ex_ctx_def tr)
  show "map (report_tasks ex_io_due) [(EPOLLIN, Data_fd 20), (EPOLLIN, Data_ptr 3)] = [[], [ex_task]]"
    by (simp add: report_tasks_def Let_def fc tr) (simp add: ex_ctx_def ctx_task_def ex_task_def)
qed

lemma ex_io_due_state:
  "io_inv (\<lambda>k. k) ex_io_due" "tm_wf ex_due" "io_self ex_io_due = 0"
  "m_timer_manager (io_scheds ex_io_due 0) = ex_due" "m_tasks (io_scheds ex_io_due 0) = []"
proof -
  show "io_inv (\<lambda>k. k) ex_io_due"
    unfolding ex_io_due_def by (rule upd_self_inv(1) [OF ex_io_read_inv]) simp
  show "io_self ex_io_due = 0" "m_timer_manager (io_scheds ex_io_due 0) = ex_due" "m_tasks (io_scheds ex_io_due 0) = []"
    using ex_io_read_ctx(3) by (simp_all add: ex_io_due_def ex_io_read_def ex_io_def upd_pending_def)
  show "tm_wf ex_due"
    by (simp add: tm_wf_def ex_due_def)
qed

theorem idle_round_correct_witness:
  "\<exists>io. idle_round ex_ctl 1 ex_addr 20 60 [(EPOLLIN, Data_fd 20), (EPOLLIN, Data_ptr 3)] ex_io_due = Inr io \<and>
        m_tasks (io_scheds io 0) = [Task_of_func Throw (-1), ex_task]"
proof -
  obtain io es where io: "idle_round ex_ctl 1 ex_addr 20 60 [(EPOLLIN, Data_fd 20), (EPOLLIN, Data_ptr 3)] ex_io_due = Inr io"
    "set es = {p \<in> set (m_timers ex_due). m_next (timer_heap ex_due p) \<le> 60}" "distinct es"
    "m_tasks (io_scheds io 0) = [] @ map (\<lambda>p. Task_of_func (m_func (timer_heap ex_due p)) (-1)) es @ concat [[], [ex_task]]"
    using idle_round_correct [OF ex_epoll ex_io_due_state(1) _ _ ex_io_due_state(2), unfolded ex_io_due_state(3-5), OF ex_reports(1) refl, where now = 60, unfolded ex_reports(2)]
    by blast
  have "set es = {0}"
    using io(2) by (auto simp: ex_due_def)
  then have "es = [0]"
    using io(3) by (cases es) (auto simp: subset_singleton_iff)
  then show ?thesis
    using io(1,4) by (simp add: ex_due_def)
qed

section \<open>The end of an IO manager\<close>

lemma unregistered_contexts:
  assumes "table_ok io" "total_registered io = 0" "p < length (fc_heap io)"
  shows "fc_events (fc_heap io ! p) = 0"
proof -
  have "reg_count (fc_heap io ! p) = 0"
    using assms(2,3) by (simp add: total_registered_def sum_list_eq_0_iff)
  moreover have "fc_events (fc_heap io ! p) \<in> event_sets"
    using assms(1,3) by (auto simp: table_ok_def ctx_ok_def)
  ultimately show ?thesis
    by (auto simp: reg_count_def event_sets_def event_defs)
qed

text \<open>The table holds every context exactly once.\<close>

lemma table_contexts:
  assumes "table_ok io"
  defines "ps \<equiv> concat (map (case_option [] (\<lambda>p. [p])) (m_fd_contexts io))"
  shows "ps = map the (m_fd_contexts io)" "distinct ps" "set ps = {..<length (fc_heap io)}"
proof -
  let ?v = "m_fd_contexts io"
  have some: "?v ! i = Some (the (?v ! i))" if "i < length ?v" for i
    using table_ok_full [OF assms(1) that] by simp
  have ctx: "ctx_of io (int i) = Some (the (?v ! i))" if "i < length ?v" for i
    using that some [OF that] by (simp add: ctx_of_table)
  have full: "None \<notin> set ?v"
    using some by (metis in_set_conv_nth option.distinct(1))
  have "concat (map (case_option [] (\<lambda>p. [p])) xs) = map the xs" if "None \<notin> set xs" for xs :: "'b option list"
    using that
  proof (induction xs)
    case (Cons x xs)
    then show ?case
      by (cases x) simp_all
  qed simp
  then show eq: "ps = map the ?v"
    using full by (simp add: ps_def)
  have ctx_iff: "ctx_of io fd = Some p \<longleftrightarrow> p < length (fc_heap io) \<and> fc_fd (fc_heap io ! p) = fd" for fd p
    using assms(1) unfolding table_ok_def by blast
  show "distinct ps"
    unfolding eq distinct_conv_nth
  proof (intro allI impI)
    fix i j assume "i < length (map the ?v)" "j < length (map the ?v)" "i \<noteq> j"
    then show "map the ?v ! i \<noteq> map the ?v ! j"
      using ctx [of i] ctx [of j] ctx_iff by auto
  qed
  show "set ps = {..<length (fc_heap io)}"
  proof (intro set_eqI iffI)
    show "p \<in> {..<length (fc_heap io)}" if "p \<in> set ps" for p
      using that ctx ctx_iff unfolding eq by (auto simp: in_set_conv_nth)
    show "p \<in> set ps" if "p \<in> {..<length (fc_heap io)}" for p
    proof -
      have "ctx_of io (fc_fd (fc_heap io ! p)) = Some p"
        using that ctx_iff by simp
      then have "nat (fc_fd (fc_heap io ! p)) < length ?v" "?v ! nat (fc_fd (fc_heap io ! p)) = Some p"
        by (auto simp: ctx_of_def split: if_splits)
      then show ?thesis
        unfolding eq by (metis image_eqI list.set_map nth_mem option.sel)
    qed
  qed
qed



end
