(* ===== verification/EVA_System.thy ===== *)
theory EVA_System
  imports EVA_Idle
begin

text \<open>
  The scheduler and the IO manager that derives from it as one system: the workers' steps of
  \<open>run()\<close> and \<open>idle()\<close>, the steps of other threads, and the operations on file events by any of
  them, in every order. An operation on file events is one step, as it runs under the mutex of its
  context; what it does to the scheduler is a sequence of steps of the scheduler.
\<close>

section \<open>The composed system\<close>

abbreviation own :: "'k IOManager \<Rightarrow> Scheduler" where
  "own io \<equiv> io_scheds io (io_self io)"

text \<open>The tasks an operation put into the scheduler's queue.\<close>

definition posted :: "'k IOManager \<Rightarrow> 'k IOManager \<Rightarrow> Task list" where
  "posted io io' = drop (length (m_tasks (own io))) (m_tasks (own io'))"

text \<open>
  The base part of the object is \<open>sch\<close> of the scheduler's system and \<^const>\<open>own\<close> of the IO manager.
  Reports are handled by a worker in \<open>idle()\<close>; the other operations are open to every thread, with
  \<open>cur\<close> its \<open>Scheduler::GetThis()\<close>.
\<close>

inductive iostep ::
  "'k epoll_ctl \<Rightarrow> ucontext_ops \<Rightarrow> sys \<times> 'k IOManager \<Rightarrow> Task list \<Rightarrow> Task list \<Rightarrow> nat \<Rightarrow> sys \<times> 'k IOManager \<Rightarrow> bool"
  for ctl uc where
  is_worker: "wstep uc t s q k l s' \<Longrightarrow> iostep ctl uc (s, io) q k l (s', upd_self (\<lambda>_. sch s') io)"
| is_other:
    "xstep uc s q s' \<Longrightarrow> m_pending_count (sch s') = m_pending_count (sch s) \<Longrightarrow>
     iostep ctl uc (s, io) q [] 0 (s', upd_self (\<lambda>_. sch s') io)"
| is_elsewhere:
    "ss (io_self io) = own io \<Longrightarrow> iostep ctl uc (s, io) [] [] 0 (s, io\<lparr>io_scheds := ss\<rparr>)"
| is_add:
    "fb_heap (fibs s) a = None \<Longrightarrow>
     addEvent ctl uc (\<lambda>_. 0) cur t a fd event f io (fibs s) = Inr (b, io', w) \<Longrightarrow>
     iostep ctl uc (s, io) [] [] 0 (s\<lparr>fibs := w, sch := own io'\<rparr>, io')"
| is_del:
    "delEvent ctl fd event io = Inr (b, io') \<Longrightarrow>
     iostep ctl uc (s, io) [] [] 0 (s\<lparr>sch := own io'\<rparr>, io')"
| is_cancel:
    "cancelEvent ctl wr fd event io = Inr (b, io') \<Longrightarrow>
     iostep ctl uc (s, io) (posted io io') [] 0 (s\<lparr>sch := own io'\<rparr>, io')"
| is_cancel_all:
    "cancelAll ctl wr fd io = Inr (b, io') \<Longrightarrow>
     iostep ctl uc (s, io) (posted io io') [] 0 (s\<lparr>sch := own io'\<rparr>, io')"
| is_report:
    "wpc s t = Idle_events \<Longrightarrow> p < length (fc_heap io) \<Longrightarrow>
     IOManager_scheduleEvent ctl wr evs p io = Inr (b, io') \<Longrightarrow>
     iostep ctl uc (s, io) (posted io io') [] 0 (s\<lparr>sch := own io'\<rparr>, io')"

inductive_cases iostepE: "iostep ctl uc (s, io) q k l (s', io')"

inductive ioruns ::
  "'k epoll_ctl \<Rightarrow> ucontext_ops \<Rightarrow> sys \<times> 'k IOManager \<Rightarrow> Task list \<Rightarrow> Task list \<Rightarrow> nat \<Rightarrow> sys \<times> 'k IOManager \<Rightarrow> bool"
  for ctl uc x0 where
  ioruns_refl: "ioruns ctl uc x0 [] [] 0 x0"
| ioruns_step:
    "ioruns ctl uc x0 q k l x \<Longrightarrow> iostep ctl uc x q' k' l' x' \<Longrightarrow>
     ioruns ctl uc x0 (q @ q') (k @ k') (l + l') x'"

text \<open>After the constructor of \<open>IOManager\<close>, which started the threads.\<close>

definition io_started :: "tid list \<Rightarrow> Scheduler \<Rightarrow> 'k IOManager \<Rightarrow> sys \<times> 'k IOManager" where
  "io_started tids c io =
     ((sys_init c)\<lparr>sch := own io, wpc := (\<lambda>t. if t \<in> set tids then Started else Not_started)\<rparr>, io)"

section \<open>What operations on events do to the scheduler\<close>

text \<open>The scheduler gets from one state to another by steps that take no task.\<close>

definition sched_runs :: "ucontext_ops \<Rightarrow> Scheduler \<Rightarrow> Scheduler \<Rightarrow> bool" where
  "sched_runs uc c c' \<longleftrightarrow> (\<forall>s. sch s = c \<longrightarrow> (\<exists>q. sruns uc s q [] 0 (s\<lparr>sch := c'\<rparr>)))"

lemma sched_runs_refl [intro]: "sched_runs uc c c"
  unfolding sched_runs_def
proof (intro allI impI)
  fix s :: sys assume "sch s = c"
  then have "s\<lparr>sch := c\<rparr> = s"
    by auto
  then show "\<exists>q. sruns uc s q [] 0 (s\<lparr>sch := c\<rparr>)"
    using sruns_refl by fastforce
qed

lemma sched_runs_trans:
  assumes "sched_runs uc c c1" "sched_runs uc c1 c2"
  shows "sched_runs uc c c2"
  unfolding sched_runs_def
proof (intro allI impI)
  fix s :: sys assume "sch s = c"
  then obtain q where "sruns uc s q [] 0 (s\<lparr>sch := c1\<rparr>)"
    using assms(1) unfolding sched_runs_def by blast
  moreover obtain q' where "sruns uc (s\<lparr>sch := c1\<rparr>) q' [] 0 (s\<lparr>sch := c1, sch := c2\<rparr>)"
    using assms(2) [unfolded sched_runs_def, rule_format, of "s\<lparr>sch := c1\<rparr>"] by auto
  ultimately show "\<exists>q. sruns uc s q [] 0 (s\<lparr>sch := c2\<rparr>)"
    using sruns_trans by fastforce
qed

lemma sched_runs_xstep:
  assumes "\<And>s. sch s = c \<Longrightarrow> xstep uc s q (s\<lparr>sch := c'\<rparr>)"
  shows "sched_runs uc c c'"
  unfolding sched_runs_def using sruns_other [OF sruns_refl assms] by fastforce

text \<open>Runs that take nothing queue exactly what is new in the queue.\<close>

lemma sched_runs_posted:
  assumes "sched_runs uc (own io) (own io')" "own io = sch s"
  shows "sruns uc s (posted io io') [] 0 (s\<lparr>sch := own io'\<rparr>)"
proof -
  obtain q where q: "sruns uc s q [] 0 (s\<lparr>sch := own io'\<rparr>)"
    using assms unfolding sched_runs_def by auto
  have "posted io io' = q"
    using sruns_queue [OF q, symmetric] assms(2) by (simp add: posted_def)
  then show ?thesis
    using q by simp
qed

lemma pending_run: "sched_runs uc (own io) (own (upd_pending f io))"
proof (rule sched_runs_xstep)
  fix s :: sys assume "sch s = own io"
  then show "xstep uc s [] (s\<lparr>sch := own (upd_pending f io)\<rparr>)"
    using x_pending [of uc s "f (m_pending_count (own io))"] by (simp add: upd_pending_def Let_def)
qed

lemma schedule_run:
  assumes "schedule wr tk c = Inr c'" "(\<exists>f. tk = Task_of_func f (-1)) \<or> (\<exists>a. tk = Task_of_fiber a (-1))"
  shows "sched_runs uc c c'"
  by (rule sched_runs_xstep [where q = "[tk]"]) (use assms in \<open>auto intro: x_schedule_func x_schedule_fiber\<close>)

lemma FdContext_scheduleEvent_run:
  assumes "FdContext_scheduleEvent wr ev p io = Inr io'"
  shows "sched_runs uc (own io) (own io')" "io_self io' = io_self io"
proof -
  let ?fc = "(fc_heap io ! p)\<lparr>fc_events := fc_events (fc_heap io ! p) AND NOT ev\<rparr>"
  show self: "io_self io' = io_self io"
    using assms by (auto elim: FdContext_scheduleEvent_Inr)
  obtain c where c: "getContext ev ?fc = Inr c"
    using assms by (auto simp: FdContext_scheduleEvent_def Let_def split: if_splits)
  have "fc_events (fc_heap io ! p) AND ev \<noteq> 0"
    using assms by (auto elim: FdContext_scheduleEvent_Inr)
  then have "\<exists>i tk s. schedule wr tk (io_scheds io i) = Inr s \<and> io_scheds io' = (io_scheds io)(i := s) \<and>
      ((\<exists>f. tk = Task_of_func f (-1)) \<or> (\<exists>a. tk = Task_of_fiber a (-1)))"
    using assms c
    by (cases "ev_func c"; cases "ev_fiber c"; cases "ev_scheduler c")
       (fastforce simp: FdContext_scheduleEvent_def Let_def)+
  then obtain i tk s where s: "schedule wr tk (io_scheds io i) = Inr s" "io_scheds io' = (io_scheds io)(i := s)"
    and tk: "(\<exists>f. tk = Task_of_func f (-1)) \<or> (\<exists>a. tk = Task_of_fiber a (-1))"
    by blast
  show "sched_runs uc (own io) (own io')"
    using schedule_run [OF s(1) tk, of uc] s(2) self by auto
qed

lemma fire_if_run:
  assumes "fire_if wr b ev p io = Inr io'"
  shows "sched_runs uc (own io) (own io')" "io_self io' = io_self io"
proof -
  show "io_self io' = io_self io"
    by (rule fire_if_Inr(3) [OF assms])
  show "sched_runs uc (own io) (own io')"
  proof (cases b)
    case True
    then obtain io1 where io1: "FdContext_scheduleEvent wr ev p io = Inr io1" "io' = upd_pending (\<lambda>n. n - 1) io1"
      using assms by (auto simp: fire_if_def)
    show ?thesis
      unfolding io1(2) by (rule sched_runs_trans [OF FdContext_scheduleEvent_run(1) [OF io1(1)] pending_run])
  next
    case False
    then show ?thesis
      using assms by (auto simp: fire_if_def)
  qed
qed

lemma delEvent_run:
  assumes "delEvent ctl fd event io = Inr (b, io')"
  shows "sched_runs uc (own io) (own io')" "io_self io' = io_self io" "m_tasks (own io') = m_tasks (own io)"
proof -
  have "own io' = own io \<and> io_self io' = io_self io \<or>
      (\<exists>k. own io' = own (upd_pending (\<lambda>n. n - 1) (io\<lparr>io_kernel := k\<rparr>)) \<and> io_self io' = io_self io)"
    using assms by (auto simp: delEvent_def Let_def split: if_splits prod.splits)
  then show "sched_runs uc (own io) (own io')" "io_self io' = io_self io" "m_tasks (own io') = m_tasks (own io)"
    using pending_run [of uc "io\<lparr>io_kernel := k\<rparr>" "\<lambda>n. n - 1" for k] by (auto simp: upd_pending_def Let_def)
qed

lemma cancelEvent_run:
  assumes "cancelEvent ctl wr fd event io = Inr (b, io')"
  shows "sched_runs uc (own io) (own io')" "io_self io' = io_self io"
proof -
  have "io' = io \<or>
      (\<exists>k p. FdContext_scheduleEvent wr event p (upd_pending (\<lambda>n. n - 1) (io\<lparr>io_kernel := k\<rparr>)) = Inr io')"
    using assms by (auto simp: cancelEvent_def Let_def split: if_splits prod.splits)
  then consider "io' = io" | k p where
      "FdContext_scheduleEvent wr event p (upd_pending (\<lambda>n. n - 1) (io\<lparr>io_kernel := k\<rparr>)) = Inr io'"
    by blast
  then have "sched_runs uc (own io) (own io') \<and> io_self io' = io_self io"
  proof cases
    case 2
    show ?thesis
      using sched_runs_trans [OF pending_run FdContext_scheduleEvent_run(1) [OF 2]]
        FdContext_scheduleEvent_run(2) [OF 2] by simp
  qed auto
  then show "sched_runs uc (own io) (own io')" "io_self io' = io_self io"
    by blast+
qed

text \<open>The two conditional statements of \<open>cancelAll\<close> and \<open>scheduleEvent\<close>.\<close>

lemma fire_both_run:
  assumes "fire_if wr b1 READ p (io\<lparr>io_kernel := k\<rparr>) = Inr io2" "fire_if wr b2 WRITE p io2 = Inr io'"
  shows "sched_runs uc (own io) (own io') \<and> io_self io' = io_self io"
  using sched_runs_trans [OF fire_if_run(1) [OF assms(1)] fire_if_run(1) [OF assms(2)]]
    fire_if_run(2) [OF assms(1)] fire_if_run(2) [OF assms(2)] by simp

lemma cancelAll_run:
  assumes "cancelAll ctl wr fd io = Inr (b, io')"
  shows "sched_runs uc (own io) (own io') \<and> io_self io' = io_self io"
proof -
  have "(own io' = own io \<and> io_self io' = io_self io) \<or>
      (\<exists>k p io2 b1 b2. fire_if wr b1 READ p (io\<lparr>io_kernel := k\<rparr>) = Inr io2 \<and> fire_if wr b2 WRITE p io2 = Inr io')"
    using assms by (fastforce simp: cancelAll_def Let_def split: if_splits prod.splits)
  then show ?thesis
    by (metis fire_both_run sched_runs_refl)
qed

lemma scheduleEvent_run:
  assumes "IOManager_scheduleEvent ctl wr evs p io = Inr (b, io')"
  shows "sched_runs uc (own io) (own io') \<and> io_self io' = io_self io"
proof -
  have "(own io' = own io \<and> io_self io' = io_self io) \<or>
      (\<exists>k io2 b1 b2. fire_if wr b1 READ p (io\<lparr>io_kernel := k\<rparr>) = Inr io2 \<and> fire_if wr b2 WRITE p io2 = Inr io')"
    using assms by (fastforce simp: IOManager_scheduleEvent_def Let_def split: if_splits prod.splits)
  then show ?thesis
    by (metis fire_both_run sched_runs_refl)
qed

lemma addEvent_own:
  assumes "addEvent ctl uc garb cur t a fd event f io w = Inr (b, io', w')"
  shows "own io' = (own io)\<lparr>m_pending_count := m_pending_count (own io) + 1\<rparr>" "io_self io' = io_self io"
    and "case f of Some g \<Rightarrow> w' = w | None \<Rightarrow> \<exists>b. GetThis uc t a w = Inr (b, w')"
proof -
  obtain p io1 where look: "addEvent_lookup garb fd (table_short fd io) io = Inr (p, io1)"
    and reg: "addEvent_register ctl uc cur t a fd event f p io1 w = Inr (io', w')"
    using assms(1) by (auto simp: addEvent_def)
  have io1: "io_scheds io1 = io_scheds io" "io_self io1 = io_self io"
    using look by (auto simp: addEvent_lookup_def Let_def resizeContexts_def split: prod.splits)
  obtain k where own: "own io' = own (upd_pending (\<lambda>n. n + 1) (io1\<lparr>io_kernel := k\<rparr>))"
    and self: "io_self io' = io_self io1"
    and fib: "case f of Some g \<Rightarrow> w' = w | None \<Rightarrow> \<exists>b. GetThis uc t a w = Inr (b, w')"
    using reg by (elim addEvent_register_Inr) (auto split: option.splits)
  show "own io' = (own io)\<lparr>m_pending_count := m_pending_count (own io) + 1\<rparr>"
    unfolding own by (simp add: io1 upd_pending_def Let_def)
  show "io_self io' = io_self io" and "case f of Some g \<Rightarrow> w' = w | None \<Rightarrow> \<exists>b. GetThis uc t a w = Inr (b, w')"
    using fib by (simp_all add: self io1)
qed

lemma addEvent_run:
  assumes "addEvent ctl uc garb cur t a fd event f io (fibs s) = Inr (b, io', w)"
    and "fb_heap (fibs s) a = None" "own io = sch s"
  shows "sruns uc s [] [] 0 (s\<lparr>fibs := w, sch := own io'\<rparr>)"
proof -
  note add = addEvent_own [OF assms(1)]
  have "sruns uc s [] [] 0 (s\<lparr>fibs := w\<rparr>)"
  proof (cases f)
    case None
    then show ?thesis
      using sruns_other [OF sruns_refl x_get_this [OF assms(2)]] add(3) by fastforce
  next
    case (Some g)
    then have "s\<lparr>fibs := w\<rparr> = s"
      using add(3) by simp
    then show ?thesis
      using sruns_refl by simp
  qed
  moreover have "xstep uc (s\<lparr>fibs := w\<rparr>) [] (s\<lparr>fibs := w, sch := own io'\<rparr>)"
    using x_pending [of uc "s\<lparr>fibs := w\<rparr>" "m_pending_count (sch s) + 1"] assms(3) by (simp add: add(1))
  ultimately show ?thesis
    using sruns_other by fastforce
qed

section \<open>Refinement\<close>

lemma wstep_pending:
  assumes "wstep uc t s q k l s'"
  shows "m_pending_count (sch s') = m_pending_count (sch s)"
  using assms
  by (cases rule: wstep.cases) (auto elim!: sched_elims take_task_Inr split: if_splits)

lemma iostep_sim:
  assumes "iostep ctl uc (s, io) q k l (s', io')" "own io = sch s"
  shows "sruns uc s q k l s'" "own io' = sch s'" "io_self io' = io_self io"
proof -
  have "sruns uc s q k l s' \<and> own io' = sch s' \<and> io_self io' = io_self io"
    using assms(1)
  proof (cases rule: iostep.cases)
    case is_worker
    then show ?thesis
      using sruns_worker [OF sruns_refl] by fastforce
  next
    case is_other
    then show ?thesis
      using sruns_other [OF sruns_refl] by fastforce
  next
    case is_elsewhere
    then show ?thesis
      using assms(2) sruns_refl by simp
  next
    case is_add
    then show ?thesis
      using addEvent_run [OF _ _ assms(2)] addEvent_own(2) by fastforce
  next
    case (is_del fd event b)
    note del = delEvent_run [OF is_del(5)]
    have "posted io io' = []"
      by (simp add: posted_def del(3))
    then show ?thesis
      using sched_runs_posted [OF del(1) assms(2)] del(2) is_del by simp
  next
    case is_cancel
    then show ?thesis
      using sched_runs_posted [OF cancelEvent_run(1) assms(2)] cancelEvent_run(2) by fastforce
  next
    case is_cancel_all
    then show ?thesis
      using sched_runs_posted [OF _ assms(2)] cancelAll_run by fastforce
  next
    case is_report
    then show ?thesis
      using sched_runs_posted [OF _ assms(2)] scheduleEvent_run by fastforce
  qed
  then show "sruns uc s q k l s'" "own io' = sch s'" "io_self io' = io_self io"
    by blast+
qed

lemma iostep_inv:
  assumes "epoll_spec ctl interest pollable" "iostep ctl uc (s, io) q k l (s', io')" "own io = sch s" "io_inv interest io"
  shows "io_inv interest io'"
  using assms(2)
proof (cases rule: iostep.cases)
  case is_worker
  then show ?thesis
    using wstep_pending assms(3) by (intro io_inv_frame [OF assms(4)]) auto
next
  case is_other
  then show ?thesis
    using assms(3) by (intro io_inv_frame [OF assms(4)]) auto
next
  case is_elsewhere
  then show ?thesis
    by (intro io_inv_frame [OF assms(4)]) auto
qed (use assms(1,4) in \<open>auto intro: addEvent_inv delEvent_inv cancelEvent_inv cancelAll_inv scheduleEvent_inv\<close>)

lemma ioruns_sim:
  assumes "ioruns ctl uc (s0, io0) q k l x" "own io0 = sch s0" "epoll_spec ctl interest pollable" "io_inv interest io0"
  shows "sruns uc s0 q k l (fst x) \<and> own (snd x) = sch (fst x) \<and> io_self (snd x) = io_self io0 \<and>
         io_inv interest (snd x)"
  using assms(1)
proof induction
  case ioruns_refl
  then show ?case
    using assms(2,4) sruns_refl by simp
next
  case (ioruns_step q k l x q' k' l' x')
  obtain s io s' io' where x: "x = (s, io)" "x' = (s', io')"
    by fastforce
  have step: "iostep ctl uc (s, io) q' k' l' (s', io')"
    using ioruns_step.hyps(2) x by simp
  have IH: "sruns uc s0 q k l s" "own io = sch s" "io_self io = io_self io0" "io_inv interest io"
    using ioruns_step.IH unfolding x fst_conv snd_conv by blast+
  show ?case
    using sruns_trans [OF iostep_sim(1) [OF step IH(2)] IH(1)] iostep_sim(2,3) [OF step IH(2)] IH(3)
      iostep_inv [OF assms(3) step IH(2,4)] unfolding x fst_conv snd_conv by simp
qed

lemma io_started_run:
  assumes "IOManager_ctor garb tids self scheds k = Inr io" "fresh_scheduler (scheds self)"
    and "distinct tids" "length tids = m_thread_count (scheds self)"
  shows "sruns uc (sys_init (scheds self)) [] [] 0 (fst (io_started tids (scheds self) io))"
    "own io = sch (fst (io_started tids (scheds self) io))" "io_self io = self"
proof -
  let ?s = "sys_init (scheds self)"
  obtain c where c: "Scheduler_start tids (scheds self) = Inr c" "own io = c" "io_self io = self"
    using assms(1) by (auto simp: IOManager_ctor_def resize_empty)
  have "xstep uc ?s [] (?s\<lparr>sch := c, wpc := (\<lambda>t. if t \<in> set tids then Started else wpc ?s t)\<rparr>)"
    using assms(3,4) fresh_scheduler_fields [OF assms(2)] c(1) by (intro x_start) (simp_all add: sys_init_def)
  then have "xstep uc ?s [] (fst (io_started tids (scheds self) io))"
    by (simp add: io_started_def sys_init_def c(2) cong: if_cong)
  then show "sruns uc ?s [] [] 0 (fst (io_started tids (scheds self) io))"
    using sruns_other [OF sruns_refl] by fastforce
  show "own io = sch (fst (io_started tids (scheds self) io))" "io_self io = self"
    by (simp_all add: io_started_def c(3))
qed

text \<open>What holds in every state that a run from the constructor reaches.\<close>

lemma ioruns_reach:
  assumes "epoll_spec ctl interest pollable" "interest k0 = (\<lambda>_. None)"
    and "fresh_scheduler (scheds self)" "distinct tids" "length tids = m_thread_count (scheds self)"
    and "IOManager_ctor (\<lambda>_. 0) tids self scheds k0 = Inr io0"
    and "ioruns ctl uc (io_started tids (scheds self) io0) q k l (s, io)"
  shows "sruns uc (sys_init (scheds self)) q k l s" "own io = sch s" "io_self io = self" "io_inv interest io"
proof -
  note st = io_started_run [OF assms(6,3,4,5)]
  have "io_inv interest io0"
    by (rule io_fresh_inv) (use assms(2,3,6) in \<open>auto simp: io_fresh_def\<close>)
  note sim = ioruns_sim [OF assms(7) [unfolded io_started_def] st(2) [unfolded io_started_def fst_conv] assms(1) this,
      unfolded fst_conv snd_conv st(3)]
  then show "own io = sch s" "io_self io = self" "io_inv interest io"
    by blast+
  have "sruns uc (fst (io_started tids (scheds self) io0)) q k l s"
    unfolding io_started_def fst_conv st(3) using sim by blast
  from sruns_trans [OF this st(1) [of uc]] show "sruns uc (sys_init (scheds self)) q k l s"
    by simp
qed

lemma no_registration:
  assumes "io_inv interest io" "total_registered io = 0"
  shows "registered io fd event = None"
proof -
  have ok: "table_ok io"
    using assms(1) by (simp add: io_inv_def)
  have "fc_events (fc_heap io ! p) = 0" if "ctx_of io fd = Some p" for p
    using unregistered_contexts [OF ok assms(2)] that ok unfolding table_ok_def by blast
  then show ?thesis
    by (simp add: registered_def split: option.split)
qed



section \<open>A round of \<open>idle()\<close> in the system\<close>

lemma ioruns_trans:
  assumes "ioruns ctl uc x1 q' k' l' x2" "ioruns ctl uc x0 q k l x1"
  shows "ioruns ctl uc x0 (q @ q') (k @ k') (l + l') x2"
  using assms(1)
proof induction
  case ioruns_refl
  then show ?case
    using assms(2) by simp
next
  case (ioruns_step q1 k1 l1 x q2 k2 l2 x')
  then show ?case
    using ioruns.ioruns_step [OF ioruns_step.IH ioruns_step.hyps(2)] by (simp add: add.assoc)
qed

lemma scheduleEvent_contexts:
  assumes "IOManager_scheduleEvent ctl wr evs p io = Inr (b, io')"
  shows "length (fc_heap io') = length (fc_heap io)"
proof -
  have "fc_heap io' = fc_heap io \<or>
      (\<exists>k io2 b1 b2. fire_if wr b1 READ p (io\<lparr>io_kernel := k\<rparr>) = Inr io2 \<and> fire_if wr b2 WRITE p io2 = Inr io')"
    using assms by (fastforce simp: IOManager_scheduleEvent_def Let_def split: if_splits prod.splits)
  then show ?thesis
    by (auto dest!: fire_if_Inr(1))
qed

text \<open>Reports point to contexts there are.\<close>

definition reports_exist :: "'k IOManager \<Rightarrow> report list \<Rightarrow> bool" where
  "reports_exist io evs \<longleftrightarrow> (\<forall>bits p. (bits, Data_ptr p) \<in> set evs \<longrightarrow> p < length (fc_heap io))"

lemma idle_event_run:
  assumes "idle_event ctl wr addr tickle_fd ev io = Inr io'" "reports_exist io (ev # evs)"
    and "wpc s t = Idle_events" "own io = sch s"
  shows "\<exists>q. ioruns ctl uc (s, io) q [] 0 (s\<lparr>sch := own io'\<rparr>, io')" "reports_exist io' evs" "io_self io' = io_self io"
proof -
  obtain bits d where ev: "ev = (bits, d)"
    by fastforce
  consider (pipe) "io' = upd_self (\<lambda>s. s\<lparr>m_tickle_bytes := 0\<rparr>) io"
    | (ptr) p b where "d = Data_ptr p" "IOManager_scheduleEvent ctl wr bits p io = Inr (b, io')"
    using assms(1) by (auto simp: idle_event_def ev split: if_splits epoll_data.splits)
  then have "(\<exists>q. ioruns ctl uc (s, io) q [] 0 (s\<lparr>sch := own io'\<rparr>, io')) \<and> reports_exist io' evs \<and>
      io_self io' = io_self io"
  proof cases
    case pipe
    have "\<exists>q. ioruns ctl uc (s, io) q [] 0 (s\<lparr>sch := own io'\<rparr>, io')"
    proof (cases "m_tickle_bytes (sch s) = 0")
      case True
      then have "(sch s)\<lparr>m_tickle_bytes := 0\<rparr> = sch s"
        by simp
      then have "own io' = sch s" "io' = io"
        using assms(4) by (simp_all add: pipe upd_self_def fun_upd_idem)
      then show ?thesis
        using ioruns_refl by fastforce
    next
      case False
      have "goto t Idle_events (s\<lparr>sch := own io'\<rparr>) = s\<lparr>sch := own io'\<rparr>"
        using assms(3) by (simp add: fun_upd_idem)
      then have "wstep uc t s [] [] 0 (s\<lparr>sch := own io'\<rparr>)"
        using i_drain [OF assms(3) False, of uc] assms(4) by (simp add: pipe)
      from ioruns_step [OF ioruns_refl is_worker [OF this]] show ?thesis
        by (auto simp: pipe upd_self_def)
    qed
    then show ?thesis
      using assms(2) by (simp add: pipe reports_exist_def)
  next
    case ptr
    have "p < length (fc_heap io)"
      using assms(2) by (auto simp: reports_exist_def ev ptr(1))
    from ioruns_step [OF ioruns_refl is_report [OF assms(3) this ptr(2), of uc]] show ?thesis
      using assms(2) scheduleEvent_contexts [OF ptr(2)] scheduleEvent_run [OF ptr(2)]
      by (auto simp: reports_exist_def)
  qed
  then show "\<exists>q. ioruns ctl uc (s, io) q [] 0 (s\<lparr>sch := own io'\<rparr>, io')" "reports_exist io' evs" "io_self io' = io_self io"
    by blast+
qed

lemma idle_events_run:
  assumes "idle_events ctl wr addr tickle_fd evs io = Inr io'" "reports_exist io evs"
    and "wpc s t = Idle_events" "own io = sch s"
  shows "(\<exists>q. ioruns ctl uc (s, io) q [] 0 (s\<lparr>sch := own io'\<rparr>, io')) \<and> io_self io' = io_self io"
  using assms
proof (induction evs arbitrary: io s)
  case Nil
  then have "s\<lparr>sch := own io'\<rparr> = s" "io' = io"
    by auto
  then show ?case
    using ioruns_refl by fastforce
next
  case (Cons ev evs)
  obtain io1 where io1: "idle_event ctl wr addr tickle_fd ev io = Inr io1"
    "idle_events ctl wr addr tickle_fd evs io1 = Inr io'"
    using Cons.prems(1) by auto
  let ?s = "s\<lparr>sch := own io1\<rparr>"
  note ev = idle_event_run [OF io1(1) Cons.prems(2-4)]
  obtain q where "ioruns ctl uc (s, io) q [] 0 (?s, io1)"
    using ev(1) [of uc] by blast
  moreover obtain q' where "ioruns ctl uc (?s, io1) q' [] 0 (?s\<lparr>sch := own io'\<rparr>, io')" "io_self io' = io_self io1"
    using Cons.IH [OF io1(2) ev(2), of ?s] Cons.prems(3) by auto
  ultimately show ?case
    using ioruns_trans ev(3) by fastforce
qed



section \<open>An event before the fiber has yielded\<close>

text \<open>
  C23. Waiting for an event is \<open>addEvent\<close> for the running fiber and then \<open>Fiber::Yield()\<close>, as in
  \<open>do_io\<close>, and the two are not atomic: if the event is reported to another worker in between, the
  fiber is queued while it is running, and the worker that takes it next aborts in \<open>run()\<close>.
\<close>

theorem ready_before_yield_aborts:
  assumes "epoll_spec ctl interest pollable" "io_inv interest io" "0 \<le> fd" "pollable fd"
    and event: "event = READ \<or> event = WRITE" and "\<not> slot_used io fd event"
    and "t_fiber w t = Some b" "fb_heap w b = Some fb" "fb_state fb = RUNNING"
    and "m_tasks (io_scheds io (io_self io)) = []"
  shows "\<exists>io1 p io2. addEvent ctl uc (\<lambda>_. 0) (Some (io_self io)) t a fd event None io w = Inr (True, io1, w) \<and>
           ctx_of io1 fd = Some p \<and> IOManager_scheduleEvent ctl 1 event p io1 = Inr (True, io2) \<and>
           take_task t' w (io_scheds io2 (io_self io)) = Some (Inl AssertFail)"
proof -
  have "new_context (Some (io_self io)) t None w (no_context\<lparr>ev_scheduler := Some (io_self io), ev_fiber := Some b\<rparr>)"
    using assms(7-9) by (simp add: new_context_def)
  from addEvent_adds_context [OF assms(1-6) this, of uc a] obtain io1
    where add: "addEvent ctl uc (\<lambda>_. 0) (Some (io_self io)) t a fd event None io w = Inr (True, io1, w)"
      and reg: "registered io1 fd event = Some (Some (io_self io), Some (Task_of_fiber b (-1)))"
    by (auto simp: ctx_task_def no_context_def)
  have inv: "io_inv interest io1"
    by (rule addEvent_inv [OF assms(1,2) add])
  obtain p where p: "ctx_of io1 fd = Some p"
    using reg by (auto simp: registered_def split: option.splits)
  have "triggered event (fc_heap io1 ! p) = event"
    using event by (auto simp: triggered_def event_defs)
  from report_fires [OF assms(1) inv assms(4) event reg p this] obtain io2
    where io2: "IOManager_scheduleEvent ctl 1 event p io1 = Inr (True, io2)"
      "m_tasks (io_scheds io2 (io_self io)) = m_tasks (io_scheds io1 (io_self io)) @ [Task_of_fiber b (-1)]"
    by blast
  have "m_tasks (io_scheds io2 (io_self io)) = [Task_of_fiber b (-1)]"
    using io2(2) addEvent_own(1,2) [OF add] assms(10) by simp
  from take_task_simps(3) [OF this, of t' w] have "take_task t' w (io_scheds io2 (io_self io)) = Some (Inl AssertFail)"
    using assms(8,9) by (simp add: task_ok_def Task_of_fiber_def)
  then show ?thesis
    using add p io2(1) by blast
qed

theorem ready_before_yield_aborts_witness:
  "\<exists>io1 p io2. addEvent ex_ctl ex_uc (\<lambda>_. 0) (Some 0) 0 1 3 READ None ex_io (fibs ex_twice) = Inr (True, io1, fibs ex_twice) \<and>
     IOManager_scheduleEvent ex_ctl 1 READ p io1 = Inr (True, io2) \<and>
     take_task 8 (fibs ex_twice) (io_scheds io2 0) = Some (Inl AssertFail)"
proof -
  have "io_self ex_io = 0" "m_tasks (io_scheds ex_io 0) = []"
    by (simp_all add: ex_io_def ex_sched_def)
  moreover have "t_fiber (fibs ex_twice) 0 = Some 0" "fb_heap (fibs ex_twice) 0 = Some ex_main" "fb_state ex_main = RUNNING"
    by (simp_all add: ex_twice_def ex_main_def)
  ultimately show ?thesis
    using ready_before_yield_aborts [OF ex_epoll ex_io_inv _ _ _ ex_io_unused, of 3 READ "fibs ex_twice" 0 0 ex_main ex_uc 1 8]
    by auto
qed

end
