(* ===== verification/EVA_Stop.thy ===== *)
theory EVA_Stop
  imports EVA_Scheduler
begin

text \<open>
  That \<open>stop()\<close> ends: once \<open>shouldStop()\<close> holds and no worker has a task in its hands, the workers of
  \<open>src/src/scheduler.cpp\<close> leave \<open>run()\<close> after a bounded number of steps, in whatever order they move.
\<close>

section \<open>Workers with nothing in their hands\<close>

text \<open>Positions where a worker holds a task that neither the queue nor the counter shows.\<close>

fun in_gap :: "wpc \<Rightarrow> bool" where
  "in_gap (Took tk nt) \<longleftrightarrow> has_task tk"
| "in_gap (Resched_fiber a) \<longleftrightarrow> True"
| "in_gap (Resched_func a) \<longleftrightarrow> True"
| "in_gap (Idle_fired fs) \<longleftrightarrow> fs \<noteq> []"
| "in_gap pc \<longleftrightarrow> False"

text \<open>A worker that found the queue empty does not tickle.\<close>

fun no_tickle :: "wpc \<Rightarrow> bool" where
  "no_tickle (Took tk nt) \<longleftrightarrow> has_task tk \<or> \<not> nt"
| "no_tickle (Counted tk nt) \<longleftrightarrow> has_task tk \<or> \<not> nt"
| "no_tickle pc \<longleftrightarrow> True"

text \<open>Threads get their main fiber together with their current one, and addresses never run out.\<close>

definition fibers_ready :: "eff fibers \<Rightarrow> bool" where
  "fibers_ready w \<longleftrightarrow> finite (dom (fb_heap w)) \<and> (\<forall>t. t_fiber w t = None \<longrightarrow> t_main_fiber w t = None)"

definition calm :: "sys \<Rightarrow> bool" where
  "calm s \<longleftrightarrow> (\<forall>t. no_tickle (wpc s t)) \<and> fibers_ready (fibs s)"

definition quiet :: "sys \<Rightarrow> bool" where
  "quiet s \<longleftrightarrow>
     shouldStop (sch s) \<and> (\<forall>t. \<not> counted (wpc s t) \<and> \<not> in_gap (wpc s t)) \<and> stop_inv s \<and> calm s"

section \<open>What every run keeps\<close>

lemmas fibers_defs = GetThis_def MakeMain_def Fiber_ctor_main_def Fiber_ctor_def Fiber_reset_def call_enter_def
  prepare_func_fiber_def switch_defs Let_def

lemma fibers_ready_GetThis: "GetThis uc t a w = Inr (b, w') \<Longrightarrow> fibers_ready w \<Longrightarrow> fibers_ready w'"
  by (auto simp: fibers_ready_def fibers_defs split: if_splits option.splits)

lemma fibers_ready_ctor: "Fiber_ctor uc t a p b w = Inr w' \<Longrightarrow> fibers_ready w \<Longrightarrow> fibers_ready w'"
  by (auto simp: fibers_ready_def Fiber_ctor_def Let_def)

lemma fibers_ready_reset: "Fiber_reset uc t a p w = Inr w' \<Longrightarrow> fibers_ready w \<Longrightarrow> fibers_ready w'"
  by (auto simp: fibers_ready_def Fiber_reset_def deref_def split: option.splits)

lemma dom_upd_fiber [simp]: "dom ((fb_heap w)(a := map_option f (fb_heap w a))) = dom (fb_heap w)"
  by (auto simp: dom_def)

lemma fibers_ready_enter: "call_enter uc t a w = Inr w' \<Longrightarrow> fibers_ready w \<Longrightarrow> fibers_ready w'"
  by (auto simp: fibers_ready_def call_enter_def deref_def Let_def set_t_fiber_def split: option.splits if_splits)

lemma fibers_ready_leave:
  "Fiber_Yield uc t a c w = Some (Inr w') \<Longrightarrow> fibers_ready w \<Longrightarrow> fibers_ready w'"
  "Fiber_YieldReady uc t a c w = Some (Inr w') \<Longrightarrow> fibers_ready w \<Longrightarrow> fibers_ready w'"
  "MainFunc_end uc t a st w = Inr w' \<Longrightarrow> fibers_ready w \<Longrightarrow> fibers_ready w'"
  by (auto simp: fibers_ready_def switch_defs Let_def split: if_splits option.splits)

lemmas fibers_ready_ops = fibers_ready_GetThis fibers_ready_ctor fibers_ready_reset fibers_ready_enter fibers_ready_leave

lemma wstep_calm:
  assumes "wstep uc t s q k l s'" "calm s"
  shows "calm s'"
proof -
  have "fibers_ready (fibs s')"
    using assms(1)
    by (cases rule: wstep.cases)
       (use assms(2) in \<open>auto simp: calm_def prepare_func_fiber_def split: option.splits if_splits dest: fibers_ready_ops\<close>)
  moreover have "no_tickle (wpc s' u)" for u
  proof -
    have old: "no_tickle (wpc s t)" "no_tickle (wpc s u)"
      using assms(2) by (simp_all add: calm_def)
    show ?thesis
      using assms(1) by (cases rule: wstep.cases) (use old in \<open>auto elim!: take_task_Inr split: if_splits\<close>)
  qed
  ultimately show ?thesis
    by (simp add: calm_def)
qed

lemma xstep_calm:
  assumes "xstep uc s q s'" "calm s"
  shows "calm s'"
  using assms(1)
  by (cases rule: xstep.cases) (use assms(2) in \<open>auto simp: calm_def dest: fibers_ready_ops\<close>)

lemma sruns_calm: "sruns uc (sys_init c) q k l s \<Longrightarrow> calm s"
proof (induction rule: sruns.induct)
  case sruns_refl
  then show ?case
    by (simp add: calm_def sys_init_def fibers_ready_def fibers_init_def)
qed (auto intro: wstep_calm xstep_calm)

section \<open>The way out\<close>

text \<open>How many steps a worker is away from the end of \<open>run()\<close> when \<open>shouldStop()\<close> holds.\<close>

fun exit_dist :: "State \<Rightarrow> wpc \<Rightarrow> nat" where
  "exit_dist st Not_started = 0"
| "exit_dist st Exited = 0"
| "exit_dist st (Dispatch tk) = (if st = TERMINATED then 1 else 7)"
| "exit_dist st (Counted tk nt) = (if st = TERMINATED then 2 else 8)"
| "exit_dist st (Took tk nt) = (if st = TERMINATED then 3 else 9)"
| "exit_dist st Top = (if st = TERMINATED then 4 else 10)"
| "exit_dist st Back_idle = (if st = TERMINATED then 5 else 11)"
| "exit_dist st Started = 11"
| "exit_dist st Idle_top = 6"
| "exit_dist st Idle_events = 12"
| "exit_dist st (Idle_fired fs) = 13"
| "exit_dist st Idle_wait = 14"
| "exit_dist st pc = 0"

lemma exit_dist_le: "exit_dist st pc \<le> 14"
  by (cases pc) auto

definition steps_left :: "sys \<Rightarrow> nat" where
  "steps_left s =
     (\<Sum>t\<in>set (m_threads (sch s)). exit_dist (idle_fiber s t) (wpc s t)) + of_bool (m_tickle_bytes (sch s) \<noteq> 0)"

lemma steps_left_le: "steps_left s \<le> 14 * length (m_threads (sch s)) + 1"
proof -
  have "(\<Sum>t\<in>set (m_threads (sch s)). exit_dist (idle_fiber s t) (wpc s t)) \<le> card (set (m_threads (sch s))) * 14"
    using sum_bounded_above [of "set (m_threads (sch s))" "\<lambda>t. exit_dist (idle_fiber s t) (wpc s t)" 14] exit_dist_le by simp
  also have "\<dots> \<le> 14 * length (m_threads (sch s))"
    using card_length [of "m_threads (sch s)"] by simp
  finally show ?thesis
    by (simp add: steps_left_def)
qed

lemma no_timers_due:
  assumes "\<not> hasTimers tm" "getExpiredFuncs now [] tm = (fs, tm')"
  shows "fs = []" "\<not> hasTimers tm'"
  using assms by (auto simp: hasTimers_def getExpiredFuncs_def split: if_splits prod.splits)

text \<open>One step of a worker with nothing in its hands.\<close>

lemma quiet_step:
  assumes "wstep uc t s q k l s'" "quiet s"
  shows "shouldStop (sch s')" "\<not> counted (wpc s' t)" "\<not> in_gap (wpc s' t)"
    "exit_dist (idle_fiber s' t) (wpc s' t) + of_bool (m_tickle_bytes (sch s') \<noteq> 0) <
     exit_dist (idle_fiber s t) (wpc s t) + of_bool (m_tickle_bytes (sch s) \<noteq> 0)"
proof -
  have pc: "\<not> counted (wpc s t)" "\<not> in_gap (wpc s t)" "no_tickle (wpc s t)"
    and stop: "shouldStop (sch s)" and init: "wpc s t = Started \<longrightarrow> idle_fiber s t = READY"
    using assms(2) by (auto simp: quiet_def calm_def stop_inv_def)
  have tasks: "m_tasks (sch s) = []" and timers: "\<not> hasTimers (m_timer_manager (sch s))"
    using stop by (simp_all add: shouldStop_def)
  have "shouldStop (sch s') \<and> \<not> counted (wpc s' t) \<and> \<not> in_gap (wpc s' t) \<and>
    exit_dist (idle_fiber s' t) (wpc s' t) + of_bool (m_tickle_bytes (sch s') \<noteq> 0) <
    exit_dist (idle_fiber s t) (wpc s t) + of_bool (m_tickle_bytes (sch s) \<noteq> 0)"
    using assms(1)
  proof (cases rule: wstep.cases)
    case (w_take tk nt c)
    then show ?thesis
      using stop tasks by (auto elim!: take_task_Inr)
  next
    case (i_woken now fs tm)
    then show ?thesis
      using no_timers_due [OF timers, of now fs tm] stop by (auto simp: shouldStop_def)
  qed (use pc stop init in \<open>auto simp: shouldStop_def has_task_def fiber_runnable_def split: option.splits if_splits\<close>)
  then show "shouldStop (sch s')" "\<not> counted (wpc s' t)" "\<not> in_gap (wpc s' t)"
    "exit_dist (idle_fiber s' t) (wpc s' t) + of_bool (m_tickle_bytes (sch s') \<noteq> 0) <
     exit_dist (idle_fiber s t) (wpc s t) + of_bool (m_tickle_bytes (sch s) \<noteq> 0)"
    by blast+
qed

lemma quiet_wstep:
  assumes "wstep uc t s q k l s'" "quiet s"
  shows "quiet s'" "steps_left s' < steps_left s"
proof -
  note fr = wstep_frame [OF assms(1)] and st = quiet_step [OF assms]
  have inv: "stop_inv s" "calm s"
    using assms(2) by (simp_all add: quiet_def)
  have "\<not> counted (wpc s' u) \<and> \<not> in_gap (wpc s' u)" for u
    using assms(2) st(2,3) fr(5) by (cases "u = t") (simp_all add: quiet_def)
  then show "quiet s'"
    using st(1) wstep_stop_inv [OF assms(1) inv(1)] wstep_calm [OF assms(1) inv(2)] by (simp add: quiet_def)
  let ?T = "set (m_threads (sch s))" and ?d = "\<lambda>s t. exit_dist (idle_fiber s t) (wpc s t)"
  have t: "t \<in> ?T"
    using inv(1) fr(7) by (simp add: stop_inv_def)
  have "(\<Sum>u\<in>?T. ?d s u) = ?d s t + (\<Sum>u\<in>?T - {t}. ?d s u)" "(\<Sum>u\<in>?T. ?d s' u) = ?d s' t + (\<Sum>u\<in>?T - {t}. ?d s' u)"
    using t by (simp_all add: sum.remove)
  moreover have "(\<Sum>u\<in>?T - {t}. ?d s' u) = (\<Sum>u\<in>?T - {t}. ?d s u)"
    using fr(5,6) by (intro sum.cong) auto
  ultimately show "steps_left s' < steps_left s"
    using st(4) by (simp add: steps_left_def fr(1))
qed

text \<open>None of them ever waits for another: while a worker is not out, it has a step.\<close>

lemma quiet_moves:
  assumes "quiet s" "ucontext_ok uc" "running (wpc s t)"
  shows "\<exists>q k l s'. wstep uc t s q k l s'"
proof -
  have pc: "\<not> counted (wpc s t)" "\<not> in_gap (wpc s t)" "no_tickle (wpc s t)" and stop: "shouldStop (sch s)"
    and ready: "fibers_ready (fibs s)"
    using assms(1) by (auto simp: quiet_def calm_def)
  have tasks: "m_tasks (sch s) = []"
    using stop by (simp add: shouldStop_def)
  show ?thesis
  proof (cases "wpc s t")
    case Started
    obtain a where a: "fb_heap (fibs s) a = None"
      using ready ex_new_if_finite [of "dom (fb_heap (fibs s))"] by (auto simp: fibers_ready_def)
    have "\<exists>m w. GetThis uc t a (fibs s) = Inr (m, w)"
      using ready assms(2) by (auto simp: fibers_ready_def fibers_defs)
    then show ?thesis
      using w_begin [OF Started a] by blast
  next
    case Top
    then show ?thesis
      using w_take [OF Top] take_task_simps(1) [OF tasks] by blast
  next
    case (Counted tk nt)
    then show ?thesis
      using w_tickle [OF Counted, of 1 "sch s" uc] pc by simp blast
  next
    case (Dispatch tk)
    then have no: "\<not> fiber_runnable (fibs s) tk" "tk_func tk = None"
      using pc(1) by (auto simp: has_task_def fiber_runnable_def)
    then show ?thesis
      using w_exit [OF Dispatch no] w_idle [OF Dispatch no] by (cases "idle_fiber s t = TERMINATED") blast+
  next
    case (Idle_fired fs)
    then show ?thesis
      using i_fired [OF Idle_fired, of 1 "sch s" uc] pc(2) by simp blast
  next
    case Idle_wait
    then show ?thesis
      using i_woken [OF Idle_wait] by (metis prod.collapse)
  qed (use assms(3) pc stop w_count [of s t] i_stop [of s t] i_yield [of s t] w_idle_back [of s t] in
      \<open>simp_all add: running_def, blast+\<close>)
qed

section \<open>Termination\<close>

text \<open>\<open>n\<close> steps of workers.\<close>

inductive wruns :: "ucontext_ops \<Rightarrow> sys \<Rightarrow> nat \<Rightarrow> sys \<Rightarrow> bool" for uc s0 where
  wruns_refl: "wruns uc s0 0 s0"
| wruns_step: "wruns uc s0 n s \<Longrightarrow> wstep uc t s q k l s' \<Longrightarrow> wruns uc s0 (Suc n) s'"

lemma quiet_wruns:
  assumes "wruns uc s n s'" "quiet s"
  shows "quiet s' \<and> n + steps_left s' \<le> steps_left s"
  using assms(1)
proof induction
  case (wruns_step n s1 t q k l s')
  then show ?case
    using quiet_wstep [of uc t s1 q k l s'] by auto
qed (simp add: assms(2))

text \<open>
  C3. \<open>stop()\<close> ends. In any reachable state in which \<open>shouldStop()\<close> holds and no worker is at one of
  the points where it holds a task that is neither queued nor counted, whatever order the workers
  move in, they make at most fourteen steps each, and one for emptying the pipe; \<open>shouldStop()\<close> goes
  on to hold; and when none of them can move any more, all have left \<open>run()\<close>, so that the joins of
  \<open>stop()\<close> return.
\<close>

theorem stop_terminates:
  assumes "fresh_scheduler c" "sruns uc (sys_init c) scheduled taken leaks s" "ucontext_ok uc"
    and "shouldStop (sch s)" "card {t. counted (wpc s t)} + leaks < 2 ^ 64" "\<forall>t. \<not> in_gap (wpc s t)"
    and "wruns uc s n s'"
  shows "n \<le> 14 * length (m_threads (sch s)) + 1 \<and> shouldStop (sch s') \<and>
         ((\<forall>t q k l s''. \<not> wstep uc t s' q k l s'') \<longrightarrow> (\<forall>t \<in> set (m_threads (sch s')). wpc s' t = Exited))"
proof -
  have inv: "counter_inv leaks s"
    by (rule sruns_counts [OF assms(2,1)])
  have "card {t. counted (wpc s t)} + leaks = 0"
    using inv assms(4,5) by (intro of_nat_u64_eq_0) (simp_all add: counter_inv_def shouldStop_def)
  then have "\<not> counted (wpc s t)" for t
    using inv finite_in_position(1) [of s] by (auto simp: counter_inv_def)
  then have "quiet s"
    using assms(4,6) sruns_stop_inv [OF assms(2,1)] sruns_calm [OF assms(2)] by (simp add: quiet_def)
  note last = quiet_wruns [OF assms(7) this]
  have "wpc s' t = Exited" if "\<forall>t q k l s''. \<not> wstep uc t s' q k l s''" "t \<in> set (m_threads (sch s'))" for t
  proof -
    have "\<not> running (wpc s' t)"
      using quiet_moves [OF _ assms(3)] last that(1) by blast
    moreover have "wpc s' t \<noteq> Not_started"
      using last that(2) by (auto simp: quiet_def stop_inv_def)
    ultimately show ?thesis
      by (simp add: running_def)
  qed
  then show ?thesis
    using last steps_left_le [of s] by (auto simp: quiet_def)
qed

text \<open>Workers that are let run do come to where none of them can move.\<close>

lemma wruns_trans: "wruns uc s1 m s2 \<Longrightarrow> wruns uc s0 n s1 \<Longrightarrow> wruns uc s0 (n + m) s2"
proof (induction rule: wruns.induct)
  case (wruns_step m s t q k l s')
  then show ?case
    using wruns.wruns_step [of uc s0 "n + m" s t q k l s'] by simp
qed simp

lemma quiet_ends:
  assumes "quiet s"
  shows "\<exists>n s'. wruns uc s n s' \<and> (\<forall>t q k l s''. \<not> wstep uc t s' q k l s'')"
  using assms
proof (induction "steps_left s" arbitrary: s rule: less_induct)
  case less
  show ?case
  proof (cases "\<exists>t q k l s1. wstep uc t s q k l s1")
    case True
    then obtain t q k l s1 where st: "wstep uc t s q k l s1"
      by blast
    obtain n s' where "wruns uc s1 n s'" "\<forall>t q k l s''. \<not> wstep uc t s' q k l s''"
      using less.hyps [OF quiet_wstep(2) [OF st less.prems] quiet_wstep(1) [OF st less.prems]] by blast
    then show ?thesis
      using wruns_trans [OF _ wruns_step [OF wruns_refl st]] by blast
  next
    case False
    then show ?thesis
      using wruns_refl by blast
  qed
qed

text \<open>A scheduler with one worker, started and stopped at once.\<close>

definition ex_halt :: sys where
  "ex_halt = ex_sys\<lparr>sch := stop_begin ((sch ex_sys)\<lparr>m_tasks := []\<rparr>), stopper := Stop_tickle 1\<rparr>"

lemma ex_halt_run: "sruns ex_uc (sys_init ex_sched) [] [] 0 ex_halt"
proof -
  let ?s = "sys_init ex_sched" and ?c = "(sch ex_sys)\<lparr>m_tasks := []\<rparr>"
  let ?s1 = "?s\<lparr>sch := ?c, wpc := (\<lambda>t. if t \<in> set [1] then Started else wpc ?s t)\<rparr>"
  have "xstep ex_uc ?s [] ?s1"
    by (rule x_start) (simp_all add: ex_eval)
  moreover have "xstep ex_uc ?s1 [] (?s1\<lparr>sch := stop_begin (sch ?s1), stopper := Stop_tickle (m_thread_count (sch ?s1))\<rparr>)"
    by (rule x_stop) (simp add: sys_init_def)
  ultimately have "sruns ex_uc ?s [] [] 0 (?s1\<lparr>sch := stop_begin (sch ?s1), stopper := Stop_tickle (m_thread_count (sch ?s1))\<rparr>)"
    using sruns_other [OF sruns_other [OF sruns_refl]] by fastforce
  then show ?thesis
    by (simp add: ex_halt_def ex_sys_def sys_init_def ex_sched_def cong: if_cong)
qed

theorem stop_terminates_witness:
  "\<exists>n s'. wruns ex_uc ex_halt n s' \<and> n \<le> 15 \<and> wpc s' 1 = Exited"
proof -
  have stop: "shouldStop (sch ex_halt)" and pc: "\<not> counted (wpc ex_halt t)" "\<not> in_gap (wpc ex_halt t)" for t
    by (simp_all add: ex_halt_def ex_sys_def ex_sched_def shouldStop_def stop_begin_def hasTimers_def)
  have "quiet ex_halt"
    using stop pc sruns_stop_inv [OF ex_halt_run ex_sched_fresh] sruns_calm [OF ex_halt_run] by (simp add: quiet_def)
  then obtain n s' where run: "wruns ex_uc ex_halt n s'" "\<forall>t q k l s''. \<not> wstep ex_uc t s' q k l s''"
    using quiet_ends by blast
  have keep: "m_threads (sch s') = [1]"
    using run(1) by (induction rule: wruns.induct) (auto simp: wstep_frame(1) ex_halt_def stop_begin_def ex_sys_def)
  show ?thesis
    using stop_terminates [OF ex_sched_fresh ex_halt_run ex_uc_ok stop _ _ run(1)] run keep pc
    by (auto simp: ex_halt_def stop_begin_def ex_sys_def)
qed

end
