(* ===== verification/EVA_Race.thy ===== *)
theory EVA_Race
  imports EVA_Scheduler
begin

text \<open>
  A race in \<open>run()\<close> of \<open>src/src/scheduler.cpp\<close>: after \<open>call()\<close> returns, a worker decides by the fiber's
  state what becomes of the fiber, but by then another worker may have taken it and run it on.
\<close>

section \<open>Interleaved runs\<close>

text \<open>A worker for \<open>n\<close> steps with new fibers at the addresses from \<open>a\<close> on, a task queued by some other thread, or its call of \<open>stop()\<close>.\<close>

datatype move = By tid fid nat | Post func | Halt

primrec play :: "ucontext_ops \<Rightarrow> move list \<Rightarrow> sys \<Rightarrow> sys option" where
  "play uc [] s = Some s"
| "play uc (m # ms) s =
     (case m of
        By t a n \<Rightarrow> (case wrun uc a t n s of None \<Rightarrow> None | Some (q, k, l, s') \<Rightarrow> play uc ms s')
      | Post f \<Rightarrow>
          (case schedule 1 (Task_of_func f (-1)) (sch s) of Inl e \<Rightarrow> None | Inr c \<Rightarrow> play uc ms (s\<lparr>sch := c\<rparr>))
      | Halt \<Rightarrow>
          if stopper s = No_stop
          then play uc ms (s\<lparr>sch := stop_begin (sch s), stopper := Stop_tickle (m_thread_count (sch s))\<rparr>)
          else None)"

lemma play_sruns:
  assumes "play uc ms s = Some s'" "sruns uc s0 q k l s"
  shows "\<exists>q' k' l'. sruns uc s0 q' k' l' s'"
  using assms
proof (induction ms arbitrary: s q k l)
  case (Cons m ms)
  show ?case
  proof (cases m)
    case (By t a n)
    then obtain q1 k1 l1 s1 where "wrun uc a t n s = Some (q1, k1, l1, s1)" "play uc ms s1 = Some s'"
      using Cons.prems(1) by (auto split: option.splits)
    then show ?thesis
      using Cons.IH [OF _ sruns_trans [OF cruns_sruns [OF wrun_cruns [OF _ cruns_refl]] Cons.prems(2)]] by fastforce
  next
    case (Post f)
    then obtain c where "schedule 1 (Task_of_func f (-1)) (sch s) = Inr c" "play uc ms (s\<lparr>sch := c\<rparr>) = Some s'"
      using Cons.prems(1) by (auto split: sum.splits)
    then show ?thesis
      using Cons.IH [OF _ sruns_other [OF Cons.prems(2) x_schedule_func]] by blast
  next
    case Halt
    then show ?thesis
      using Cons.prems(1) Cons.IH [OF _ sruns_other [OF Cons.prems(2) x_stop]] by (auto split: if_splits)
  qed
qed auto

section \<open>The race\<close>

text \<open>Two workers; a function that arranges to be continued, yields and then returns.\<close>

definition ex_pair :: Scheduler where
  "ex_pair = ex_sched\<lparr>m_thread_count := 2\<rparr>"

definition ex_continued :: func where
  "ex_continued = Do (Schedule_fiber 4 (-1)) (Yield_then Return)"

definition ex_started :: sys where
  "ex_started =
     \<lparr>sch = ex_pair\<lparr>m_threads := [1, 2], m_stopped := False\<rparr>, fibs = fibers_init,
      wpc = (\<lambda>t. if t = 1 \<or> t = 2 then Started else Not_started), idle_fiber = (\<lambda>_. READY),
      func_fiber = (\<lambda>_. None), stopper = No_stop\<rparr>"

definition ex_race :: "move list" where
  "ex_race = [Post ex_continued, By 1 0 7, By 2 7 6, By 1 20 2, Post Return, By 2 30 2, By 1 40 4]"

lemma ex_started_run: "sruns ex_uc (sys_init ex_pair) [] [] 0 ex_started"
proof -
  let ?s = "sys_init ex_pair"
  have "xstep ex_uc ?s [] (?s\<lparr>sch := sch ex_started, wpc := (\<lambda>t. if t \<in> set [1, 2] then Started else wpc ?s t)\<rparr>)"
    by (rule x_start) (simp_all add: ex_started_def ex_pair_def ex_eval)
  from sruns_other [OF sruns_refl this] show ?thesis
    by (simp add: ex_started_def sys_init_def cong: if_cong)
qed

text \<open>
  The function's fiber is run to its end by the second worker while the first is still between the
  return of \<open>call()\<close> and the look at the state. The first finds it done, resets it and keeps it; the
  second then finds it \<open>READY\<close> and queues it. The first takes the next function and runs it on the
  fiber, and the second takes the fiber: the assertion of \<open>run()\<close> fails.
\<close>

lemma late_look_at_state_aborts:
  "\<exists>q k l s. sruns ex_uc (sys_init ex_pair) q k l s \<and> wpc s 2 = Top \<and> take_task 2 (fibs s) (sch s) = Some (Inl AssertFail)"
proof -
  have "\<exists>s. play ex_uc ex_race ex_started = Some s \<and> wpc s 2 = Top \<and> take_task 2 (fibs s) (sch s) = Some (Inl AssertFail)"
    by (simp add: ex_started_def ex_pair_def ex_race_def ex_continued_def ex_eval Fiber_Yield_def wnext_def eval_nat_numeral)
  then show ?thesis
    using play_sruns [OF _ ex_started_run] by blast
qed

end
