(* ===== verification/EVA_Wake.thy ===== *)
theory EVA_Wake
  imports EVA_System EVA_Stop EVA_Race
begin

text \<open>
  Waiting fibers in the whole system: a fiber that has yielded inside a hooked call of
  \<open>src/src/hook.cpp\<close> is woken by a timer or by a file event, through the queue of
  \<open>src/src/scheduler.cpp\<close>. What will wake it is followed through the timers, the registered events, the
  queue and the hands of the workers, over every interleaving of their steps.
\<close>

section \<open>What will wake a fiber\<close>

text \<open>
  A fiber that has arranged to be woken and goes on with \<open>k\<close> then: it has yielded, or a worker is
  still on it and about to yield. A worker that ran it as its own may not have looked at it since.
\<close>

definition not_reused :: "fid \<Rightarrow> tid \<Rightarrow> sys \<Rightarrow> bool" where
  "not_reused a t s \<longleftrightarrow> (func_fiber s t = Some a \<longrightarrow> wpc s t = Back_func a \<or> wpc s t = Resched_func a)"

definition yielded :: "fid \<Rightarrow> func \<Rightarrow> sys \<Rightarrow> bool" where
  "yielded a k s \<longleftrightarrow>
     (\<exists>f. fb_heap (fibs s) a = Some f \<and> fb_state f = SUSPEND \<and> context_prog f = Some k) \<and>
     (\<forall>t. (\<forall>k fn. wpc s t \<noteq> Exec a k fn) \<and> not_reused a t s)"

definition yielding :: "fid \<Rightarrow> func \<Rightarrow> tid \<Rightarrow> sys \<Rightarrow> bool" where
  "yielding a k t s \<longleftrightarrow>
     (\<exists>f. fb_heap (fibs s) a = Some f \<and> fb_state f = RUNNING) \<and>
     (\<exists>fn. wpc s t = Exec a (Yield_then k) fn \<and> (func_fiber s t = Some a \<longrightarrow> fn)) \<and>
     (\<forall>u. u \<noteq> t \<longrightarrow> (\<forall>k fn. wpc s u \<noteq> Exec a k fn) \<and> not_reused a u s)"

definition waiting :: "fid \<Rightarrow> func \<Rightarrow> sys \<Rightarrow> bool" where
  "waiting a k s \<longleftrightarrow> yielded a k s \<or> (\<exists>t. yielding a k t s)"

definition task_wakes :: "fid \<Rightarrow> Task \<Rightarrow> bool" where
  "task_wakes a tk \<longleftrightarrow> tk = Task_of_fiber a (-1) \<or> tk = Task_of_func (wake_func a) (-1)"

text \<open>A worker on its way from a timer or from the queue to the fiber.\<close>

fun in_hand :: "fid \<Rightarrow> wpc \<Rightarrow> bool" where
  "in_hand a (Took tk nt) \<longleftrightarrow> task_wakes a tk"
| "in_hand a (Counted tk nt) \<longleftrightarrow> task_wakes a tk"
| "in_hand a (Dispatch tk) \<longleftrightarrow> task_wakes a tk"
| "in_hand a (Exec b k fn) \<longleftrightarrow> k = wake_func a"
| "in_hand a (Idle_fired fs) \<longleftrightarrow> wake_func a \<in> set fs"
| "in_hand a pc \<longleftrightarrow> False"

definition timer_wakes :: "fid \<Rightarrow> func TimerManager \<Rightarrow> bool" where
  "timer_wakes a tm \<longleftrightarrow> (\<exists>p\<in>set (m_timers tm). m_func (timer_heap tm p) = wake_func a)"

definition sched_wakes :: "fid \<Rightarrow> sys \<Rightarrow> bool" where
  "sched_wakes a s \<longleftrightarrow>
     timer_wakes a (m_timer_manager (sch s)) \<or> (\<exists>tk\<in>set (m_tasks (sch s)). task_wakes a tk) \<or>
     (\<exists>t. in_hand a (wpc s t))"

text \<open>A worker has called the fiber, which goes on where it stopped.\<close>

definition resumed :: "fid \<Rightarrow> func \<Rightarrow> sys \<Rightarrow> bool" where
  "resumed a k s \<longleftrightarrow> (\<exists>t. wpc s t = Exec a k False)"

lemma task_wakes_simps [simp]:
  "task_wakes a (Task_of_fiber b thr) \<longleftrightarrow> a = b \<and> thr = -1"
  "task_wakes a (Task_of_func p thr) \<longleftrightarrow> p = wake_func a \<and> thr = -1"
  by (auto simp: task_wakes_def Task_of_fiber_def Task_of_func_def)

section \<open>Timers\<close>

abbreviation timers_wf :: "sys \<Rightarrow> bool" where
  "timers_wf s \<equiv> tm_wf (m_timer_manager (sch s))"

lemma tickle_timers: "tickle wr s = Inr s' \<Longrightarrow> m_timer_manager s' = m_timer_manager s"
  by (auto elim: tickle_Inr)

lemma Scheduler_addTimer_timers:
  assumes "Scheduler_addTimer wr now p period f rec s = Inr s'" "timer_addr_free p s" "tm_wf (m_timer_manager s)"
  shows "tm_wf (m_timer_manager s')" "timer_wakes a (m_timer_manager s) \<Longrightarrow> timer_wakes a (m_timer_manager s')"
    "f = wake_func a \<Longrightarrow> timer_wakes a (m_timer_manager s')"
proof -
  have tm: "m_timer_manager s' = fst (addTimer now p period f rec (m_timer_manager s))"
    using assms(1) by (auto simp: Scheduler_addTimer_def Let_def split: prod.splits if_splits dest: tickle_timers)
  note st = addTimer_state [OF assms(3) assms(2) [unfolded timer_addr_free_def], of now period f rec, folded tm]
  show "tm_wf (m_timer_manager s')"
    by (rule st(1))
  show "timer_wakes a (m_timer_manager s) \<Longrightarrow> timer_wakes a (m_timer_manager s')"
    using assms(2) by (auto simp: timer_wakes_def st(2,3) timer_addr_free_def)
  show "f = wake_func a \<Longrightarrow> timer_wakes a (m_timer_manager s')"
    by (simp add: timer_wakes_def st(2,3) Timer_ctor_def)
qed

lemma schedule_timers: "schedule wr tk s = Inr s' \<Longrightarrow> m_timer_manager s' = m_timer_manager s"
  by (auto elim: schedule_Inr)

lemma schedule_range_timers: "schedule_range wr fs thr s = Inr s' \<Longrightarrow> m_timer_manager s' = m_timer_manager s"
  by (auto elim: schedule_range_Inr)

lemma do_eff_timers:
  assumes "do_eff wr now p b e s = Inr (q, s')" "timer_addr_free p s" "tm_wf (m_timer_manager s)"
  shows "tm_wf (m_timer_manager s')" "timer_wakes a (m_timer_manager s) \<Longrightarrow> timer_wakes a (m_timer_manager s')"
  using assms by (cases e; auto dest: schedule_timers Scheduler_addTimer_timers)+

lemma getExpiredFuncs_timers:
  assumes "getExpiredFuncs now [] tm = (fs, tm')" "tm_wf tm"
  shows "tm_wf tm'" "timer_wakes a tm \<Longrightarrow> timer_wakes a tm' \<or> wake_func a \<in> set fs"
proof -
  have eq: "fs = fst (getExpiredFuncs now [] tm)" "tm' = snd (getExpiredFuncs now [] tm)"
    using assms(1) by simp_all
  note st = getExpiredFuncs_state [OF assms(2), of now "[]", folded eq(2)]
  show "tm_wf tm'"
    by (rule st(1))
  assume "timer_wakes a tm"
  then obtain p where p: "p \<in> set (m_timers tm)" "m_func (timer_heap tm p) = wake_func a"
    by (auto simp: timer_wakes_def)
  show "timer_wakes a tm' \<or> wake_func a \<in> set fs"
  proof (cases "p \<in> set (expired_timers now tm)")
    case True
    then have "m_func (timer_heap tm p) \<in> set fs"
      unfolding eq(1) getExpiredFuncs_funcs by auto
    then show ?thesis
      by (simp add: p(2))
  next
    case False
    then have "p \<in> set (m_timers tm')" "timer_heap tm' p = timer_heap tm p"
      using p(1) by (auto simp: st(2,3) expired_timers_def)
    then show ?thesis
      using p(2) by (metis timer_wakes_def)
  qed
qed

lemma wstep_timers_wf:
  assumes "wstep uc t s q k l s'" "timers_wf s"
  shows "timers_wf s'"
  using assms(1)
  by (cases rule: wstep.cases)
     (use assms(2) in \<open>auto dest: tickle_timers schedule_timers schedule_range_timers do_eff_timers(1)
        getExpiredFuncs_timers(1) elim!: take_task_Inr split: if_splits\<close>)

lemma xstep_timers_wf:
  assumes "xstep uc s q s'" "timers_wf s"
  shows "timers_wf s'"
  using assms(1)
  by (cases rule: xstep.cases)
     (use assms(2) in \<open>auto simp: Scheduler_start_def stop_begin_def stop_end_def
        dest: tickle_timers schedule_timers Scheduler_addTimer_timers(1) split: if_splits\<close>)

section \<open>Workers\<close>

lemma fresh_main_fiber:
  assumes "GetThis uc t b w = Inr (m, w')" "fb_heap w b = None" "fb_heap w a = Some f"
  shows "fb_heap w' a = Some f"
  using assms by (auto simp: fibers_defs split: if_splits option.splits)

lemma call_enter_cell:
  assumes "call_enter uc t b w = Inr w'"
  shows "fb_heap w' a = (if a = b then map_option (\<lambda>f. f\<lparr>fb_state := RUNNING\<rparr>) (fb_heap w a) else fb_heap w a)"
  using assms by (auto simp: fibers_defs split: if_splits option.splits)

lemma context_prog_state [simp]: "context_prog (f\<lparr>fb_state := st\<rparr>) = context_prog f"
  by (simp add: context_prog_def split: ucontext.splits)

lemma call_enter_resumes:
  assumes "call_enter uc t a w = Inr w'" "fb_heap w a = Some f" "fb_heap w' a = Some g" "context_prog g = Some k"
  shows "context_prog f = Some k" "fb_state f \<noteq> RUNNING"
  using assms call_enter_cell [OF assms(1), of a] by (auto simp: call_enter_def deref_def)

lemma prepare_func_fiber_cell:
  assumes "prepare_func_fiber uc t b p ff w = Inr (c, w')" "fb_heap w b = None" "fb_heap w a = Some f" "ff \<noteq> Some a"
  shows "fb_heap w' a = Some f" "c \<noteq> a" "\<exists>g. fb_heap w' c = Some g \<and> fb_ctx g = Ctx_entry \<and> fb_func g = Some p"
  using assms by (auto simp: fibers_defs split: option.splits if_splits)

lemma leave_cell:
  assumes "b \<noteq> a"
  shows "Fiber_Yield uc t b c w = Some (Inr w') \<Longrightarrow> fb_heap w' a = fb_heap w a"
    "Fiber_YieldReady uc t b c w = Some (Inr w') \<Longrightarrow> fb_heap w' a = fb_heap w a"
    "MainFunc_end uc t b st w = Inr w' \<Longrightarrow> fb_heap w' a = fb_heap w a"
  using assms by (auto simp: switch_defs Let_def split: if_splits option.splits)

lemma wstep_func_fiber:
  assumes "wstep uc t s q k l s'"
  shows "func_fiber s' = (func_fiber s)(t := func_fiber s' t)"
  using assms by (cases rule: wstep.cases) auto

lemma wstep_cell:
  assumes "wstep uc t s q k l s'" and f: "fb_heap (fibs s) a = Some f" "\<not> isDone f"
    and pc: "\<forall>k fn. wpc s t \<noteq> Exec a k fn" and ff: "not_reused a t s"
  shows "(\<exists>k. wpc s' t = Exec a k False \<and> context_prog f = Some k \<and> fb_state f \<noteq> RUNNING) \<or>
         fb_heap (fibs s') a = Some f \<and> (\<forall>k fn. wpc s' t \<noteq> Exec a k fn) \<and> not_reused a t s'"
  using assms(1)
proof (cases rule: wstep.cases)
  case (w_call_fiber tk b w g k1)
  show ?thesis
  proof (cases "b = a")
    case True
    then have "context_prog f = Some k1" "fb_state f \<noteq> RUNNING"
      using w_call_fiber call_enter_resumes [OF _ f(1)] by blast+
    then show ?thesis
      using w_call_fiber True by simp
  qed (use w_call_fiber f ff in \<open>auto simp: call_enter_cell not_reused_def\<close>)
next
  case (w_call_func tk p b c w w' g k1)
  have "func_fiber s t \<noteq> Some a"
    using ff w_call_func(5) by (auto simp: not_reused_def)
  note cell = prepare_func_fiber_cell [OF w_call_func(9,8) f(1) this]
  show ?thesis
    using w_call_func f(1) cell by (auto simp: call_enter_cell not_reused_def)
next
  case (w_resched_func b g c w)
  then show ?thesis
    using f ff by (auto simp: not_reused_def Fiber_reset_def deref_def split: if_splits option.splits)
next
  case (w_begin b m w)
  then show ?thesis
    using fresh_main_fiber [OF w_begin(7,6) f(1)] by (auto simp: not_reused_def)
qed (use f pc ff in \<open>auto simp: leave_cell not_reused_def split: if_splits\<close>)

lemma wstep_others:
  assumes "wstep uc t s q k l s'" "u \<noteq> t"
  shows "wpc s' u = wpc s u" "not_reused a u s' = not_reused a u s"
  using wstep_frame(5) [OF assms] fun_cong [OF wstep_func_fiber [OF assms(1)], of u] assms(2)
  by (simp_all add: not_reused_def)

lemma wstep_yields:
  assumes "wstep uc t s q k' l s'" "yielding a k t s"
  shows "yielded a k s'"
proof -
  obtain f fn where f: "fb_heap (fibs s) a = Some f" "wpc s t = Exec a (Yield_then k) fn" "func_fiber s t = Some a \<longrightarrow> fn"
    and others: "u \<noteq> t \<longrightarrow> (\<forall>k fn. wpc s u \<noteq> Exec a k fn) \<and> not_reused a u s" for u
    using assms(2) unfolding yielding_def by blast
  have "(\<exists>g. fb_heap (fibs s') a = Some g \<and> fb_state g = SUSPEND \<and> context_prog g = Some k) \<and>
      (\<forall>k fn. wpc s' t \<noteq> Exec a k fn) \<and> not_reused a t s'"
    using assms(1)
  proof (cases rule: wstep.cases)
    case (w_yield b k1 fn1 w)
    then show ?thesis
      using f by (auto simp: switch_defs not_reused_def context_prog_def split: option.splits if_splits)
  qed (use f(2) in auto)
  then show ?thesis
    unfolding yielded_def using others wstep_others [OF assms(1)] by metis
qed

lemma wstep_waiting:
  assumes "wstep uc t s q k' l s'" "waiting a k s"
  shows "waiting a k s' \<or> resumed a k s'"
proof -
  consider (asleep) f where "fb_heap (fibs s) a = Some f" "fb_state f = SUSPEND" "context_prog f = Some k"
      "\<forall>t. (\<forall>k fn. wpc s t \<noteq> Exec a k fn) \<and> not_reused a t s"
    | (mine) "yielding a k t s" | (other) u where "yielding a k u s" "u \<noteq> t"
    using assms(2) unfolding waiting_def yielded_def by metis
  then show ?thesis
  proof cases
    case asleep
    have "\<not> isDone f" "\<forall>k fn. wpc s t \<noteq> Exec a k fn" "not_reused a t s"
      using asleep(2,4) by (auto simp: isDone_def)
    from wstep_cell [OF assms(1) asleep(1) this] show ?thesis
    proof (elim disjE exE conjE)
      fix k1 assume "wpc s' t = Exec a k1 False" "context_prog f = Some k1"
      then show ?thesis
        using asleep(3) by (auto simp: resumed_def)
    next
      assume "fb_heap (fibs s') a = Some f" "\<forall>k fn. wpc s' t \<noteq> Exec a k fn" "not_reused a t s'"
      then have "yielded a k s'"
        unfolding yielded_def using asleep wstep_others [OF assms(1)] by metis
      then show ?thesis
        by (simp add: waiting_def)
    qed
  next
    case mine
    then show ?thesis
      using wstep_yields [OF assms(1)] by (simp add: waiting_def)
  next
    case other
    then obtain f where f: "fb_heap (fibs s) a = Some f" "fb_state f = RUNNING" "\<not> isDone f"
      by (auto simp: yielding_def isDone_def)
    have "\<forall>k fn. wpc s t \<noteq> Exec a k fn" "not_reused a t s"
      using other by (auto simp: yielding_def)
    from wstep_cell [OF assms(1) f(1,3) this] f(2)
    have t: "fb_heap (fibs s') a = Some f" "\<forall>k fn. wpc s' t \<noteq> Exec a k fn" "not_reused a t s'"
      by auto
    have "func_fiber s' u = func_fiber s u"
      using fun_cong [OF wstep_func_fiber [OF assms(1)], of u] other(2) by simp
    then have "yielding a k u s'"
      using other(1) t f(2) wstep_others [OF assms(1)] other(2) unfolding yielding_def by metis
    then show ?thesis
      by (auto simp: waiting_def)
  qed
qed

text \<open>A worker with a wake-up in its hands passes it on; of those in the queue and in the timers none is lost.\<close>

lemma wstep_passes_on:
  assumes "wstep uc t s q k' l s'" "waiting a k s" "in_hand a (wpc s t)"
  shows "sched_wakes a s' \<or> resumed a k s'"
proof -
  obtain f where f: "fb_heap (fibs s) a = Some f" "\<not> isDone f"
    and k: "fb_state f \<noteq> RUNNING \<Longrightarrow> context_prog f = Some k"
    using assms(2) by (fastforce simp: waiting_def yielded_def yielding_def isDone_def)
  have ff: "(\<exists>k fn. wpc s t = Exec a k fn) \<or> not_reused a t s"
    using assms(2) unfolding waiting_def yielded_def yielding_def by metis
  have at: "in_hand a (wpc s' t) \<Longrightarrow> sched_wakes a s'"
    by (auto simp: sched_wakes_def)
  have run: "task_wakes a tk \<Longrightarrow> \<not> fiber_runnable (fibs s) tk \<Longrightarrow> tk_func tk = Some (wake_func a)" for tk
    using f by (auto simp: task_wakes_def fiber_runnable_def Task_of_fiber_def Task_of_func_def)
  show ?thesis
    using assms(1)
  proof (cases rule: wstep.cases)
    case (w_call_fiber tk b w g k1)
    then have "b = a"
      using assms(3) by (auto simp: task_wakes_def Task_of_fiber_def Task_of_func_def)
    then have "context_prog f = Some k1" "fb_state f \<noteq> RUNNING"
      using w_call_fiber call_enter_resumes [OF _ f(1)] by blast+
    then show ?thesis
      using w_call_fiber \<open>b = a\<close> k by (auto simp: resumed_def)
  next
    case (w_call_func tk p b c w w' g k1)
    then have p: "p = wake_func a"
      using assms(3) run [of tk] by simp
    have "func_fiber s t \<noteq> Some a"
      using ff w_call_func(5) by (auto simp: not_reused_def)
    from prepare_func_fiber_cell(3) [OF w_call_func(9,8) f(1) this]
    have "k1 = wake_func a"
      using w_call_func p by (auto simp: call_enter_cell context_prog_def)
    then show ?thesis
      using w_call_func at by simp
  next
    case (w_exec b e k1 fn p wr now c)
    then have "e = Schedule_fiber a (-1)"
      using assms(3) by (simp add: wake_func_def)
    then show ?thesis
      using w_exec by (auto simp: sched_wakes_def elim: schedule_Inr)
  next
    case (i_fired fs wr c)
    then have "m_tasks (sch s') = m_tasks (sch s) @ map (\<lambda>f. Task_of_func f (-1)) fs"
      by (auto elim: schedule_range_Inr split: if_splits)
    then have "Task_of_func (wake_func a) (-1) \<in> set (m_tasks (sch s'))"
      using assms(3) i_fired(5) by simp
    then show ?thesis
      unfolding sched_wakes_def using task_wakes_simps(2) by blast
  qed (use assms(3) at in \<open>auto simp: wake_func_def dest: run\<close>)
qed

lemma wstep_takes:
  assumes "wstep uc t s q k l s'" "tk \<in> set k"
  shows "\<exists>nt. wpc s' t = Took tk nt"
  using assms(1) by (cases rule: wstep.cases) (use assms(2) in \<open>auto split: if_splits\<close>)

lemma wstep_timers:
  assumes "wstep uc t s q k l s'" "timers_wf s" "timer_wakes a (m_timer_manager (sch s))"
  shows "timer_wakes a (m_timer_manager (sch s')) \<or> in_hand a (wpc s' t)"
  using assms(1)
proof (cases rule: wstep.cases)
  case (i_woken now fs tm)
  then show ?thesis
    using getExpiredFuncs_timers(2) [OF _ assms(2,3)] by auto
next
  case (w_exec b e k1 fn p wr now c)
  then show ?thesis
    using do_eff_timers(2) [OF w_exec(6,5) assms(2,3)] by simp
qed (use assms(3) in \<open>auto dest: tickle_timers schedule_timers schedule_range_timers elim!: take_task_Inr split: if_splits\<close>)

lemma wstep_wakes:
  assumes "wstep uc t s q k' l s'" "waiting a k s" "timers_wf s" "sched_wakes a s"
  shows "sched_wakes a s' \<or> resumed a k s'"
proof -
  consider (timer) "timer_wakes a (m_timer_manager (sch s))"
    | (task) tk where "tk \<in> set (m_tasks (sch s))" "task_wakes a tk"
    | (hand) "in_hand a (wpc s t)" | (other) u where "u \<noteq> t" "in_hand a (wpc s u)"
    using assms(4) unfolding sched_wakes_def by metis
  then show ?thesis
  proof cases
    case timer
    then show ?thesis
      using wstep_timers [OF assms(1,3)] by (auto simp: sched_wakes_def)
  next
    case task
    have "tk \<in> set (m_tasks (sch s')) \<or> tk \<in> set k'"
      using task(1) arg_cong [OF wstep_queue [OF assms(1)], of set] by auto
    then show ?thesis
      using task(2) wstep_takes [OF assms(1)] unfolding sched_wakes_def by (metis in_hand.simps(1))
  next
    case hand
    then show ?thesis
      by (rule wstep_passes_on [OF assms(1,2)])
  next
    case other
    then show ?thesis
      using wstep_frame(5) [OF assms(1) other(1)] unfolding sched_wakes_def by metis
  qed
qed

section \<open>Other threads\<close>

lemma waiting_frame:
  assumes "waiting a k s" "\<And>t k fn. wpc s' t = Exec a k fn \<longleftrightarrow> wpc s t = Exec a k fn" "func_fiber s' = func_fiber s"
    and "\<And>t. not_reused a t s \<Longrightarrow> not_reused a t s'"
    and "\<And>f. fb_heap (fibs s) a = Some f \<Longrightarrow> fb_heap (fibs s') a = Some f"
  shows "waiting a k s'"
proof -
  have "yielded a k s'" if "yielded a k s"
    using that assms(2,4,5) by (auto simp: yielded_def)
  moreover have "yielding a k t s'" if "yielding a k t s" for t
    using that assms(2-5) by (auto simp: yielding_def)
  ultimately show ?thesis
    using assms(1) by (auto simp: waiting_def)
qed

lemma xstep_fibers:
  assumes "xstep uc s q s'" "fb_heap (fibs s) a = Some f"
  shows "fb_heap (fibs s') a = Some f" "wpc s' u = Exec a k fn \<longleftrightarrow> wpc s u = Exec a k fn"
    "func_fiber s' = func_fiber s" "not_reused a u s \<Longrightarrow> not_reused a u s'"
proof -
  show heap: "fb_heap (fibs s') a = Some f"
    using assms(1)
  proof (cases rule: xstep.cases)
    case (x_get_this b t m w)
    then show ?thesis
      using fresh_main_fiber [OF x_get_this(4,3) assms(2)] by simp
  qed (use assms(2) in \<open>auto simp: Fiber_ctor_def Let_def\<close>)
  show "wpc s' u = Exec a k fn \<longleftrightarrow> wpc s u = Exec a k fn" "func_fiber s' = func_fiber s"
    using assms(1) by (cases rule: xstep.cases; auto)+
  show "not_reused a u s \<Longrightarrow> not_reused a u s'"
    using assms(1) by (cases rule: xstep.cases) (auto simp: not_reused_def)
qed

lemma xstep_waiting:
  assumes "xstep uc s q s'" "waiting a k s"
  shows "waiting a k s'"
proof -
  obtain f where f: "fb_heap (fibs s) a = Some f"
    using assms(2) by (auto simp: waiting_def yielded_def yielding_def)
  note st = xstep_fibers [OF assms(1) f]
  show ?thesis
    by (rule waiting_frame [OF assms(2) st(2,3,4)]) (simp_all add: f st(1))
qed

lemma xstep_wakes:
  assumes "xstep uc s q s'" "timers_wf s" "sched_wakes a s"
  shows "sched_wakes a s'"
proof -
  have "timer_wakes a (m_timer_manager (sch s)) \<Longrightarrow> timer_wakes a (m_timer_manager (sch s'))"
    using assms(1)
    by (cases rule: xstep.cases)
       (use assms(2) in \<open>auto simp: Scheduler_start_def stop_begin_def stop_end_def
          dest: tickle_timers schedule_timers Scheduler_addTimer_timers(2)\<close>)
  moreover have "in_hand a (wpc s t) \<Longrightarrow> in_hand a (wpc s' t)" for t
    using assms(1) by (cases rule: xstep.cases) auto
  moreover have "set (m_tasks (sch s)) \<subseteq> set (m_tasks (sch s'))"
    using xstep_queue [OF assms(1)] by simp
  ultimately show ?thesis
    using assms(3) unfolding sched_wakes_def by blast
qed

section \<open>File events\<close>

text \<open>Fiber \<open>a\<close> is registered for event \<open>ev\<close> of a context, with scheduler \<open>i\<close>.\<close>

definition fc_waits :: "fid \<Rightarrow> sid \<Rightarrow> Event \<Rightarrow> FdContext \<Rightarrow> bool" where
  "fc_waits a i ev fc \<longleftrightarrow>
     fc_events fc AND ev \<noteq> 0 \<and>
     (\<exists>c. getContext ev fc = Inr c \<and> ev_scheduler c = Some i \<and> ctx_task c = Some (Task_of_fiber a (-1)))"

text \<open>The fiber is registered with the IO manager, or queued.\<close>

definition io_wakes :: "fid \<Rightarrow> 'k IOManager \<Rightarrow> bool" where
  "io_wakes a io \<longleftrightarrow>
     (\<exists>p<length (fc_heap io). \<exists>ev. fc_waits a (io_self io) ev (fc_heap io ! p)) \<or>
     Task_of_fiber a (-1) \<in> set (m_tasks (own io))"

text \<open>An operation on file events loses no wake-up.\<close>

definition keeps :: "fid \<Rightarrow> 'k IOManager \<Rightarrow> 'k IOManager \<Rightarrow> bool" where
  "keeps a io io' \<longleftrightarrow>
     io_self io' = io_self io \<and> m_timer_manager (own io') = m_timer_manager (own io) \<and>
     m_threads (own io') = m_threads (own io) \<and> set (m_tasks (own io)) \<subseteq> set (m_tasks (own io')) \<and> (io_wakes a io \<longrightarrow> io_wakes a io')"

lemma keeps_refl [intro]: "keeps a io io"
  by (simp add: keeps_def)

lemma keeps_trans: "keeps a io io1 \<Longrightarrow> keeps a io1 io2 \<Longrightarrow> keeps a io io2"
  unfolding keeps_def by (metis subset_trans)

lemma keeps_threads: "keeps a io io' \<Longrightarrow> m_threads (own io') = m_threads (own io)"
  unfolding keeps_def by blast

lemma fc_waits_event: "fc_waits a i ev fc \<Longrightarrow> ev = READ \<or> ev = WRITE"
  by (auto simp: fc_waits_def getContext_def split: if_splits)

lemma other_event_bits:
  fixes es :: Event
  assumes "ev = READ \<or> ev = WRITE" "ev' = READ \<or> ev' = WRITE" "ev' \<noteq> ev"
  shows "(es AND NOT ev) AND ev' = es AND ev'"
  using assms by (auto simp: event_defs and.assoc)

lemma more_event_bits:
  fixes es :: Event
  shows "es AND ev' \<noteq> 0 \<Longrightarrow> (es OR ev) AND ev' \<noteq> 0"
proof -
  have "es AND ev' = es AND ((es OR ev) AND ev')"
    by (rule bit_word_eqI) (auto simp: bit_simps)
  then show "es AND ev' \<noteq> 0 \<Longrightarrow> (es OR ev) AND ev' \<noteq> 0"
    by auto
qed

lemma fc_waits_cleared:
  assumes "fc_waits a i ev' fc" "ev = READ \<or> ev = WRITE" "ev' \<noteq> ev"
  shows "fc_waits a i ev' (fc\<lparr>fc_events := fc_events fc AND NOT ev\<rparr>)"
  using assms fc_waits_event [OF assms(1)] by (auto simp: fc_waits_def other_event_bits getContext_def split: if_splits)

lemma upd_pending_keeps: "keeps a io (upd_pending g (io\<lparr>io_kernel := k\<rparr>))"
  by (auto simp: keeps_def io_wakes_def upd_pending_def Let_def)

lemma kernel_keeps: "keeps a io (io\<lparr>io_kernel := k\<rparr>)"
  by (auto simp: keeps_def io_wakes_def)

lemma FdContext_scheduleEvent_posts:
  assumes "FdContext_scheduleEvent wr ev p io = Inr io'"
  obtains i c tk where "getContext ev (fc_heap io ! p) = Inr c" "ctx_task c = Some tk" "ev_scheduler c = Some i"
    "schedule wr tk (io_scheds io i) = Inr (io_scheds io' i)" "\<forall>j. j \<noteq> i \<longrightarrow> io_scheds io' j = io_scheds io j"
proof -
  let ?fc = "(fc_heap io ! p)\<lparr>fc_events := fc_events (fc_heap io ! p) AND NOT ev\<rparr>"
  have "fc_events (fc_heap io ! p) AND ev \<noteq> 0"
    using assms by (auto elim: FdContext_scheduleEvent_Inr)
  moreover obtain c where c: "getContext ev ?fc = Inr c" "getContext ev (fc_heap io ! p) = Inr c"
    using assms by (auto simp: FdContext_scheduleEvent_def Let_def getContext_def split: if_splits)
  ultimately show ?thesis
    using assms that [OF c(2)]
    by (cases "ev_func c"; cases "ev_fiber c"; cases "ev_scheduler c")
       (fastforce simp: FdContext_scheduleEvent_def Let_def ctx_task_def)+
qed

lemma FdContext_scheduleEvent_keeps:
  assumes "FdContext_scheduleEvent wr ev p io = Inr io'"
  shows "keeps a io io'"
proof -
  let ?fc = "(fc_heap io ! p)\<lparr>fc_events := fc_events (fc_heap io ! p) AND NOT ev\<rparr>"
  obtain i c tk where post: "getContext ev (fc_heap io ! p) = Inr c" "ctx_task c = Some tk" "ev_scheduler c = Some i"
    "schedule wr tk (io_scheds io i) = Inr (io_scheds io' i)" "\<forall>j. j \<noteq> i \<longrightarrow> io_scheds io' j = io_scheds io j"
    by (rule FdContext_scheduleEvent_posts [OF assms])
  have io': "io_self io' = io_self io" "fc_heap io' = (fc_heap io)[p := ?fc]" and ev: "ev = READ \<or> ev = WRITE"
    using assms by (auto elim: FdContext_scheduleEvent_Inr)
  have queue: "m_timer_manager (own io') = m_timer_manager (own io)" "m_threads (own io') = m_threads (own io)"
    "m_tasks (own io') = m_tasks (own io) @ (if i = io_self io then [tk] else [])"
    using post(4,5) io'(1) by (cases "i = io_self io"; auto elim: schedule_Inr)+
  have "io_wakes a io'" if "q < length (fc_heap io)" "fc_waits a (io_self io) ev' (fc_heap io ! q)" for q ev'
  proof (cases "q = p \<and> ev' = ev")
    case True
    then have "i = io_self io" "tk = Task_of_fiber a (-1)"
      using that(2) post(1-3) by (auto simp: fc_waits_def)
    then show ?thesis
      by (simp add: io_wakes_def queue)
  next
    case False
    then have "fc_waits a (io_self io) ev' (fc_heap io' ! q)"
      using that fc_waits_cleared [OF that(2) ev] by (cases "q = p") (auto simp: io'(2))
    then show ?thesis
      using that(1) io' unfolding io_wakes_def by auto
  qed
  then show ?thesis
    using io'(1) queue by (auto simp: keeps_def io_wakes_def)
qed

lemma fire_if_keeps:
  assumes "fire_if wr b ev p io = Inr io'"
  shows "keeps a io io'"
proof (cases b)
  case True
  then obtain io1 where io1: "FdContext_scheduleEvent wr ev p io = Inr io1" "io' = upd_pending (\<lambda>n. n - 1) io1"
    using assms by (auto simp: fire_if_def)
  show ?thesis
    using keeps_trans [OF FdContext_scheduleEvent_keeps [OF io1(1)] upd_pending_keeps [of a io1 "\<lambda>n. n - 1" "io_kernel io1"]]
    by (simp add: io1(2))
next
  case False
  then show ?thesis
    using assms by (auto simp: fire_if_def)
qed

lemma fire_both_keeps:
  assumes "fire_if wr b1 READ p (io\<lparr>io_kernel := k\<rparr>) = Inr io2" "fire_if wr b2 WRITE p io2 = Inr io'"
  shows "keeps a io io'"
  by (rule keeps_trans [OF keeps_trans [OF kernel_keeps fire_if_keeps [OF assms(1)]] fire_if_keeps [OF assms(2)]])

lemma cancelEvent_keeps:
  assumes "cancelEvent ctl wr fd event io = Inr (b, io')"
  shows "keeps a io io'"
proof -
  have "io' = io \<or>
      (\<exists>k p. FdContext_scheduleEvent wr event p (upd_pending (\<lambda>n. n - 1) (io\<lparr>io_kernel := k\<rparr>)) = Inr io')"
    using assms by (auto simp: cancelEvent_def Let_def split: if_splits prod.splits)
  then show ?thesis
    using keeps_trans [OF upd_pending_keeps FdContext_scheduleEvent_keeps] by (metis keeps_refl)
qed

lemma cancelAll_keeps:
  assumes "cancelAll ctl wr fd io = Inr (b, io')"
  shows "keeps a io io'"
proof -
  have "io' = io \<or> (\<exists>k. io' = io\<lparr>io_kernel := k\<rparr>) \<or>
      (\<exists>k p io2 b1 b2. fire_if wr b1 READ p (io\<lparr>io_kernel := k\<rparr>) = Inr io2 \<and> fire_if wr b2 WRITE p io2 = Inr io')"
    using assms by (fastforce simp: cancelAll_def Let_def split: if_splits prod.splits)
  then show ?thesis
    by (metis fire_both_keeps kernel_keeps keeps_refl)
qed

lemma scheduleEvent_keeps:
  assumes "IOManager_scheduleEvent ctl wr evs p io = Inr (b, io')"
  shows "keeps a io io'"
proof -
  have "io' = io \<or> (\<exists>k. io' = io\<lparr>io_kernel := k\<rparr>) \<or>
      (\<exists>k io2 b1 b2. fire_if wr b1 READ p (io\<lparr>io_kernel := k\<rparr>) = Inr io2 \<and> fire_if wr b2 WRITE p io2 = Inr io')"
    using assms by (fastforce simp: IOManager_scheduleEvent_def Let_def split: if_splits prod.splits)
  then show ?thesis
    by (metis fire_both_keeps kernel_keeps keeps_refl)
qed

text \<open>A resize only adds contexts.\<close>

lemma resize_loop_heap: "\<exists>new. fst (resize_loop garb is h v) = h @ new"
proof (induction "is" arbitrary: h v)
  case (Cons i "is")
  then show ?case
    by (auto split: option.splits) (metis append_Cons append_assoc)
qed simp

lemma resizeContexts_keeps: "keeps a io (resizeContexts garb sz io)"
proof -
  obtain h v where hv: "resize_loop garb [0..<sz] (fc_heap io) (vec_resize sz None (m_fd_contexts io)) = (h, v)"
    by fastforce
  then obtain new where "h = fc_heap io @ new"
    by (metis fst_conv resize_loop_heap)
  with hv have "resizeContexts garb sz io = io\<lparr>fc_heap := fc_heap io @ new, m_fd_contexts := v\<rparr>"
    by (simp add: resizeContexts_def)
  then show ?thesis
    by (auto simp: keeps_def io_wakes_def nth_append)
qed

lemma addEvent_register_keeps:
  assumes "addEvent_register ctl uc cur t b fd event f p io w = Inr (io', w')"
  shows "keeps a io io'"
proof -
  let ?fc = "fc_heap io ! p"
  obtain k c where reg: "event = READ \<or> event = WRITE" "fc_events ?fc AND event = 0"
    "io' = upd_ctx p (putContext event c (?fc\<lparr>fc_events := fc_events ?fc OR event\<rparr>)) (upd_pending (\<lambda>n. n + 1) (io\<lparr>io_kernel := k\<rparr>))"
    using assms by (rule addEvent_register_Inr)
  let ?io1 = "upd_pending (\<lambda>n. n + 1) (io\<lparr>io_kernel := k\<rparr>)"
  have "fc_waits a i ev (fc_heap io' ! q)" if "fc_waits a i ev (fc_heap io ! q)" "q < length (fc_heap io)" for i ev q
  proof (cases "q = p")
    case True
    have "ev \<noteq> event"
      using that(1) reg(2) True by (auto simp: fc_waits_def)
    then have "getContext ev (putContext event c (?fc\<lparr>fc_events := fc_events ?fc OR event\<rparr>)) = getContext ev ?fc"
      using fc_waits_event [OF that(1)] reg(1) by (auto simp: getContext_def putContext_def)
    then show ?thesis
      using that True more_event_bits [of "fc_events ?fc" ev event]
      by (auto simp: reg(3) fc_waits_def putContext_def)
  next
    case False
    then show ?thesis
      using that by (simp add: reg(3))
  qed
  then have "keeps a ?io1 io'"
    by (fastforce simp: keeps_def io_wakes_def reg(3))
  then show ?thesis
    by (rule keeps_trans [OF upd_pending_keeps])
qed

lemma addEvent_keeps:
  assumes "addEvent ctl uc garb cur t b fd event f io w = Inr (r, io', w')"
  shows "keeps a io io'"
proof -
  obtain p io1 where look: "addEvent_lookup garb fd (table_short fd io) io = Inr (p, io1)"
    and reg: "addEvent_register ctl uc cur t b fd event f p io1 w = Inr (io', w')"
    using assms(1) by (auto simp: addEvent_def)
  have "io1 = io \<or> io1 = resizeContexts garb (grown_size fd) io"
    using look by (auto simp: addEvent_lookup_def Let_def split: if_splits)
  then show ?thesis
    using keeps_trans [OF _ addEvent_register_keeps [OF reg]] resizeContexts_keeps by blast
qed

text \<open>Only \<open>delEvent\<close> takes a registration out without queueing its fiber.\<close>

lemma delEvent_keeps:
  assumes "delEvent ctl fd event io = Inr (b, io')"
    and "registered io fd event \<noteq> Some (Some (io_self io), Some (Task_of_fiber a (-1)))"
  shows "keeps a io io'"
proof (cases "io' = io")
  case False
  then obtain p k where p: "ctx_ptr fd io = Inr p" "fc_events (fc_heap io ! p) AND event \<noteq> 0"
    "io' = upd_ctx p ((fc_heap io ! p)\<lparr>fc_events := fc_events (fc_heap io ! p) AND NOT event\<rparr>)
             (upd_pending (\<lambda>n. n - 1) (io\<lparr>io_kernel := k\<rparr>))" "event = READ \<or> event = WRITE"
    using assms(1) by (auto simp: delEvent_def Let_def resetContext_def getContext_def split: if_splits prod.splits)
  let ?io1 = "upd_pending (\<lambda>n. n - 1) (io\<lparr>io_kernel := k\<rparr>)"
  have "ctx_of io fd = Some p"
    using p(1) by (auto simp: ctx_ptr_def vec_at_def ctx_of_def split: if_splits option.splits)
  then have "\<not> fc_waits a (io_self io) event (fc_heap io ! p)"
    using assms(2) by (auto simp: registered_def fc_waits_def)
  then have "fc_waits a (io_self io) ev (fc_heap io' ! q)"
    if "fc_waits a (io_self io) ev (fc_heap io ! q)" "q < length (fc_heap io)" for ev q
    using that fc_waits_cleared [OF that(1) p(4)] by (cases "q = p"; cases "ev = event") (auto simp: p(3))
  then have "keeps a ?io1 io'"
    by (fastforce simp: keeps_def io_wakes_def p(3))
  then show ?thesis
    by (rule keeps_trans [OF upd_pending_keeps])
qed auto

section \<open>No wake-up is lost\<close>

lemma keeps_sched_wakes:
  assumes "keeps a io io'" "own io = sch s" "sched_wakes a s" "sch s' = own io'" "wpc s' = wpc s"
  shows "sched_wakes a s'"
  using assms unfolding keeps_def sched_wakes_def by (metis subsetD)

lemma elsewhere_keeps: "ss (io_self io) = own io \<Longrightarrow> keeps a io (io\<lparr>io_scheds := ss\<rparr>)"
  by (simp add: keeps_def io_wakes_def)

lemma upd_self_wakes:
  assumes "io_wakes a io" "own io = sch s"
  shows "io_wakes a (upd_self (\<lambda>_. c) io) \<or> sched_wakes a s"
  using assms task_wakes_simps(1) unfolding io_wakes_def sched_wakes_def upd_self_def by fastforce

text \<open>An operation on file events, and a step of a worker, in the composed system.\<close>

lemma io_op_wakes:
  assumes "keeps a io io'" "own io = sch s" "sch s' = own io'" "wpc s' = wpc s" "func_fiber s' = func_fiber s"
    and "\<And>f. fb_heap (fibs s) a = Some f \<Longrightarrow> fb_heap (fibs s') a = Some f"
    and "waiting a k s" "sched_wakes a s \<or> io_wakes a io"
  shows "waiting a k s' \<and> (sched_wakes a s' \<or> io_wakes a io')"
  using waiting_frame [OF assms(7) _ assms(5) _ assms(6)] keeps_sched_wakes [OF assms(1,2) _ assms(3,4)] assms(1,4,5,8)
  by (auto simp: keeps_def not_reused_def)

lemma worker_wakes:
  assumes "wstep uc t s q k' l s'" "own io = sch s" "timers_wf s" "waiting a k s" "sched_wakes a s \<or> io_wakes a io"
  shows "waiting a k s' \<and> (sched_wakes a s' \<or> io_wakes a (upd_self (\<lambda>_. sch s') io)) \<or> resumed a k s'"
  using wstep_waiting [OF assms(1,4)] wstep_wakes [OF assms(1,4,3)] upd_self_wakes [OF _ assms(2)] assms(5) by blast

lemma addEvent_cell:
  assumes "addEvent ctl uc garb cur t b fd event g io w = Inr (r, io', w')" "fb_heap w b = None" "fb_heap w a = Some f"
  shows "fb_heap w' a = Some f"
  using addEvent_own(3) [OF assms(1)] fresh_main_fiber [OF _ assms(2,3)] assms(3) by (auto split: option.splits)

lemmas io_ops_keep = addEvent_keeps cancelEvent_keeps cancelAll_keeps scheduleEvent_keeps

lemma iostep_wakes:
  assumes "iostep ctl uc (s, io) q k' l (s', io')" "own io = sch s" "timers_wf s"
    and w: "waiting a k s" "sched_wakes a s \<or> io_wakes a io"
    and no_del: "\<And>fd ev r. delEvent ctl fd ev io = Inr (r, io') \<Longrightarrow>
      registered io fd ev \<noteq> Some (Some (io_self io), Some (Task_of_fiber a (-1)))"
  shows "waiting a k s' \<and> (sched_wakes a s' \<or> io_wakes a io') \<or> resumed a k s'"
  using assms(1)
proof (cases rule: iostep.cases)
  case is_worker
  then show ?thesis
    using worker_wakes [OF _ assms(2,3) w] by blast
next
  case is_other
  then show ?thesis
    using xstep_waiting [OF is_other(4) w(1)] xstep_wakes [OF is_other(4) assms(3)]
      upd_self_wakes [OF _ assms(2)] w(2) by blast
next
  case (is_elsewhere ss)
  then show ?thesis
    using elsewhere_keeps [of ss io a] assms(2) by (intro disjI1 io_op_wakes [OF _ assms(2) _ _ _ _ w]) auto
next
  case (is_del fd event r)
  then show ?thesis
    using delEvent_keeps [OF is_del(5) no_del [OF is_del(5)]]
    by (intro disjI1 io_op_wakes [OF _ assms(2) _ _ _ _ w]) auto
qed (intro disjI1 io_op_wakes [OF _ assms(2) _ _ _ _ w]; auto intro: io_ops_keep addEvent_cell)+

lemma sruns_timers_wf: "sruns uc s0 q k l s \<Longrightarrow> timers_wf s0 \<Longrightarrow> timers_wf s"
  by (induction rule: sruns.induct) (auto intro: wstep_timers_wf xstep_timers_wf)

lemma fresh_timers_wf: "fresh_scheduler c \<Longrightarrow> timers_wf (sys_init c)"
  by (auto simp: fresh_scheduler_def Scheduler_ctor_def sys_init_def tm_wf_def)

text \<open>\<open>delEvent\<close> on an event that fiber \<open>a\<close> waits for.\<close>

definition deletes :: "'k epoll_ctl \<Rightarrow> fid \<Rightarrow> 'k IOManager \<Rightarrow> 'k IOManager \<Rightarrow> bool" where
  "deletes ctl a io io' \<longleftrightarrow>
     (\<exists>fd ev r. delEvent ctl fd ev io = Inr (r, io') \<and>
                registered io fd ev = Some (Some (io_self io), Some (Task_of_fiber a (-1))))"

text \<open>Runs of the whole system in which fiber \<open>a\<close> is not called again to go on with \<open>k\<close>.\<close>

inductive unwoken ::
  "'k epoll_ctl \<Rightarrow> ucontext_ops \<Rightarrow> fid \<Rightarrow> func \<Rightarrow> sys \<times> 'k IOManager \<Rightarrow> sys \<times> 'k IOManager \<Rightarrow> bool"
  for ctl uc a k x0 where
  unwoken_refl: "unwoken ctl uc a k x0 x0"
| unwoken_step:
    "unwoken ctl uc a k x0 x \<Longrightarrow> iostep ctl uc x q k' l x' \<Longrightarrow> \<not> resumed a k (fst x') \<Longrightarrow>
     \<not> deletes ctl a (snd x) (snd x') \<Longrightarrow> unwoken ctl uc a k x0 x'"

lemma unwoken_wakes:
  assumes "unwoken ctl uc a k (s0, io0) x" "own io0 = sch s0" "timers_wf s0"
    and "waiting a k s0" "sched_wakes a s0 \<or> io_wakes a io0"
  shows "own (snd x) = sch (fst x) \<and> timers_wf (fst x) \<and> waiting a k (fst x) \<and> (sched_wakes a (fst x) \<or> io_wakes a (snd x))"
  using assms(1)
proof induction
  case unwoken_refl
  then show ?case
    using assms(2-5) by simp
next
  case (unwoken_step x q k' l x')
  obtain s io s' io' where x: "x = (s, io)" "x' = (s', io')"
    by fastforce
  have st: "iostep ctl uc (s, io) q k' l (s', io')"
    using unwoken_step.hyps(2) by (simp add: x)
  have IH: "own io = sch s" "timers_wf s" "waiting a k s" "sched_wakes a s \<or> io_wakes a io"
    using unwoken_step.IH unfolding x fst_conv snd_conv by blast+
  have no_del: "registered io fd ev \<noteq> Some (Some (io_self io), Some (Task_of_fiber a (-1)))"
    if "delEvent ctl fd ev io = Inr (r, io')" for fd ev r
    using unwoken_step.hyps(4) that unfolding x snd_conv deletes_def by blast
  have "waiting a k s' \<and> (sched_wakes a s' \<or> io_wakes a io') \<or> resumed a k s'"
    by (rule iostep_wakes [OF st IH]) (rule no_del)
  then show ?case
    using iostep_sim(2) [OF st IH(1)] sruns_timers_wf [OF iostep_sim(1) [OF st IH(1)] IH(2)] unwoken_step.hyps(3)
    unfolding x fst_conv snd_conv by blast
qed


subsection \<open>A nap\<close>

lemma upd_self_same: "own io = c \<Longrightarrow> upd_self (\<lambda>_. c) io = io"
  by (auto simp: upd_self_def)

lemma wrun_ioruns:
  assumes "wrun uc a t n s = Some (q, k, l, s')" "own io = sch s"
  shows "ioruns ctl uc (s, io) q k l (s', upd_self (\<lambda>_. sch s') io)"
  using assms
proof (induction n arbitrary: a s q k l io)
  case 0
  then show ?case
    using ioruns_refl by (simp add: upd_self_same)
next
  case (Suc n)
  from Suc.prems(1) obtain q1 k1 l1 s1 q2 k2 l2 where
    n: "wnext uc a 1 0 True t s = Some (q1, k1, l1, s1)" "wrun uc (Suc a) t n s1 = Some (q2, k2, l2, s')"
    "q = q1 @ q2" "k = k1 @ k2" "l = l1 + l2"
    by (auto split: option.splits prod.splits)
  let ?io = "upd_self (\<lambda>_. sch s1) io"
  have "ioruns ctl uc (s, io) q1 k1 l1 (s1, ?io)"
    using ioruns_step [OF ioruns_refl is_worker [OF wnext_sound [OF n(1)]]] by fastforce
  moreover have "ioruns ctl uc (s1, ?io) q2 k2 l2 (s', upd_self (\<lambda>_. sch s') ?io)"
    by (rule Suc.IH [OF n(2)]) simp
  ultimately show ?case
    using ioruns_trans by (fastforce simp: n(3-5) upd_self_def)
qed

text \<open>One worker; a function that sleeps for no time at all and returns.\<close>

definition ex_nap :: func where
  "ex_nap = Do (Add_wake 0) (Yield_then Return)"

definition ex_tired :: sys where
  "ex_tired = ex_sys\<lparr>sch := (sch ex_sys)\<lparr>m_tasks := [Task_of_func ex_nap (-1)]\<rparr>\<rparr>"

definition ex_napping :: sys where
  "ex_napping = (case wrun ex_uc 0 1 7 ex_tired of None \<Rightarrow> ex_tired | Some (q, k, l, s) \<Rightarrow> s)"

lemmas nap_eval = ex_napping_def ex_tired_def ex_nap_def ex_eval Fiber_Yield_def wnext_def eval_nat_numeral
  Scheduler_addTimer_def addTimer_def addTimer_ptr_def Timer_ctor_def ex_mem_def wake_func_def

lemma ex_napping_run: "wrun ex_uc 0 1 7 ex_tired = Some ([], [Task_of_func ex_nap (-1)], 0, ex_napping)"
  by (simp add: nap_eval)

lemma ex_napping_waits: "waiting 4 Return ex_napping" "sched_wakes 4 ex_napping"
proof -
  have "yielded 4 Return ex_napping"
    by (simp add: yielded_def not_reused_def nap_eval)
  then show "waiting 4 Return ex_napping"
    by (simp add: waiting_def)
  show "sched_wakes 4 ex_napping"
    by (simp add: sched_wakes_def timer_wakes_def nap_eval)
qed

definition ex_nap_io :: "(c_int \<Rightarrow> (u32 \<times> nat) option) IOManager" where
  "ex_nap_io = upd_self (\<lambda>_. sch ex_napping) ex_io"

lemma ex_nap_io_state: "own ex_nap_io = sch ex_napping" "registered ex_nap_io fd ev = None" "total_registered ex_nap_io = 0"
proof -
  show "own ex_nap_io = sch ex_napping"
    by (simp add: ex_nap_io_def)
  show none: "total_registered ex_nap_io = 0"
    by (simp add: ex_nap_io_def total_registered_def upd_self_def ex_io_def reg_count_def FdContext_new_def sum_list_eq_0_iff)
  have "io_inv (\<lambda>k. k) ex_nap_io"
    by (rule io_inv_frame [OF ex_io_inv]) (simp_all add: ex_nap_io_def upd_self_def ex_io_def nap_eval)
  then show "registered ex_nap_io fd ev = None"
    by (rule no_registration) (rule none)
qed

abbreviation ex_nap_task :: Task where
  "ex_nap_task \<equiv> Task_of_func ex_nap (-1)"

lemma ex_napping_reached:
  "ioruns ex_ctl ex_uc (io_started [1] ex_sched ex_io) [ex_nap_task] [ex_nap_task] 0 (ex_napping, ex_nap_io)"
proof -
  obtain s0 where s0: "io_started [1] ex_sched ex_io = (s0, ex_io)" "s0 = ex_sys\<lparr>sch := own ex_io\<rparr>"
    by (simp add: io_started_def sys_init_def ex_sys_def cong: if_cong)
  have "xstep ex_uc s0 [ex_nap_task] (s0\<lparr>sch := sch ex_tired\<rparr>)"
    by (rule x_schedule_func [where wr = 1]) (simp add: s0(2) ex_io_def ex_tired_def ex_eval)
  then have "xstep ex_uc s0 [ex_nap_task] ex_tired"
    by (simp add: s0(2) ex_tired_def)
  moreover have "m_pending_count (sch ex_tired) = m_pending_count (sch s0)"
    by (simp add: s0(2) ex_io_def ex_tired_def ex_eval)
  ultimately have "iostep ex_ctl ex_uc (s0, ex_io) [ex_nap_task] [] 0 (ex_tired, upd_self (\<lambda>_. sch ex_tired) ex_io)"
    by (rule is_other)
  from ioruns_step [OF ioruns_refl this]
  have "ioruns ex_ctl ex_uc (s0, ex_io) [ex_nap_task] [] 0 (ex_tired, upd_self (\<lambda>_. sch ex_tired) ex_io)"
    by simp
  from ioruns_trans [OF wrun_ioruns [OF ex_napping_run] this] show ?thesis
    by (simp add: s0(1) ex_nap_io_def upd_self_def)
qed


end
