(* ===== verification/EVA_Drain.thy ===== *)
theory EVA_Drain
  imports EVA_Wake
begin

text \<open>
  What \<open>stop()\<close> of \<open>src/src/scheduler.cpp\<close> means for fibers that wait: it returns only after they
  have been called again, unless two workers misjudge each other.
\<close>

section \<open>Stopping while fibers wait\<close>

text \<open>
  The system once callers have stopped using it: workers, what the functions they run do to file
  events but for \<open>delEvent\<close>, reports, and \<open>stop()\<close> up to its joins. No task is dropped, and no worker finds \<open>shouldStop()\<close>
  true while another has a task that is neither queued nor counted.
\<close>

inductive cstep ::
  "'k epoll_ctl \<Rightarrow> ucontext_ops \<Rightarrow> sys \<times> 'k IOManager \<Rightarrow> sys \<times> 'k IOManager \<Rightarrow> bool" for ctl uc where
  c_worker:
    "wstep uc t s q k 0 s' \<Longrightarrow>
     idle_fiber s' t = TERMINATED \<and> idle_fiber s t \<noteq> TERMINATED \<longrightarrow> (\<forall>u. \<not> in_gap (wpc s u)) \<Longrightarrow>
     cstep ctl uc (s, io) (s', upd_self (\<lambda>_. sch s') io)"
| c_add:
    "wpc s t = Exec b k fn \<Longrightarrow> fb_heap (fibs s) a = None \<Longrightarrow>
     addEvent ctl uc (\<lambda>_. 0) cur t a fd event f io (fibs s) = Inr (r, io', w) \<Longrightarrow>
     cstep ctl uc (s, io) (s\<lparr>fibs := w, sch := own io'\<rparr>, io')"
| c_cancel:
    "wpc s t = Exec b k fn \<Longrightarrow> cancelEvent ctl wr fd event io = Inr (r, io') \<Longrightarrow>
     cstep ctl uc (s, io) (s\<lparr>sch := own io'\<rparr>, io')"
| c_cancel_all:
    "wpc s t = Exec b k fn \<Longrightarrow> cancelAll ctl wr fd io = Inr (r, io') \<Longrightarrow>
     cstep ctl uc (s, io) (s\<lparr>sch := own io'\<rparr>, io')"
| c_report:
    "wpc s t = Idle_events \<Longrightarrow> p < length (fc_heap io) \<Longrightarrow> IOManager_scheduleEvent ctl wr evs p io = Inr (r, io') \<Longrightarrow>
     cstep ctl uc (s, io) (s\<lparr>sch := own io'\<rparr>, io')"
| c_stop:
    "stopper s = No_stop \<Longrightarrow>
     cstep ctl uc (s, io)
       (s\<lparr>sch := stop_begin (sch s), stopper := Stop_tickle (m_thread_count (sch s))\<rparr>, upd_self (\<lambda>_. stop_begin (sch s)) io)"
| c_tickle:
    "stopper s = Stop_tickle (Suc n) \<Longrightarrow> tickle wr (sch s) = Inr c \<Longrightarrow>
     cstep ctl uc (s, io) (s\<lparr>sch := c, stopper := Stop_tickle n\<rparr>, upd_self (\<lambda>_. c) io)"
| c_join:
    "stopper s = Stop_tickle 0 \<Longrightarrow> cstep ctl uc (s, io) (s\<lparr>stopper := Stop_join\<rparr>, upd_self (\<lambda>_. sch s) io)"

text \<open>These are steps of the composed system.\<close>

lemma cstep_iostep:
  assumes "cstep ctl uc (s, io) (s', io')"
  shows "\<exists>q k. iostep ctl uc (s, io) q k 0 (s', io')"
  using assms
proof (cases rule: cstep.cases)
  case c_stop
  then show ?thesis
    using is_other [OF x_stop [OF c_stop(3)], where ctl = ctl and io = io] by (fastforce simp: stop_begin_def)
next
  case (c_tickle n wr c)
  then show ?thesis
    using is_other [OF x_stop_tickle [OF c_tickle(3,4)], where ctl = ctl and io = io] by (fastforce elim: tickle_Inr)
next
  case c_join
  then show ?thesis
    using is_other [OF x_stop_join [OF c_join(3)], where ctl = ctl and io = io] by fastforce
qed (blast intro: iostep.intros)+

lemma cstep_wakes:
  assumes "cstep ctl uc (s, io) (s', io')" "own io = sch s" "timers_wf s"
    and w: "waiting a k s" "sched_wakes a s \<or> io_wakes a io"
  shows "waiting a k s' \<and> (sched_wakes a s' \<or> io_wakes a io') \<or> resumed a k s'"
  using assms(1)
proof (cases rule: cstep.cases)
  case c_worker
  then show ?thesis
    using worker_wakes [OF _ assms(2,3) w] by blast
next
  case c_stop
  then show ?thesis
    using xstep_waiting [OF x_stop [OF c_stop(3)] w(1)] xstep_wakes [OF x_stop [OF c_stop(3)] assms(3)]
      upd_self_wakes [OF _ assms(2)] w(2) by blast
next
  case (c_tickle n wr c)
  note st = x_stop_tickle [OF c_tickle(3,4)]
  show ?thesis
    using c_tickle xstep_waiting [OF st w(1)] xstep_wakes [OF st assms(3)] upd_self_wakes [OF _ assms(2)] w(2) by blast
next
  case c_join
  note st = x_stop_join [OF c_join(3)]
  show ?thesis
    using c_join xstep_waiting [OF st w(1)] xstep_wakes [OF st assms(3)] upd_self_wakes [OF _ assms(2)] w(2) by blast
qed (intro disjI1 io_op_wakes [OF _ assms(2) _ _ _ _ w]; auto intro: io_ops_keep addEvent_cell)+

text \<open>Runs of such steps, in which \<open>m_pending_count\<close> does not overflow.\<close>

inductive csteps ::
  "'k epoll_ctl \<Rightarrow> ucontext_ops \<Rightarrow> sys \<times> 'k IOManager \<Rightarrow> sys \<times> 'k IOManager \<Rightarrow> bool" for ctl uc x0 where
  csteps_refl: "csteps ctl uc x0 x0"
| csteps_step:
    "csteps ctl uc x0 x \<Longrightarrow> cstep ctl uc x x' \<Longrightarrow> total_registered (snd x') < 2 ^ 64 \<Longrightarrow> csteps ctl uc x0 x'"

text \<open>What they keep: a worker whose idle fiber has ended saw a system at rest.\<close>

definition ended_at_rest :: "sys \<Rightarrow> bool" where
  "ended_at_rest s \<longleftrightarrow>
     (\<forall>t\<in>set (m_threads (sch s)).
        (wpc s t = Exited \<longrightarrow> idle_fiber s t = TERMINATED) \<and> (idle_fiber s t = TERMINATED \<longrightarrow> quiet s))"

definition closed_inv ::
  "ucontext_ops \<Rightarrow> ('k \<Rightarrow> c_int \<Rightarrow> (u32 \<times> nat) option) \<Rightarrow> Scheduler \<Rightarrow> sys \<times> 'k IOManager \<Rightarrow> bool" where
  "closed_inv uc interest c x \<longleftrightarrow>
     (\<exists>q k. sruns uc (sys_init c) q k 0 (fst x)) \<and> own (snd x) = sch (fst x) \<and> io_inv interest (snd x) \<and>
     total_registered (snd x) < 2 ^ 64 \<and> length (m_threads (sch (fst x))) < 2 ^ 64 \<and> ended_at_rest (fst x)"

lemma none_counted:
  assumes "sruns uc (sys_init c) q k 0 s" "fresh_scheduler c" "length (m_threads (sch s)) < 2 ^ 64" "m_active_threads (sch s) = 0"
  shows "\<not> counted (wpc s t)"
proof -
  have inv: "counter_inv 0 s" "stop_inv s"
    by (rule sruns_counts [OF assms(1,2)], rule sruns_stop_inv [OF assms(1,2)])
  have "counted (wpc s u) \<Longrightarrow> running (wpc s u)" for u
    by (cases "wpc s u") (auto simp: running_def)
  then have "{u. counted (wpc s u)} \<subseteq> set (m_threads (sch s))"
    using inv(2) by (auto simp: stop_inv_def)
  then have "card {u. counted (wpc s u)} \<le> length (m_threads (sch s))"
    using card_mono [of "set (m_threads (sch s))"] card_length [of "m_threads (sch s)"] by (meson List.finite_set order_trans)
  then have "card {u. counted (wpc s u)} = 0"
    using inv(1) assms(3,4) by (intro of_nat_u64_eq_0) (simp_all add: counter_inv_def)
  then show ?thesis
    using inv(1) finite_in_position(1) [of s] by (auto simp: counter_inv_def)
qed

lemma at_rest_now:
  assumes "sruns uc (sys_init c) q k 0 s" "fresh_scheduler c" "length (m_threads (sch s)) < 2 ^ 64"
    and "shouldStop (sch s)" "\<forall>u. \<not> in_gap (wpc s u)"
  shows "quiet s"
  using none_counted [OF assms(1-3)] assms(4,5) sruns_stop_inv [OF assms(1,2)] sruns_calm [OF assms(1)]
  by (simp add: quiet_def shouldStop_def)

lemma wstep_ended_at_rest:
  assumes "wstep uc t s q k 0 s'" "ended_at_rest s"
    and "idle_fiber s' t = TERMINATED \<and> idle_fiber s t \<noteq> TERMINATED \<Longrightarrow> shouldStop (sch s) \<Longrightarrow> quiet s"
  shows "ended_at_rest s'"
proof -
  note fr = wstep_frame [OF assms(1)]
  have exited: "wpc s' t = Exited \<Longrightarrow> idle_fiber s' t = TERMINATED"
    using assms(1) by (cases rule: wstep.cases) (auto split: if_splits)
  have "quiet s'" if "u \<in> set (m_threads (sch s))" "idle_fiber s' u = TERMINATED" for u
  proof -
    have "quiet s"
    proof (cases "idle_fiber s u = TERMINATED")
      case True
      then show ?thesis
        using assms(2) that(1) by (simp add: ended_at_rest_def)
    next
      case False
      then show ?thesis
        using assms(3) fr(6,9) that(2) by (cases "u = t") auto
    qed
    then show ?thesis
      by (rule quiet_wstep(1) [OF assms(1)])
  qed
  moreover have "idle_fiber s' u = TERMINATED" if "u \<in> set (m_threads (sch s))" "wpc s' u = Exited" for u
    using that exited fr(5,6) assms(2) by (cases "u = t") (auto simp: ended_at_rest_def)
  ultimately show ?thesis
    by (simp add: ended_at_rest_def fr(1))
qed

text \<open>At rest nothing is registered, so that a report changes nothing; and nobody calls anything.\<close>

lemma rest_ignores_reports:
  assumes "IOManager_scheduleEvent ctl wr evs p io = Inr (r, io')" "p < length (fc_heap io)"
    and "io_inv interest io" "total_registered io < 2 ^ 64" "m_pending_count (own io) = 0"
  shows "io' = io"
proof -
  have "total_registered io = 0"
    using assms(3-5) by (intro of_nat_u64_eq_0) (simp_all add: io_inv_def)
  then have "fc_events (fc_heap io ! p) = 0"
    using assms(2,3) unregistered_contexts by (auto simp: io_inv_def)
  then show ?thesis
    using assms(1) by (simp add: IOManager_scheduleEvent_def NONE_def)
qed

lemma ended_at_rest_frame:
  assumes "ended_at_rest s" "wpc s' = wpc s" "idle_fiber s' = idle_fiber s" "m_threads (sch s') = m_threads (sch s)"
    and "quiet s \<Longrightarrow> quiet s'"
  shows "ended_at_rest s'"
  using assms unfolding ended_at_rest_def by metis

lemma xstep_quiet:
  assumes "xstep uc s q s'" "quiet s" "wpc s' = wpc s" "shouldStop (sch s')"
  shows "quiet s'"
  using assms(2-4) xstep_stop_inv [OF assms(1)] xstep_calm [OF assms(1)] by (simp add: quiet_def)

lemma stop_ended_at_rest:
  assumes "xstep uc s q s'" "ended_at_rest s" "wpc s' = wpc s" "idle_fiber s' = idle_fiber s"
    and "m_threads (sch s') = m_threads (sch s)" "shouldStop (sch s) \<Longrightarrow> shouldStop (sch s')"
  shows "ended_at_rest s'"
  by (rule ended_at_rest_frame [OF assms(2-5)])
     (use xstep_quiet [OF assms(1) _ assms(3)] assms(6) in \<open>auto simp: quiet_def\<close>)

lemma exec_ended_at_rest:
  assumes "ended_at_rest s" "wpc s t = Exec b k fn" "keeps a io io'" "own io = sch s"
    and "sch s' = own io'" "wpc s' = wpc s" "idle_fiber s' = idle_fiber s"
  shows "ended_at_rest s'"
proof (rule ended_at_rest_frame [OF assms(1,6,7)])
  show "m_threads (sch s') = m_threads (sch s)"
    using keeps_threads [OF assms(3)] assms(4,5) by simp
  have "\<not> quiet s"
    using assms(2) unfolding quiet_def by (metis counted.simps(3))
  then show "quiet s \<Longrightarrow> quiet s'" ..
qed

lemma cstep_ended_at_rest:
  assumes "cstep ctl uc (s, io) (s', io')" and inv: "closed_inv uc interest c (s, io)" and "fresh_scheduler c"
  shows "ended_at_rest s'"
proof -
  obtain q k where run: "sruns uc (sys_init c) q k 0 s" and own: "own io = sch s" and io: "io_inv interest io"
    and few: "total_registered io < 2 ^ 64" "length (m_threads (sch s)) < 2 ^ 64" and rest: "ended_at_rest s"
    using inv unfolding closed_inv_def fst_conv snd_conv by blast
  show ?thesis
    using assms(1)
  proof (cases rule: cstep.cases)
    case (c_worker t q' k')
    then show ?thesis
      using at_rest_now [OF run assms(3) few(2)] by (intro wstep_ended_at_rest [OF c_worker(2) rest]) blast
  next
    case (c_report t p wr evs r)
    show ?thesis
      unfolding c_report(1)
    proof (rule ended_at_rest_frame [OF rest])
      show "m_threads (sch (s\<lparr>sch := own io'\<rparr>)) = m_threads (sch s)"
        using keeps_threads [OF scheduleEvent_keeps [OF c_report(4)]] own by simp
      assume "quiet s"
      then have "m_pending_count (own io) = 0"
        by (simp add: quiet_def shouldStop_def own)
      then have "io' = io"
        by (rule rest_ignores_reports [OF c_report(4,3) io few(1)])
      then show "quiet (s\<lparr>sch := own io'\<rparr>)"
        using \<open>quiet s\<close> own by simp
    qed simp_all
  next
    case c_stop
    show ?thesis
      unfolding c_stop(1)
      by (rule stop_ended_at_rest [OF x_stop [OF c_stop(3)] rest]) (simp_all add: stop_begin_def shouldStop_def)
  next
    case (c_tickle n wr d)
    show ?thesis
      unfolding c_tickle(1)
      by (rule stop_ended_at_rest [OF x_stop_tickle [OF c_tickle(3,4)] rest])
         (use c_tickle(4) in \<open>auto simp: shouldStop_def elim: tickle_Inr\<close>)
  next
    case c_join
    show ?thesis
      unfolding c_join(1) by (rule stop_ended_at_rest [OF x_stop_join [OF c_join(3)] rest]) simp_all
  next
    case c_add
    then show ?thesis
      using exec_ended_at_rest [OF rest c_add(2) addEvent_keeps [OF c_add(4)] own] by simp
  next
    case c_cancel
    then show ?thesis
      using exec_ended_at_rest [OF rest c_cancel(2) cancelEvent_keeps [OF c_cancel(3)] own] by simp
  next
    case c_cancel_all
    then show ?thesis
      using exec_ended_at_rest [OF rest c_cancel_all(2) cancelAll_keeps [OF c_cancel_all(3)] own] by simp
  qed
qed

lemma cstep_threads:
  assumes "cstep ctl uc (s, io) (s', io')" "own io = sch s"
  shows "m_threads (sch s') = m_threads (sch s)"
  using assms(1)
proof (cases rule: cstep.cases)
  case c_worker
  then show ?thesis
    by (simp add: wstep_frame(1))
qed (use assms(2) in \<open>auto simp: stop_begin_def elim: tickle_Inr dest: io_ops_keep [THEN keeps_threads]\<close>)

lemma cstep_closed_inv:
  assumes "epoll_spec ctl interest pollable" "fresh_scheduler c"
    and "cstep ctl uc (s, io) (s', io')" "closed_inv uc interest c (s, io)" "total_registered io' < 2 ^ 64"
  shows "closed_inv uc interest c (s', io')"
proof -
  obtain q k where run: "sruns uc (sys_init c) q k 0 s" and own: "own io = sch s" and io: "io_inv interest io"
    and few: "length (m_threads (sch s)) < 2 ^ 64"
    using assms(4) unfolding closed_inv_def fst_conv snd_conv by blast
  obtain q' k' where st: "iostep ctl uc (s, io) q' k' 0 (s', io')"
    using cstep_iostep [OF assms(3)] by blast
  have "\<exists>q k. sruns uc (sys_init c) q k 0 s'"
    using sruns_trans [OF iostep_sim(1) [OF st own] run] by auto
  moreover have "m_threads (sch s') = m_threads (sch s)"
    by (rule cstep_threads [OF assms(3) own])
  ultimately show ?thesis
    using iostep_sim(2) [OF st own] iostep_inv [OF assms(1) st own io] assms(5) few
      cstep_ended_at_rest [OF assms(3,4,2)] unfolding closed_inv_def fst_conv snd_conv by simp
qed

lemma csteps_closed_inv:
  assumes "csteps ctl uc x0 x" "epoll_spec ctl interest pollable" "fresh_scheduler c" "closed_inv uc interest c x0"
  shows "closed_inv uc interest c x \<and> m_threads (sch (fst x)) = m_threads (sch (fst x0))"
  using assms(1)
proof induction
  case (csteps_step x x')
  obtain s io s' io' where x: "x = (s, io)" "x' = (s', io')"
    by fastforce
  have own: "own io = sch s"
    using csteps_step.IH unfolding x closed_inv_def fst_conv snd_conv by blast
  show ?case
    using cstep_closed_inv [OF assms(2,3)] cstep_threads [OF _ own] csteps_step.IH csteps_step.hyps(2,3)
    unfolding x fst_conv snd_conv by metis
qed (simp add: assms(4))

text \<open>When all workers have left, nothing is there any more that could wake a fiber.\<close>

lemma all_left_at_rest:
  assumes "closed_inv uc interest c (s, io)" "m_threads (sch s) \<noteq> []" "\<forall>t\<in>set (m_threads (sch s)). wpc s t = Exited"
  shows "shouldStop (sch s)" "\<not> sched_wakes a s" "\<not> io_wakes a io"
proof -
  have own: "own io = sch s" and io: "io_inv interest io" and few: "total_registered io < 2 ^ 64" and rest: "ended_at_rest s"
    using assms(1) unfolding closed_inv_def fst_conv snd_conv by blast+
  have q: "quiet s"
    using rest assms(2,3) unfolding ended_at_rest_def by (metis list.set_intros(1) neq_Nil_conv)
  then show stop: "shouldStop (sch s)"
    by (simp add: quiet_def)
  have "\<not> in_hand a (wpc s t)" for t
  proof -
    have "wpc s t = Not_started \<or> wpc s t = Exited"
      using q assms(3) unfolding quiet_def stop_inv_def running_def by blast
    then show ?thesis
      by auto
  qed
  then show "\<not> sched_wakes a s"
    using stop by (simp add: sched_wakes_def shouldStop_def timer_wakes_def hasTimers_def)
  have "total_registered io = 0"
    using io few stop own by (intro of_nat_u64_eq_0) (simp_all add: io_inv_def shouldStop_def)
  then have "fc_events (fc_heap io ! p) = 0" if "p < length (fc_heap io)" for p
    using that io unregistered_contexts by (auto simp: io_inv_def)
  then show "\<not> io_wakes a io"
    using stop own by (simp add: io_wakes_def fc_waits_def shouldStop_def)
qed

lemma csteps_wakes:
  assumes "csteps ctl uc (s0, io0) x" "own io0 = sch s0" "timers_wf s0"
    and "waiting a k s0" "sched_wakes a s0 \<or> io_wakes a io0"
  shows "(\<exists>y. csteps ctl uc (s0, io0) y \<and> csteps ctl uc y x \<and> resumed a k (fst y)) \<or>
         own (snd x) = sch (fst x) \<and> timers_wf (fst x) \<and> waiting a k (fst x) \<and> (sched_wakes a (fst x) \<or> io_wakes a (snd x))"
  using assms(1)
proof induction
  case csteps_refl
  then show ?case
    using assms(2-5) by simp
next
  case (csteps_step x x')
  obtain s io s' io' where x: "x = (s, io)" "x' = (s', io')"
    by fastforce
  have st: "cstep ctl uc (s, io) (s', io')"
    using csteps_step.hyps(2) by (simp add: x)
  from csteps_step.IH show ?case
  proof
    assume "\<exists>y. csteps ctl uc (s0, io0) y \<and> csteps ctl uc y x \<and> resumed a k (fst y)"
    then show ?thesis
      using csteps.csteps_step [OF _ csteps_step.hyps(2,3)] by blast
  next
    assume "own (snd x) = sch (fst x) \<and> timers_wf (fst x) \<and> waiting a k (fst x) \<and>
      (sched_wakes a (fst x) \<or> io_wakes a (snd x))"
    then have IH: "own io = sch s" "timers_wf s" "waiting a k s" and w: "sched_wakes a s \<or> io_wakes a io"
      unfolding x fst_conv snd_conv by blast+
    obtain q k' where io_st: "iostep ctl uc (s, io) q k' 0 (s', io')"
      using cstep_iostep [OF st] by blast
    have run: "csteps ctl uc (s0, io0) x'"
      by (rule csteps.csteps_step [OF csteps_step.hyps])
    note kept = iostep_sim(2) [OF io_st IH(1)] sruns_timers_wf [OF iostep_sim(1) [OF io_st IH(1)] IH(2)]
    from cstep_wakes [OF st IH w] show ?thesis
    proof
      assume "waiting a k s' \<and> (sched_wakes a s' \<or> io_wakes a io')"
      then show ?thesis
        using kept by (simp add: x)
    next
      assume "resumed a k s'"
      then show ?thesis
        using run csteps.csteps_refl [of ctl uc x'] by (intro disjI1 exI [of _ x']) (simp add: x)
    qed
  qed
qed


subsection \<open>The nap in time\<close>

lemma csteps_trans: "csteps ctl uc x1 x2 \<Longrightarrow> csteps ctl uc x0 x1 \<Longrightarrow> csteps ctl uc x0 x2"
  by (induction rule: csteps.induct) (auto intro: csteps.csteps_step)

lemma ends_at_top:
  assumes "wstep uc t s q k l s'" "idle_fiber s' t = TERMINATED \<and> idle_fiber s t \<noteq> TERMINATED"
  shows "wpc s t = Idle_top"
  using assms(1) by (cases rule: wstep.cases) (use assms(2) in auto)

lemma wrun_csteps:
  assumes "wrun uc a t n s = Some (q, k, 0, s')" "own io = sch s" "total_registered io < 2 ^ 64"
    and "\<forall>u. u \<noteq> t \<longrightarrow> \<not> in_gap (wpc s u)"
  shows "csteps ctl uc (s, io) (s', upd_self (\<lambda>_. sch s') io)"
  using assms
proof (induction n arbitrary: a s q k io)
  case 0
  then show ?case
    using csteps_refl by (simp add: upd_self_same)
next
  case (Suc n)
  from Suc.prems(1) obtain q1 k1 s1 q2 k2 where
    n: "wnext uc a 1 0 True t s = Some (q1, k1, 0, s1)" "wrun uc (Suc a) t n s1 = Some (q2, k2, 0, s')"
    by (auto split: option.splits prod.splits)
  let ?io = "upd_self (\<lambda>_. sch s1) io"
  note st = wnext_sound [OF n(1)]
  have few: "total_registered ?io < 2 ^ 64"
    using Suc.prems(3) by (simp add: total_registered_def upd_self_def)
  have "\<not> in_gap (wpc s u)" if "idle_fiber s1 t = TERMINATED \<and> idle_fiber s t \<noteq> TERMINATED" for u
    using ends_at_top [OF st that] Suc.prems(4) by (cases "u = t") auto
  then have "cstep ctl uc (s, io) (s1, ?io)"
    by (intro c_worker [OF st]) blast
  then have "csteps ctl uc (s, io) (s1, ?io)"
    using few by (intro csteps_step [OF csteps_refl]) simp_all
  moreover have "\<forall>u. u \<noteq> t \<longrightarrow> \<not> in_gap (wpc s1 u)"
    using Suc.prems(4) wstep_frame(5) [OF st] by simp
  then have "csteps ctl uc (s1, ?io) (s', upd_self (\<lambda>_. sch s') ?io)"
    using few by (intro Suc.IH [OF n(2)]) simp_all
  moreover have "upd_self (\<lambda>_. sch s') ?io = upd_self (\<lambda>_. sch s') io"
    by (simp add: upd_self_def)
  ultimately show ?case
    using csteps_trans by metis
qed

text \<open>\<open>stop()\<close> is called while the function of the nap is asleep.\<close>

definition ex_nap_stop :: sys where
  "ex_nap_stop = ex_napping\<lparr>sch := stop_begin (sch ex_napping), stopper := Stop_tickle 1\<rparr>"

lemma ex_nap_over: "\<exists>q k s. wrun ex_uc 20 1 37 ex_nap_stop = Some (q, k, 0, s) \<and> wpc s 1 = Exited"
  by (simp add: ex_nap_stop_def nap_eval schedule_range_def getExpiredFuncs_def rearmed_def)


section \<open>A sleeper left behind\<close>

text \<open>A function that queues another, which sleeps for a second.\<close>

definition ex_sleeper :: func where
  "ex_sleeper = Do (Add_wake 1000) (Yield_then Return)"

definition ex_starter :: func where
  "ex_starter = Do (Schedule_func ex_sleeper (-1)) Return"

definition ex_left_behind :: "move list" where
  "ex_left_behind = [Post ex_starter, Halt, By 2 0 2, By 1 10 7, By 2 20 4, By 1 30 1, By 2 40 13, By 1 60 11]"

text \<open>
  The first worker finds \<open>shouldStop()\<close> true while the second has taken the first function and not yet
  counted it, and the second finds it true while the first has taken the function that sleeps. Both
  leave \<open>run()\<close>, so that \<open>stop()\<close> returns, and the timer of the sleeping fiber is never polled again.
\<close>

lemma sleeper_left_behind:
  "\<exists>q k l s. sruns ex_uc (sys_init ex_pair) q k l s \<and> wpc s 1 = Exited \<and> wpc s 2 = Exited \<and> m_threads (sch s) = [1, 2] \<and>
     stopper s \<noteq> No_stop \<and> waiting 62 Return s \<and> timer_wakes 62 (m_timer_manager (sch s))"
proof -
  have "\<exists>s. play ex_uc ex_left_behind ex_started = Some s \<and> wpc s 1 = Exited \<and> wpc s 2 = Exited \<and> m_threads (sch s) = [1, 2] \<and>
     stopper s \<noteq> No_stop \<and> yielded 62 Return s \<and> timer_wakes 62 (m_timer_manager (sch s))"
    by (simp add: ex_left_behind_def ex_sleeper_def ex_starter_def ex_started_def ex_pair_def nap_eval
        yielded_def not_reused_def timer_wakes_def)
  then show ?thesis
    using play_sruns [OF _ ex_started_run] unfolding waiting_def by blast
qed

end
