(* ===== verification/EVA_HookRuns.thy ===== *)
theory EVA_HookRuns
  imports EVA_Wake EVA_HookWait
begin

text \<open>
  The hooked calls of \<open>src/src/hook.cpp\<close> on the workers of \<open>src/src/scheduler.cpp\<close>: what the
  functions that model them do up to \<open>Fiber::Yield()\<close> is a run of the composed system, so that what
  is shown of its runs holds for fibers that wait in hooked calls.
\<close>

section \<open>One state seen two ways\<close>

text \<open>
  The hooks' model keeps the IO manager's timers apart, with the callbacks as data; the scheduler
  keeps them in the base object as functions. A callback that queues a fiber is the function that
  does so; the closure of a timeout, whose effects are operations on file events, may be any function.
\<close>

definition timers_match :: "hook_cb callback TimerManager \<Rightarrow> func TimerManager \<Rightarrow> bool" where
  "timers_match tm tm' \<longleftrightarrow>
     m_timers tm' = m_timers tm \<and>
     (\<forall>p. m_period (timer_heap tm' p) = m_period (timer_heap tm p) \<and> m_next (timer_heap tm' p) = m_next (timer_heap tm p) \<and>
          m_recurring (timer_heap tm' p) = m_recurring (timer_heap tm p) \<and>
          (\<forall>b. m_func (timer_heap tm p) = Callback (Wake b) \<longrightarrow> m_func (timer_heap tm' p) = wake_func b))"

definition with_timers :: "func TimerManager \<Rightarrow> 'k IOManager \<Rightarrow> 'k IOManager" where
  "with_timers tm io = upd_self (\<lambda>c. c\<lparr>m_timer_manager := tm\<rparr>) io"

definition hook_rel :: "('k, 'e) hooks \<Rightarrow> sys \<times> 'e IOManager \<Rightarrow> bool" where
  "hook_rel h x \<longleftrightarrow>
     hk_fibs h = fibs (fst x) \<and> own (snd x) = sch (fst x) \<and>
     timers_match (hk_timers h) (m_timer_manager (sch (fst x))) \<and>
     with_timers (m_timer_manager (sch (fst x))) (hk_io h) = snd x"

lemma before_cong: "(\<And>p. m_next (h' p) = m_next (h p)) \<Longrightarrow> before h' = before h"
  by (intro ext) (simp add: Timer_cmp_def)

lemma addTimer_match:
  assumes "timers_match tm tm'" "addTimer now p ms cb rec tm = (tm1, changed)" "\<And>b. cb = Callback (Wake b) \<Longrightarrow> f = wake_func b"
  shows "\<exists>tm1'. addTimer now p ms f rec tm' = (tm1', changed) \<and> timers_match tm1 tm1'"
proof -
  let ?h = "(timer_heap tm)(p := Timer_ctor now ms cb rec)" and ?h' = "(timer_heap tm')(p := Timer_ctor now ms f rec)"
  have "before ?h' = before ?h"
    using assms(1) by (intro before_cong) (simp add: timers_match_def Timer_ctor_def)
  then show ?thesis
    using assms by (auto simp: addTimer_def addTimer_ptr_def timers_match_def Timer_ctor_def split: prod.splits)
qed

lemma with_timers_self [simp]:
  "io_self (with_timers tm io) = io_self io" "io_scheds (with_timers tm io) (io_self io) = (own io)\<lparr>m_timer_manager := tm\<rparr>"
  "fc_heap (with_timers tm io) = fc_heap io" "m_fd_contexts (with_timers tm io) = m_fd_contexts io"
  "io_kernel (with_timers tm io) = io_kernel io"
  by (simp_all add: with_timers_def upd_self_def)

lemma hook_relD:
  assumes "hook_rel h (s, io)"
  shows "hk_fibs h = fibs s" "own io = sch s" "timers_match (hk_timers h) (m_timer_manager (sch s))"
    "io = with_timers (m_timer_manager (sch s)) (hk_io h)" "io_self (hk_io h) = io_self io"
    "sch s = (own (hk_io h))\<lparr>m_timer_manager := m_timer_manager (sch s)\<rparr>"
proof -
  show rel: "hk_fibs h = fibs s" "own io = sch s" "timers_match (hk_timers h) (m_timer_manager (sch s))"
    "io = with_timers (m_timer_manager (sch s)) (hk_io h)"
    using assms unfolding hook_rel_def fst_conv snd_conv by blast+
  show "io_self (hk_io h) = io_self io"
    by (subst rel(4)) simp
  have "own (with_timers (m_timer_manager (sch s)) (hk_io h)) = sch s"
    using rel(2) unfolding rel(4) [symmetric] .
  then show "sch s = (own (hk_io h))\<lparr>m_timer_manager := m_timer_manager (sch s)\<rparr>"
    by simp
qed

lemma tickle_with_timers:
  "tickle wr (c\<lparr>m_timer_manager := tm\<rparr>) = res_bind (tickle wr c) (\<lambda>c'. Inr (c'\<lparr>m_timer_manager := tm\<rparr>))"
  by (cases "wr = 1") (simp_all add: tickle_def)

text \<open>Adding a timer.\<close>

lemma timer_added_rel:
  assumes "timer_added E (addTimer now p ms cb rec (hk_timers h)) h = Inr h1" "hook_rel h (s, io)"
    and "\<And>b. cb = Callback (Wake b) \<Longrightarrow> f = wake_func b"
  shows "\<exists>c. Scheduler_addTimer (write_rc E) now p ms f rec (sch s) = Inr c \<and>
             hook_rel h1 (s\<lparr>sch := c\<rparr>, upd_self (\<lambda>_. c) io)"
proof -
  obtain tm1 changed where add: "addTimer now p ms cb rec (hk_timers h) = (tm1, changed)"
    by fastforce
  note rel = hook_relD [OF assms(2)]
  obtain tm1' where add': "addTimer now p ms f rec (m_timer_manager (sch s)) = (tm1', changed)" "timers_match tm1 tm1'"
    using addTimer_match [OF rel(3) add assms(3)] by blast
  let ?c = "own (hk_io h)"
  have sch: "(sch s)\<lparr>m_timer_manager := tm1'\<rparr> = ?c\<lparr>m_timer_manager := tm1'\<rparr>"
    by (subst rel(6)) simp
  show ?thesis
  proof (cases changed)
    case True
    then obtain c1 where c1: "tickle (write_rc E) ?c = Inr c1"
      "h1 = h\<lparr>hk_timers := tm1, hk_io := (hk_io h)\<lparr>io_scheds := (io_scheds (hk_io h))(io_self (hk_io h) := c1)\<rparr>\<rparr>"
      using assms(1) add by (auto simp: timer_added_def on_self_def Let_def)
    have "Scheduler_addTimer (write_rc E) now p ms f rec (sch s) = Inr (c1\<lparr>m_timer_manager := tm1'\<rparr>)"
      using True add'(1) c1(1) by (simp add: Scheduler_addTimer_def sch tickle_with_timers)
    moreover have "with_timers tm1' ((hk_io h)\<lparr>io_scheds := (io_scheds (hk_io h))(io_self (hk_io h) := c1)\<rparr>) =
        upd_self (\<lambda>_. c1\<lparr>m_timer_manager := tm1'\<rparr>) io"
      by (subst rel(4)) (simp add: with_timers_def upd_self_def)
    then have "hook_rel h1 (s\<lparr>sch := c1\<lparr>m_timer_manager := tm1'\<rparr>\<rparr>, upd_self (\<lambda>_. c1\<lparr>m_timer_manager := tm1'\<rparr>) io)"
      using add'(2) by (simp add: hook_rel_def c1(2) rel(1))
    ultimately show ?thesis
      by blast
  next
    case False
    then have h1: "h1 = h\<lparr>hk_timers := tm1\<rparr>"
      using assms(1) add by (simp add: timer_added_def Let_def)
    have "Scheduler_addTimer (write_rc E) now p ms f rec (sch s) = Inr (?c\<lparr>m_timer_manager := tm1'\<rparr>)"
      using False add'(1) by (simp add: Scheduler_addTimer_def sch)
    moreover have "with_timers tm1' (hk_io h) = upd_self (\<lambda>_. ?c\<lparr>m_timer_manager := tm1'\<rparr>) io"
      by (subst rel(4)) (simp add: with_timers_def upd_self_def)
    then have "hook_rel h1 (s\<lparr>sch := ?c\<lparr>m_timer_manager := tm1'\<rparr>\<rparr>, upd_self (\<lambda>_. ?c\<lparr>m_timer_manager := tm1'\<rparr>) io)"
      using add'(2) by (simp add: hook_rel_def h1 rel(1))
    ultimately show ?thesis
      by blast
  qed
qed

text \<open>The switch.\<close>

lemma yield_now_rel:
  assumes "yield_now E t k h = Inr h1" "hook_rel h (s, io)"
    and "wpc s t = Exec b (Yield_then k) fn" "t_fiber (fibs s) t = Some b" "t_main_fiber (fibs s) t \<noteq> Some b"
  shows "\<exists>s1. wstep (uctx E) t s [] [] 0 s1 \<and> hook_rel h1 (s1, io) \<and>
              s1 = goto t (if fn then Back_func b else Back_fiber b) (s\<lparr>fibs := hk_fibs h1\<rparr>)"
proof -
  have fibs: "hk_fibs h = fibs s"
    using assms(2) by (simp add: hook_rel_def)
  obtain w where w: "Fiber_Yield (uctx E) t b (Ctx_saved k) (fibs s) = Some (Inr w)" "h1 = h\<lparr>hk_fibs := w\<rparr>"
    using assms(1,4,5) by (auto simp: yield_now_def fibs Fiber_Yield_def split: option.splits if_splits)
  let ?s = "goto t (if fn then Back_func b else Back_fiber b) (s\<lparr>fibs := w\<rparr>)"
  have "wstep (uctx E) t s [] [] 0 ?s"
    by (rule w_yield [OF assms(3) w(1)])
  moreover have "hook_rel h1 (?s, io)"
    using assms(2) unfolding hook_rel_def fst_conv snd_conv w(2) by simp
  ultimately show ?thesis
    by (simp add: w(2))
qed

section \<open>Sleeping\<close>

lemma sleep_for_steps:
  assumes "sleep_for E t a p now ms k h = Inr (r, h')" "hook_rel h (s, io)"
    and fib: "t_fiber (fibs s) t = Some b" "t_main_fiber (fibs s) t \<noteq> Some b"
    and pc: "wpc s t = Exec b (Do (Add_wake ms) (Yield_then k)) fn" and p: "timer_addr_free p (sch s)" "timers_wf s"
  shows "\<exists>s1 s2 io'. wstep (uctx E) t s [] [] 0 s1 \<and> wstep (uctx E) t s1 [] [] 0 s2 \<and> hook_rel h' (s2, io') \<and>
           wpc s2 t = (if fn then Back_func b else Back_fiber b) \<and> timer_wakes b (m_timer_manager (sch s2))"
proof -
  note rel = hook_relD [OF assms(2)]
  have "GetThis (uctx E) t a (hk_fibs h) = Inr (b, hk_fibs h)"
    using fib(1) by (simp add: rel(1) GetThis_def)
  then obtain h1 where h1: "timer_added E (addTimer now p ms (Callback (Wake b)) False (hk_timers h)) h = Inr h1"
    "yield_now E t k h1 = Inr h'"
    using assms(1) by (auto simp: sleep_for_def Let_def split: if_splits)
  obtain c where c: "Scheduler_addTimer (write_rc E) now p ms (wake_func b) False (sch s) = Inr c"
    "hook_rel h1 (s\<lparr>sch := c\<rparr>, upd_self (\<lambda>_. c) io)"
    using timer_added_rel [OF h1(1) assms(2), of "wake_func b"] by auto
  let ?s1 = "goto t (Exec b (Yield_then k) fn) (s\<lparr>sch := c\<rparr>)"
  have "wstep (uctx E) t s [] [] 0 ?s1"
    using w_exec [OF pc p(1), of "write_rc E" now "[]" c "uctx E"] c(1) by simp
  moreover have "hook_rel h1 (?s1, upd_self (\<lambda>_. c) io)"
    using c(2) by (simp add: hook_rel_def)
  from yield_now_rel [OF h1(2) this] fib
  obtain s2 where "wstep (uctx E) t ?s1 [] [] 0 s2" "hook_rel h' (s2, upd_self (\<lambda>_. c) io)" "sch s2 = c"
    "wpc s2 t = (if fn then Back_func b else Back_fiber b)"
    by fastforce
  moreover have "timer_wakes b (m_timer_manager c)"
    by (rule Scheduler_addTimer_timers(3) [OF c(1) p refl])
  ultimately show ?thesis
    by blast
qed

text \<open>The callback of a sleep's timer, and the function that the scheduler has in its place.\<close>

lemma schedule_with_timers:
  "schedule wr tk (c\<lparr>m_timer_manager := tm\<rparr>) = res_bind (schedule wr tk c) (\<lambda>c'. Inr (c'\<lparr>m_timer_manager := tm\<rparr>))"
  by (cases "wr = 1") (simp_all add: schedule_def tickle_def Let_def)

lemma wake_callback_step:
  assumes "run_callback E (Callback (Wake b)) h = Inr h'" "hook_rel h (s, io)"
    and "wpc s t = Exec c (wake_func b) fn" "timer_addr_free p (sch s)"
  shows "\<exists>s' io'. wstep uc t s [Task_of_fiber b (-1)] [] 0 s' \<and> hook_rel h' (s', io') \<and> wpc s' t = Exec c Return fn"
proof -
  note rel = hook_relD [OF assms(2)]
  let ?c = "own (hk_io h)" and ?tm = "m_timer_manager (sch s)"
  obtain c1 where c1: "schedule (write_rc E) (Task_of_fiber b (-1)) ?c = Inr c1"
    "h' = h\<lparr>hk_io := (hk_io h)\<lparr>io_scheds := (io_scheds (hk_io h))(io_self (hk_io h) := c1)\<rparr>\<rparr>"
    using assms(1) by (auto simp: run_callback_def on_self_def Let_def)
  let ?c1 = "c1\<lparr>m_timer_manager := ?tm\<rparr>"
  have "schedule (write_rc E) (Task_of_fiber b (-1)) (sch s) = Inr ?c1"
    using schedule_with_timers [where c = ?c and tm = ?tm] c1(1) by (simp add: rel(6) [symmetric])
  then have "do_eff (write_rc E) 0 p c (Schedule_fiber b (-1)) (sch s) = Inr ([Task_of_fiber b (-1)], ?c1)"
    by simp
  from w_exec [OF assms(3) [unfolded wake_func_def] assms(4) this, of uc]
  have "wstep uc t s [Task_of_fiber b (-1)] [] 0 (goto t (Exec c Return fn) (s\<lparr>sch := ?c1\<rparr>))" .
  moreover have "with_timers ?tm ((hk_io h)\<lparr>io_scheds := (io_scheds (hk_io h))(io_self (hk_io h) := c1)\<rparr>) = upd_self (\<lambda>_. ?c1) io"
    by (subst rel(4)) (simp add: with_timers_def upd_self_def)
  then have "hook_rel h' (goto t (Exec c Return fn) (s\<lparr>sch := ?c1\<rparr>), upd_self (\<lambda>_. ?c1) io)"
    by (simp add: hook_rel_def c1(2) rel(1,3))
  ultimately show ?thesis
    by fastforce
qed

text \<open>
  C19. The hooked sleeps are programs of the scheduler. What \<open>sleep\<close>, \<open>usleep\<close> and \<open>nanosleep\<close> do on a
  worker up to \<open>Fiber::Yield()\<close> is what the worker does in two steps on the program that adds the
  timer and yields; and when the timer's callback is run later, that is the step of a worker on the
  function that the scheduler has in its place, which queues the fiber. So a sleeping fiber is one
  that the runs of the scheduler account for.
\<close>

theorem hooked_sleep_is_program:
  assumes "hook_rel h (s, io)" "t_hooked h t" "t_fiber (fibs s) t = Some b" "t_main_fiber (fibs s) t \<noteq> Some b"
    and "wpc s t = Exec b (Do (Add_wake ms) (Yield_then k)) fn" "timer_addr_free p (sch s)" "tm_wf (m_timer_manager (sch s))"
    and "sleep E sleep_f t a p now seconds k h = Inr (r, h') \<and> ms = sleep_ms seconds \<or>
         usleep E usleep_f t a p now usec k h = Inr (r, h') \<and> ms = usleep_ms usec \<or>
         nanosleep E nanosleep_f t a p now sec nsec k h = Inr (r, h') \<and> ms = nanosleep_ms sec nsec"
    and "hook_rel g (s3, io3)" "run_callback E (Callback (Wake b)) g = Inr g'"
    and "wpc s3 u = Exec c (wake_func b) fn'" "timer_addr_free p' (sch s3)"
  shows "(\<exists>s1 s2 io'. wstep (uctx E) t s [] [] 0 s1 \<and> wstep (uctx E) t s1 [] [] 0 s2 \<and> hook_rel h' (s2, io') \<and>
            wpc s2 t = (if fn then Back_func b else Back_fiber b) \<and> timer_wakes b (m_timer_manager (sch s2))) \<and>
         (\<exists>s4 io'. wstep (uctx E) u s3 [Task_of_fiber b (-1)] [] 0 s4 \<and> hook_rel g' (s4, io'))"
proof -
  have "sleep_for E t a p now ms k h = Inr (r, h')"
    using assms(2,8) by (auto simp: sleep_def usleep_def nanosleep_def)
  then show ?thesis
    using sleep_for_steps [OF _ assms(1,3-7)] wake_callback_step [OF assms(10,9,11,12)] by blast
qed

text \<open>The state of the workers that goes with \<^const>\<open>ex_hooks\<close>: thread 1 runs fiber 1, which goes on with \<open>k\<close>.\<close>

definition ex_timers :: "func TimerManager" where
  "ex_timers = \<lparr>timer_heap = (\<lambda>_. Timer_ctor 0 0 (wake_func 0) False), m_timers = []\<rparr>"

definition ex_hook_io :: "(c_int \<Rightarrow> (u32 \<times> nat) option) IOManager" where
  "ex_hook_io = with_timers ex_timers ex_io"

definition ex_on_worker :: "func \<Rightarrow> sys" where
  "ex_on_worker k =
     goto 1 (Exec 1 k True) ((sys_init (own ex_hook_io))\<lparr>fibs := hk_fibs ex_hooks, func_fiber := [1 \<mapsto> 1]\<rparr>)"

lemma ex_on_worker_rel: "hook_rel ex_hooks (ex_on_worker k, ex_hook_io)"
proof -
  have "own ex_hook_io = (own ex_io)\<lparr>m_timer_manager := ex_timers\<rparr>"
    by (simp add: ex_hook_io_def)
  then show ?thesis
    by (simp add: hook_rel_def ex_on_worker_def sys_init_def timers_match_def ex_timers_def Timer_ctor_def ex_hooks_def)
       (simp add: ex_hook_io_def ex_timers_def Timer_ctor_def)
qed

lemma ex_on_worker_state: "wpc (ex_on_worker k) 1 = Exec 1 k True" "timer_addr_free p (sch (ex_on_worker k))"
  "tm_wf (m_timer_manager (sch (ex_on_worker k)))" "t_fiber (fibs (ex_on_worker k)) 1 = Some 1"
  "t_main_fiber (fibs (ex_on_worker k)) 1 \<noteq> Some 1" "fb_heap (fibs (ex_on_worker k)) 9 = None"
  "yielding 1 k 1 (ex_on_worker (Yield_then k))"
  by (auto simp: ex_on_worker_def sys_init_def ex_hook_io_def ex_timers_def timer_addr_free_def tm_wf_def ex_hooks_def
      yielding_def not_reused_def ex_ready_def)

lemma ex_sleep: "\<exists>r h. sleep ex_env (\<lambda>n. 0) 1 9 7 100 2 Return ex_hooks = Inr (r, h)"
  "\<exists>g. run_callback ex_env (Callback (Wake 1)) ex_hooks = Inr g" "t_hooked ex_hooks 1" "sleep_ms 2 = 2000"
proof -
  let ?r = "addTimer 100 7 (sleep_ms 2) (Callback (Wake 1)) False (hk_timers ex_hooks)"
  obtain n where n: "timer_added ex_env ?r ex_hooks = Inr (ex_hooks\<lparr>hk_timers := fst ?r, hk_io := with_bytes n (hk_io ex_hooks)\<rparr>)"
    using timer_added_ok [OF ex_env_ok(3), of ?r ex_hooks] by blast
  let ?h2 = "ex_hooks\<lparr>hk_timers := fst ?r, hk_io := with_bytes n (hk_io ex_hooks)\<rparr>"
  have on: "IOManager_GetThis ex_env 1 ex_hooks" "GetThis (uctx ex_env) 1 9 (hk_fibs ex_hooks) = Inr (1, hk_fibs ex_hooks)"
    "t_hooked ex_hooks 1"
    using ex_hooks_ok(1) by (simp_all add: runs_on_def GetThis_def)
  have "runs_on ex_env 1 1 ?h2"
    using ex_hooks_ok(1) by (simp add: runs_on_def IOManager_GetThis_def)
  then obtain h where "yield_now ex_env 1 Return ?h2 = Inr h"
    using yield_now_ok by blast
  then show "\<exists>r h. sleep ex_env (\<lambda>n. 0) 1 9 7 100 2 Return ex_hooks = Inr (r, h)"
    using n on by (simp add: sleep_def sleep_for_def)
  show "\<exists>g. run_callback ex_env (Callback (Wake 1)) ex_hooks = Inr g"
    using schedule_total [of "Task_of_fiber 1 (-1)" "own (hk_io ex_hooks)"]
    by (auto simp: run_callback_def on_self_def Let_def ex_env_ok(3))
  show "t_hooked ex_hooks 1" "sleep_ms 2 = 2000"
    using on by (simp_all add: sleep_ms_def)
qed

theorem hooked_sleep_is_program_witness:
  "\<exists>h r s1 s2 io. sleep ex_env (\<lambda>n. 0) 1 9 7 100 2 Return ex_hooks = Inr (r, h) \<and>
     wstep (uctx ex_env) 1 (ex_on_worker (Do (Add_wake 2000) (Yield_then Return))) [] [] 0 s1 \<and>
     wstep (uctx ex_env) 1 s1 [] [] 0 s2 \<and> hook_rel h (s2, io) \<and> timer_wakes 1 (m_timer_manager (sch s2))"
proof -
  obtain r h g where h: "sleep ex_env (\<lambda>n. 0) 1 9 7 100 2 Return ex_hooks = Inr (r, h)"
    "run_callback ex_env (Callback (Wake 1)) ex_hooks = Inr g"
    using ex_sleep(1,2) by blast
  then have "sleep ex_env (\<lambda>n. 0) 1 9 7 100 2 Return ex_hooks = Inr (r, h) \<and> 2000 = sleep_ms 2 \<or> u \<or> v" for u v
    by (simp add: ex_sleep(4))
  from hooked_sleep_is_program [OF ex_on_worker_rel ex_sleep(3) ex_on_worker_state(4,5,1,2,3) this ex_on_worker_rel
      h(2) ex_on_worker_state(1,2)] h(1)
  show ?thesis
    by blast
qed

section \<open>Waiting for an event\<close>

lemma resize_with_timers: "resizeContexts garb sz (with_timers tm io) = with_timers tm (resizeContexts garb sz io)"
  by (simp add: resizeContexts_def with_timers_def upd_self_def split: prod.splits)

lemma fc_heap_with_timers: "(with_timers tm io)\<lparr>fc_heap := hp\<rparr> = with_timers tm (io\<lparr>fc_heap := hp\<rparr>)"
  by (simp add: with_timers_def upd_self_def)

lemma upd_pending_with_timers:
  "upd_pending g ((with_timers tm io)\<lparr>io_kernel := k\<rparr>) = with_timers tm (upd_pending g (io\<lparr>io_kernel := k\<rparr>))"
proof -
  have comm: "c\<lparr>m_timer_manager := tm, m_pending_count := n\<rparr> = c\<lparr>m_pending_count := n, m_timer_manager := tm\<rparr>" for c :: Scheduler and n
    by (rule Scheduler.equality) simp_all
  show ?thesis
    by (simp add: upd_pending_def with_timers_def upd_self_def Let_def comm)
qed

lemma addEvent_with_timers:
  assumes "addEvent ctl uc garb cur t a fd event f io w = Inr (r, io', w')"
  shows "addEvent ctl uc garb cur t a fd event f (with_timers tm io) w = Inr (r, with_timers tm io', w')"
proof -
  obtain p io1 where look: "addEvent_lookup garb fd (table_short fd io) io = Inr (p, io1)"
    and reg: "addEvent_register ctl uc cur t a fd event f p io1 w = Inr (io', w')" and r: "r = True"
    using assms by (auto simp: addEvent_def)
  have "addEvent_lookup garb fd (table_short fd (with_timers tm io)) (with_timers tm io) = Inr (p, with_timers tm io1)"
    using look by (auto simp: addEvent_lookup_def Let_def table_short_def resize_with_timers ctx_ptr_def)
  moreover have "addEvent_register ctl uc cur t a fd event f p (with_timers tm io1) w = Inr (with_timers tm io', w')"
    using reg
    by (auto simp: addEvent_register_def Let_def upd_pending_with_timers fc_heap_with_timers split: prod.splits option.splits)
  ultimately show ?thesis
    by (simp add: addEvent_def r)
qed

lemma wait_timer_rel:
  assumes "(if to \<noteq> -1 then timer_added E (addTimer now p to cb False (hk_timers h)) h else Inr h) = Inr h1"
    and "hook_rel h (s, io)" "p \<notin> set (m_timers (hk_timers h))" "\<And>b. cb \<noteq> Callback (Wake b)"
  shows "\<exists>c io1. ioruns ctl uc (s, io) [] [] 0 (s\<lparr>sch := c\<rparr>, io1) \<and> hook_rel h1 (s\<lparr>sch := c\<rparr>, io1)"
proof (cases "to = -1")
  case True
  then have "hook_rel h1 (s\<lparr>sch := sch s\<rparr>, io)"
    using assms(1,2) by simp
  moreover have "ioruns ctl uc (s, io) [] [] 0 (s\<lparr>sch := sch s\<rparr>, io)"
    using ioruns_refl [of ctl uc "(s, io)"] by simp
  ultimately show ?thesis
    by blast
next
  case False
  then have "timer_added E (addTimer now p to cb False (hk_timers h)) h = Inr h1"
    using assms(1) by simp
  from timer_added_rel [OF this assms(2), of Return] assms(4)
  obtain c where c: "Scheduler_addTimer (write_rc E) now p to Return False (sch s) = Inr c"
    "hook_rel h1 (s\<lparr>sch := c\<rparr>, upd_self (\<lambda>_. c) io)"
    by auto
  have "timer_addr_free p (sch s)"
    using hook_relD(3) [OF assms(2)] assms(3) by (simp add: timer_addr_free_def timers_match_def)
  from x_timer [OF this c(1)] have "xstep uc s [] (s\<lparr>sch := c\<rparr>)" .
  moreover have "m_pending_count c = m_pending_count (sch s)"
    by (rule Scheduler_addTimer_Inr [OF c(1)]) simp
  ultimately have "iostep ctl uc (s, io) [] [] 0 (s\<lparr>sch := c\<rparr>, upd_self (\<lambda>_. c) io)"
    using is_other [of uc s "[]" "s\<lparr>sch := c\<rparr>" ctl io] by simp
  from ioruns_step [OF ioruns_refl this] show ?thesis
    using c(2) by auto
qed

lemma wait_add_rel:
  assumes "addEvent ctl uc (\<lambda>_. 0) cur t a fd event None (hk_io h) (hk_fibs h) = Inr (r, io1, w)"
    and "hook_rel h (s, io)" "fb_heap (fibs s) a = None"
  shows "\<exists>c io2. iostep ctl uc (s, io) [] [] 0 (s\<lparr>fibs := w, sch := c\<rparr>, io2) \<and>
           hook_rel (h\<lparr>hk_io := io1, hk_fibs := w\<rparr>) (s\<lparr>fibs := w, sch := c\<rparr>, io2)"
proof -
  note rel = hook_relD [OF assms(2)]
  let ?tm = "m_timer_manager (sch s)" and ?io2 = "with_timers (m_timer_manager (sch s)) io1"
  have "addEvent ctl uc (\<lambda>_. 0) cur t a fd event None io (fibs s) = Inr (r, ?io2, w)"
    using addEvent_with_timers [OF assms(1), of ?tm] by (simp add: rel(1) rel(4) [symmetric])
  from is_add [OF assms(3) this]
  have "iostep ctl uc (s, io) [] [] 0 (s\<lparr>fibs := w, sch := own ?io2\<rparr>, ?io2)" .
  moreover have "hook_rel (h\<lparr>hk_io := io1, hk_fibs := w\<rparr>) (s\<lparr>fibs := w, sch := own ?io2\<rparr>, ?io2)"
    using rel(3) by (simp add: hook_rel_def)
  ultimately show ?thesis
    by blast
qed

lemma wait_yield_rel:
  assumes "yield_now E t k h = Inr h1" "hook_rel h (s, io)" "yielding b k t s"
    and "t_fiber (fibs s) t = Some b" "t_main_fiber (fibs s) t \<noteq> Some b" "parked t b k h1"
  shows "\<exists>s1. iostep ctl (uctx E) (s, io) [] [] 0 (s1, io) \<and> hook_rel h1 (s1, io) \<and> yielded b k s1"
proof -
  obtain fn where fn: "wpc s t = Exec b (Yield_then k) fn" "func_fiber s t = Some b \<longrightarrow> fn"
    using assms(3) by (auto simp: yielding_def)
  obtain s1 where s1: "wstep (uctx E) t s [] [] 0 s1" "hook_rel h1 (s1, io)"
    "s1 = goto t (if fn then Back_func b else Back_fiber b) (s\<lparr>fibs := hk_fibs h1\<rparr>)"
    using yield_now_rel [OF assms(1,2) fn(1) assms(4,5)] by blast
  have "upd_self (\<lambda>_. sch s1) io = io"
    by (simp add: upd_self_def hook_relD(2) [OF s1(2), symmetric])
  then have "iostep ctl (uctx E) (s, io) [] [] 0 (s1, io)"
    using is_worker [OF s1(1), of ctl io] by simp
  moreover have "yielded b k s1"
    using assms(3,6) fn(2) unfolding yielded_def s1(3)
    by (auto simp: yielding_def parked_def not_reused_def context_prog_def)
  ultimately show ?thesis
    using s1(2) by blast
qed

lemma registered_with_timers: "registered (with_timers tm io) fd ev = registered io fd ev"
  unfolding registered_def ctx_of_def with_timers_self ..

lemma registered_wakes:
  assumes "registered io fd ev = Some (Some (io_self io), Some (Task_of_fiber b (-1)))" "io_inv interest io"
  shows "io_wakes b io"
proof -
  obtain p where "ctx_of io fd = Some p" "fc_waits b (io_self io) ev (fc_heap io ! p)"
    using assms(1) by (auto simp: registered_def fc_waits_def split: option.splits sum.splits if_splits)
  then show ?thesis
    using assms(2) by (auto simp: io_wakes_def io_inv_def table_ok_def)
qed

text \<open>
  C18. A hooked call that waits is a run of the composed system. Where a thread of the IO manager runs
  a fiber that has come to the wait of \<open>do_io\<close> or \<open>connect_with_timeout\<close>, and the descriptor's slot is
  free, the wait succeeds; adding the condition timer, registering the event and switching away are
  steps of the system from the state the worker is in; and at its end the fiber waits and is
  registered with its own scheduler, which is all that is needed for its wake-up not to be lost.
\<close>

theorem hooked_wait_is_run:
  assumes "epoll_spec (ep_ctl E) interest pollable" "io_inv interest (hk_io h)"
    and "garbage E = (\<lambda>_. 0)" "0 \<le> fd" "pollable fd" "event = READ \<or> event = WRITE" "\<not> slot_used (hk_io h) fd event"
    and "tm_wf (hk_timers h)" "p \<notin> set (m_timers (hk_timers h))" "runs_on E t b h"
    and "hook_rel h (s, io)" "yielding b k t s" "fb_heap (fibs s) a = None"
  shows "\<exists>h' s' io'. wait_event E t a p now i fd event to k h = Inr (True, if to \<noteq> -1 then Some p else None, h') \<and>
           ioruns (ep_ctl E) (uctx E) (s, io) [] [] 0 (s', io') \<and> hook_rel h' (s', io') \<and>
           waiting b k s' \<and> io_wakes b io' \<and>
           registered io' fd event = Some (Some (io_self io'), Some (Task_of_fiber b (-1)))"
proof -
  let ?cb = "Bind_OnTimer i (Callback (Timeout i fd event))"
  obtain h' where h': "wait_event E t a p now i fd event to k h = Inr (True, if to \<noteq> -1 then Some p else None, h')"
    "io_inv interest (hk_io h')" "parked t b k h'" "registered (hk_io h') fd event = Some (cur_sched E t, Some (Task_of_fiber b (-1)))"
    "io_self (hk_io h') = io_self (hk_io h)"
    using wait_event_ok [OF assms(1-10)] by blast
  have self: "cur_sched E t = Some (io_self (hk_io h))"
    using assms(10) by (simp add: runs_on_def IOManager_GetThis_def)
  then obtain h1 io1 w where st: "(if to \<noteq> -1 then timer_added E (addTimer now p to ?cb False (hk_timers h)) h else Inr h) = Inr h1"
    "addEvent (ep_ctl E) (uctx E) (\<lambda>_. 0) (cur_sched E t) t a fd event None (hk_io h1) (hk_fibs h1) = Inr (True, io1, w)"
    "yield_now E t k (h1\<lparr>hk_io := io1, hk_fibs := w\<rparr>) = Inr h'"
    using h'(1) assms(3) unfolding wait_event_def Let_def addConditionTimer_def
    by (auto simp: IOManager_GetThis_def split: if_splits)
  obtain c1 ioA where A: "ioruns (ep_ctl E) (uctx E) (s, io) [] [] 0 (s\<lparr>sch := c1\<rparr>, ioA)" "hook_rel h1 (s\<lparr>sch := c1\<rparr>, ioA)"
    using wait_timer_rel [OF st(1) assms(11,9)] by blast
  have fib: "t_fiber (fibs s) t = Some b" "t_main_fiber (fibs s) t \<noteq> Some b"
    using assms(10) hook_relD(1) [OF assms(11)] by (auto simp: runs_on_def)
  then have w: "w = fibs s"
    using addEvent_own(3) [OF st(2)] hook_relD(1) [OF A(2)] by (auto simp: GetThis_def)
  obtain c2 io' where B: "iostep (ep_ctl E) (uctx E) (s\<lparr>sch := c1\<rparr>, ioA) [] [] 0 (s\<lparr>sch := c2\<rparr>, io')"
    "hook_rel (h1\<lparr>hk_io := io1, hk_fibs := w\<rparr>) (s\<lparr>sch := c2\<rparr>, io')"
    using wait_add_rel [OF st(2) A(2)] assms(13) w by auto
  have "yielding b k t (s\<lparr>sch := c2\<rparr>)"
    using assms(12) by (simp add: yielding_def not_reused_def)
  from wait_yield_rel [OF st(3) B(2) this _ _ h'(3)] fib
  obtain s' where C: "iostep (ep_ctl E) (uctx E) (s\<lparr>sch := c2\<rparr>, io') [] [] 0 (s', io')" "hook_rel h' (s', io')" "yielded b k s'"
    by fastforce
  have run: "ioruns (ep_ctl E) (uctx E) (s, io) [] [] 0 (s', io')"
    using ioruns_step [OF ioruns_step [OF A(1) B(1)] C(1)] by simp
  note rel = hook_relD [OF C(2)]
  have reg: "registered io' fd event = Some (Some (io_self io'), Some (Task_of_fiber b (-1)))"
    using h'(4,5) self registered_with_timers [of "m_timer_manager (sch s')" "hk_io h'"]
    by (simp add: rel(4) [symmetric] rel(5) [symmetric])
  have "io_inv interest io'"
    unfolding rel(4) by (rule io_inv_frame [OF h'(2)]) simp_all
  from registered_wakes [OF reg this] show ?thesis
    using h'(1) run C(2,3) reg by (auto simp: waiting_def)
qed

theorem hooked_wait_is_run_witness:
  "\<exists>h s io. wait_event ex_env 1 9 7 100 0 5 READ 300 Return ex_hooks = Inr (True, Some 7, h) \<and>
     ioruns ex_ctl ex_uc (ex_on_worker (Yield_then Return), ex_hook_io) [] [] 0 (s, io) \<and> waiting 1 Return s \<and> io_wakes 1 io"
proof -
  have "\<not> slot_used ex_io 5 READ"
    by (simp add: slot_used_def ctx_of_def ex_io_def FdContext_new_def getContext_simps)
  then show ?thesis
    using hooked_wait_is_run [OF ex_env_ok(1) _ ex_env_ok(2), of ex_hooks 5 READ 7 1 1 "ex_on_worker (Yield_then Return)" ex_hook_io
        Return 9 100 0 300] ex_hooks_ok ex_io_inv ex_on_worker_rel ex_on_worker_state(6,7)
    by (auto simp: ex_env_def)
qed

end
