(* ===== verification/EVA_Startup.thy ===== *)
theory EVA_Startup
  imports EVA_Log
begin

text \<open>
  What happens before \<open>main\<close>: the initialisation of the namespace-scope objects of the library. Six
  files ask \<open>LoggerManager\<close>, a \<open>Singleton\<close> (\<open>src/src/singleton.h\<close>), for the logger \<open>system\<close>, and
  \<open>src/src/hook.cpp\<close> looks up the functions it replaces. The language leaves the order of files open, so
  it is an argument; that \<open>log.cpp\<close> comes first, with the table of items, is the order of the library's
  sources in the build file. \<open>dlsym\<close> is a parameter.
\<close>

section \<open>Static objects\<close>

text \<open>\<open>static T v; return &v;\<close>: the object, and whether its constructor ran in this call.\<close>

definition Singleton_Get :: "'a \<Rightarrow> 'a option \<Rightarrow> 'a \<times> bool" where
  "Singleton_Get ctor v = (case v of None \<Rightarrow> (ctor, True) | Some x \<Rightarrow> (x, False))"

datatype unit_file = Util_cpp | Fiber_cpp | Timer_cpp | Scheduler_cpp | Iomanager_cpp | Hook_cpp

record 'f statics =
  sv_manager :: "LogSys option"  \<comment> \<open>the object of \<open>Singleton<LoggerManager>\<close>\<close>
  sv_made :: nat  \<comment> \<open>how often it was constructed\<close>
  sv_logger :: "unit_file \<Rightarrow> nat option"  \<comment> \<open>the variable \<open>g_logger\<close> of each file\<close>
  sv_original :: "string \<Rightarrow> 'f option"  \<comment> \<open>the pointers \<open>name_f\<close>\<close>
  sv_inited :: bool  \<comment> \<open>the variable \<open>is_inited\<close>\<close>

text \<open>Pointers are null before anything runs.\<close>

definition statics0 :: "'f statics" where
  "statics0 =
     \<lparr>sv_manager = None, sv_made = 0, sv_logger = (\<lambda>_. None), sv_original = (\<lambda>_. None), sv_inited = False\<rparr>"

definition EVA_LOGGER :: "LogSys \<Rightarrow> string \<Rightarrow> 'f statics \<Rightarrow> nat \<times> 'f statics" where
  "EVA_LOGGER ctor name s =
     (case Singleton_Get ctor (sv_manager s) of
        (m, made) \<Rightarrow>
          (case getLogger name m of
             (l, m') \<Rightarrow> (l, s\<lparr>sv_manager := Some m', sv_made := sv_made s + of_bool made\<rparr>)))"

section \<open>The replaced functions\<close>

definition HOOK_FUN :: "string list" where
  "HOOK_FUN =
     [''sleep'', ''usleep'', ''nanosleep'', ''socket'', ''connect'', ''accept'', ''read'', ''readv'', ''recv'',
      ''recvfrom'', ''recvmsg'', ''write'', ''writev'', ''send'', ''sendto'', ''sendmsg'', ''close'', ''fcntl'',
      ''ioctl'', ''getsockopt'', ''setsockopt'']"

text \<open>\<open>is_inited\<close> is read and never set.\<close>

definition hook_init :: "(string \<Rightarrow> 'f option) \<Rightarrow> 'f statics \<Rightarrow> 'f statics" where
  "hook_init dlsym s =
     (if sv_inited s then s
      else s\<lparr>sv_original := fold (\<lambda>name tbl. tbl(name := dlsym name)) HOOK_FUN (sv_original s)\<rparr>)"

text \<open>A call through a pointer \<open>name_f\<close>, as every replaced function makes outside of hooked threads.\<close>

definition original :: "string \<Rightarrow> 'f statics \<Rightarrow> 'f result" where
  "original name s = (case sv_original s name of None \<Rightarrow> Inl NullDeref | Some f \<Rightarrow> Inr f)"

definition static_init :: "LogSys \<Rightarrow> (string \<Rightarrow> 'f option) \<Rightarrow> unit_file \<Rightarrow> 'f statics \<Rightarrow> 'f statics" where
  "static_init ctor dlsym u s =
     (case EVA_LOGGER ctor ''system'' s of
        (l, s1) \<Rightarrow>
          let s2 = s1\<lparr>sv_logger := (sv_logger s1)(u := Some l)\<rparr>
          in if u = Hook_cpp then hook_init dlsym s2 else s2)"

section \<open>After any files have been initialised\<close>

lemma getLogger_again: "getLogger name s = (l, s') \<Longrightarrow> getLogger name s' = (l, s') \<and> m_loggers s' name = Some l"
  by (auto simp: getLogger_def split: option.splits prod.splits)

lemma fold_assign: "fold (\<lambda>x f. f(x := g x)) xs f = (\<lambda>x. if x \<in> set xs then g x else f x)"
  by (induction xs arbitrary: f) (auto simp: fun_eq_iff)

lemma static_inits:
  assumes "getLogger ''system'' ctor = (l, m)" "us \<noteq> []"
  shows "fold (static_init ctor dlsym) us statics0 =
    \<lparr>sv_manager = Some m, sv_made = 1, sv_logger = (\<lambda>u. if u \<in> set us then Some l else None),
     sv_original = (\<lambda>name. if Hook_cpp \<in> set us \<and> name \<in> set HOOK_FUN then dlsym name else None), sv_inited = False\<rparr>"
  using assms(2)
proof (induction us rule: rev_induct)
  case (snoc u us)
  have step: "static_init ctor dlsym u s = (let s2 = s\<lparr>sv_manager := Some m, sv_made := sv_made s + of_bool (sv_manager s = None),
      sv_logger := (sv_logger s)(u := Some l)\<rparr> in if u = Hook_cpp then hook_init dlsym s2 else s2)"
    if "sv_manager s = None \<or> sv_manager s = Some m" for s
    using that assms(1) getLogger_again [OF assms(1)]
    by (auto simp: static_init_def EVA_LOGGER_def Singleton_Get_def Let_def)
  show ?case
  proof (cases "us = []")
    case True
    then show ?thesis
      using step [of statics0] by (auto simp: statics0_def hook_init_def fold_assign Let_def)
  next
    case False
    then show ?thesis
      using step [of "fold (static_init ctor dlsym) us statics0"] snoc.IH
      by (auto simp: hook_init_def fold_assign Let_def fun_eq_iff)
  qed
qed simp



end
