(* ===== verification/EVA_Examples.thy ===== *)
theory EVA_Examples
  imports EVA_Startup
begin

text \<open>
  The example program \<open>src/examples/logging.cpp\<close> on the model of the logger. It starts where the
  library's static objects have been initialised; the file name of the source, the ids of the thread,
  the clock and \<open>strftime\<close> are parameters.
\<close>

section \<open>Where the examples start\<close>

definition at_main :: "(string \<Rightarrow> u64 \<Rightarrow> string) \<Rightarrow> (string \<Rightarrow> string) \<Rightarrow> (string \<Rightarrow> bool) \<Rightarrow> LogSys" where
  "at_main strftime fs can = snd (getLogger ''system'' (LoggerManager_ctor strftime fs can))"

lemma at_main_startup:
  assumes "us \<noteq> []"
  shows "sv_manager (fold (static_init (LoggerManager_ctor strftime fs can) dlsym) us statics0) = Some (at_main strftime fs can)"
  using static_inits [OF surjective_pairing assms, of "LoggerManager_ctor strftime fs can" dlsym] by (simp add: at_main_def)

abbreviation default_formatter :: "Item list" where
  "default_formatter \<equiv> fst (LogFormatter_ctor DEFAULT_PATTERN)"

abbreviation plain :: "sink \<Rightarrow> LogAppender" where
  "plain k \<equiv> \<lparr>ap_sink = k, ap_formatter = Some default_formatter, ap_level = DEBUG, ap_ss = []\<rparr>"

lemma at_main_eq:
  "at_main st fs can =
     \<lparr>strftime_fn = st, ap_heap = [plain Stdout, plain Stdout],
      lg_heap = [\<lparr>lg_name = ''root'', lg_level = DEBUG, lg_formatter = default_formatter, lg_appenders = [0]\<rparr>,
                 \<lparr>lg_name = ''system'', lg_level = DEBUG, lg_formatter = default_formatter, lg_appenders = [1]\<rparr>],
      m_loggers = [''root'' \<mapsto> 0, ''system'' \<mapsto> 1], m_root_logger = 0, cout = [], files = fs, can_open = can\<rparr>"
  by (simp add: at_main_def LoggerManager_ctor_def getLogger_def new_logger_def addLogAppender_def Logger_ctor_def
      LogAppender_new_def Let_def)

lemma format_os_default:
  assumes "source_path path" "m_file event = path @ [CHR 0x00]"
  shows "format_os st nm os default_formatter event =
    (if 5 \<le> slashes path then Inr (os @ default_line st (nm (m_logger event)) path event) else Inl OutOfBounds)"
  using format_default [OF assms, of st nm] format_loop_append [of st nm os]
  by (simp add: format_os_def format_string_def)

text \<open>The event of a statement in the examples.\<close>

definition stmt :: "nat \<Rightarrow> Level \<Rightarrow> string \<Rightarrow> int \<Rightarrow> u64 \<Rightarrow> u32 \<Rightarrow> u64 \<Rightarrow> string \<Rightarrow> string \<Rightarrow> LogEvent" where
  "stmt l level path line time thread_id fiber_id thread_name msg =
     (LogEvent_ctor l (path @ [CHR 0x00]) line time level thread_id fiber_id thread_name [])\<lparr>m_ss := msg\<rparr>"

lemma stmt_simps [simp]:
  "m_level (stmt l level path line time i f n msg) = level" "m_logger (stmt l level path line time i f n msg) = l"
  "m_file (stmt l level path line time i f n msg) = path @ [CHR 0x00]"
  by (simp_all add: stmt_def LogEvent_ctor_def)

lemma EVA_LOG_stmt:
  "EVA_LOG_DEBUG l (path @ [CHR 0x00]) line time i f n msg s =
     (if lg_level (lg_heap s ! l) \<le> DEBUG then Logger_log l DEBUG (stmt l DEBUG path line time i f n msg) s else Inr s)"
  "EVA_LOG_INFO l (path @ [CHR 0x00]) line time i f n msg s =
     (if lg_level (lg_heap s ! l) \<le> INFO then Logger_log l INFO (stmt l INFO path line time i f n msg) s else Inr s)"
  by (simp_all add: EVA_LOG_DEBUG_def EVA_LOG_INFO_def EVA_LOG_LEVEL_def LogWrapper_dtor_def stmt_def LogEvent_ctor_def Let_def)

section \<open>\<open>logging.cpp\<close>\<close>

text \<open>\<open>new Appender\<close> and \<open>new Logger\<close>: the address and the state.\<close>

definition new_appender :: "sink \<Rightarrow> LogSys \<Rightarrow> nat \<times> LogSys" where
  "new_appender k s = (length (ap_heap s), s\<lparr>ap_heap := ap_heap s @ [LogAppender_new k]\<rparr>)"

definition new_Logger :: "string \<Rightarrow> LogSys \<Rightarrow> nat \<times> LogSys" where
  "new_Logger name s = (length (lg_heap s), s\<lparr>lg_heap := lg_heap s @ [Logger_ctor name DEBUG DEFAULT_PATTERN]\<rparr>)"

text \<open>What the statements of a thread find: file, thread, fiber and thread name.\<close>

record where_am_i =
  wh_file :: "char list"
  wh_thread :: u32
  wh_fiber :: u64
  wh_name :: string

text \<open>The loop; \<open>now k n\<close> is what \<open>time(0)\<close> answers to statement \<open>n\<close> of a round.\<close>

function logging_loop :: "where_am_i \<Rightarrow> (int \<Rightarrow> nat \<Rightarrow> u64) \<Rightarrow> nat \<Rightarrow> nat \<Rightarrow> int \<Rightarrow> LogSys \<Rightarrow> LogSys result" where
  "logging_loop w now logger logger2 k s =
     (let k' = k - 1 in
      if k' \<ge> 0
      then res_bind (EVA_LOG_DEBUG logger (wh_file w) 31 (now k' 0) (wh_thread w) (wh_fiber w) (wh_name w) ''hello example'' s)
         (\<lambda>s1. res_bind (EVA_LOG_INFO logger (wh_file w) 32 (now k' 1) (wh_thread w) (wh_fiber w) (wh_name w) ''hello example'' s1)
         (\<lambda>s2. res_bind (EVA_LOG_INFO logger2 (wh_file w) 33 (now k' 2) (wh_thread w) (wh_fiber w) (wh_name w) ''hello example'' s2)
         (\<lambda>s3. logging_loop w now logger logger2 k' s3)))
      else Inr s)"
  by pat_completeness auto

termination
  by (relation "measure (\<lambda>(w, now, l, l2, k, s). nat k)") auto

declare logging_loop.simps [simp del]

definition logging_main :: "where_am_i \<Rightarrow> (int \<Rightarrow> nat \<Rightarrow> u64) \<Rightarrow> LogSys \<Rightarrow> LogSys result" where
  "logging_main w now s =
     (case new_Logger ''system'' s of (logger, s1) \<Rightarrow>
      let logger2 = EVA_ROOT_LOGGER s1 in
      case new_appender Stdout s1 of (appender, s2) \<Rightarrow>
      case new_appender (File ''test.log'') s2 of (fappender, s3) \<Rightarrow>
      let s4 = appender_setLevel fappender ERROR s3 in
      case new_appender Stream s4 of (sappender, s5) \<Rightarrow>
      let s6 = addLogAppender logger fappender s5;
          s7 = addLogAppender logger appender s6;
          s8 = addLogAppender logger sappender s7
      in logging_loop w now logger logger2 100 s8)"

text \<open>The state of the program in its loop, by what has been written.\<close>

definition in_logging :: "(string \<Rightarrow> u64 \<Rightarrow> string) \<Rightarrow> (string \<Rightarrow> string) \<Rightarrow> (string \<Rightarrow> bool) \<Rightarrow> string \<Rightarrow> string \<Rightarrow> LogSys" where
  "in_logging st fs can out ss =
     (at_main st fs can)\<lparr>cout := out,
        ap_heap := [plain Stdout, plain Stdout, plain Stdout, (plain (File ''test.log''))\<lparr>ap_level := ERROR\<rparr>, (plain Stream)\<lparr>ap_ss := ss\<rparr>],
        lg_heap := lg_heap (at_main st fs can) @
          [\<lparr>lg_name = ''system'', lg_level = DEBUG, lg_formatter = default_formatter, lg_appenders = [3, 2, 4]\<rparr>]\<rparr>"

lemma upd_numeral [simp]: "(x # xs)[numeral v := y] = x # xs[numeral v - 1 := y]"
  by (simp add: numeral_eq_Suc)

lemma logging_main_setup:
  "logging_main w now (at_main st fs can) = logging_loop w now 2 0 100 (in_logging st fs can [] [])"
  unfolding logging_main_def Let_def
  by (simp add: new_Logger_def new_appender_def appender_setLevel_def addLogAppender_def LogAppender_new_def
      Logger_ctor_def EVA_ROOT_LOGGER_def in_logging_def at_main_eq eval_nat_numeral)

lemmas stmt_eval = EVA_LOG_stmt Logger_log_def appender_log_def format_os_default format_default in_logging_def
  at_main_eq less_eq_Level_def

lemma logging_stmts:
  assumes "source_path path" "5 \<le> slashes path"
  shows "EVA_LOG_DEBUG 2 (path @ [CHR 0x00]) line time i f n msg (in_logging st fs can out ss) =
      (let t = default_line st ''system'' path (stmt 2 DEBUG path line time i f n msg) in Inr (in_logging st fs can (out @ t) (ss @ t)))"
    and "EVA_LOG_INFO 2 (path @ [CHR 0x00]) line time i f n msg (in_logging st fs can out ss) =
      (let t = default_line st ''system'' path (stmt 2 INFO path line time i f n msg) in Inr (in_logging st fs can (out @ t) (ss @ t)))"
    and "EVA_LOG_INFO 0 (path @ [CHR 0x00]) line time i f n msg (in_logging st fs can out ss) =
      (let t = default_line st ''root'' path (stmt 0 INFO path line time i f n msg) in Inr (in_logging st fs can (out @ t) ss))"
  using assms by (simp_all add: stmt_eval Let_def)

lemma logging_short:
  assumes "source_path path" "\<not> 5 \<le> slashes path"
  shows "EVA_LOG_DEBUG 2 (path @ [CHR 0x00]) line time i f n msg (in_logging st fs can out ss) = Inl OutOfBounds"
  using assms by (simp add: stmt_eval Let_def)

text \<open>The lines of one round.\<close>

definition logging_line ::
  "(string \<Rightarrow> u64 \<Rightarrow> string) \<Rightarrow> where_am_i \<Rightarrow> string \<Rightarrow> (int \<Rightarrow> nat \<Rightarrow> u64) \<Rightarrow> int \<Rightarrow> nat \<Rightarrow> string" where
  "logging_line st w path now k n =
     (let ev = (\<lambda>l level. stmt l level path (31 + int n) (now k n) (wh_thread w) (wh_fiber w) (wh_name w) ''hello example'')
      in if n = 0 then default_line st ''system'' path (ev 2 DEBUG)
         else if n = 1 then default_line st ''system'' path (ev 2 INFO)
         else default_line st ''root'' path (ev 0 INFO))"

abbreviation rounds :: "int \<Rightarrow> int list" where
  "rounds k \<equiv> rev [0..k - 1]"

lemma rounds_Cons: "0 < k \<Longrightarrow> rounds k = (k - 1) # rounds (k - 1)"
  by (simp add: upto_rec2)

lemma logging_loop_output:
  assumes "source_path path" "5 \<le> slashes path" "wh_file w = path @ [CHR 0x00]"
  shows "logging_loop w now 2 0 k (in_logging st fs can out ss) =
    Inr (in_logging st fs can (out @ concat (map (\<lambda>k. concat (map (logging_line st w path now k) [0, 1, 2])) (rounds k)))
                              (ss @ concat (map (\<lambda>k. concat (map (logging_line st w path now k) [0, 1])) (rounds k))))"
proof (induction "nat k" arbitrary: k out ss)
  case 0
  then show ?case
    by (subst logging_loop.simps) simp
next
  case (Suc n)
  then have "0 < k" "n = nat (k - 1)"
    by simp_all
  then show ?case
    using Suc.hyps(1) [of "k - 1"] assms
    by (subst logging_loop.simps) (simp add: logging_stmts Let_def logging_line_def rounds_Cons)
qed

text \<open>
  The logging example. If the file name has the five directories that the default pattern drops,
  \<open>main\<close> ends after a hundred rounds with three lines a round on the standard output, the two of its
  own logger also in the stream appender, and nothing written to \<open>test.log\<close>, whose appender asks for
  errors. If it has fewer, the first statement reads past the end of the file name.
\<close>

theorem logging_example_output:
  assumes "source_path path" "wh_file w = path @ [CHR 0x00]"
  shows "if 5 \<le> slashes path
         then \<exists>s. logging_main w now (at_main st fs can) = Inr s \<and> files s = fs \<and>
                cout s = concat (map (\<lambda>k. concat (map (logging_line st w path now k) [0, 1, 2])) (rounds 100)) \<and>
                fst (StreamLogAppender_flush 4 s) =
                  concat (map (\<lambda>k. concat (map (logging_line st w path now k) [0, 1])) (rounds 100))
         else logging_main w now (at_main st fs can) = Inl OutOfBounds"
proof (cases "5 \<le> slashes path")
  case True
  have "files (in_logging st fs can out ss) = fs" "cout (in_logging st fs can out ss) = out"
    "ap_ss (ap_heap (in_logging st fs can out ss) ! 4) = ss" for out ss
    by (simp_all add: in_logging_def at_main_eq)
  then show ?thesis
    using True logging_loop_output [OF assms(1) True assms(2), of now 100 st fs can "[]" "[]"]
    by (simp add: logging_main_setup StreamLogAppender_flush_def del: upto_rec_numeral)
next
  case False
  then show ?thesis
    using logging_short [OF assms(1) False] assms(2)
    by (simp add: logging_main_setup) (subst logging_loop.simps, simp)
qed

theorem logging_example_output_witness:
  "logging_main \<lparr>wh_file = ''a.cpp'' @ [CHR 0x00], wh_thread = 1, wh_fiber = 0, wh_name = ''UNKNOWN''\<rparr> (\<lambda>_ _. 0)
     (at_main (\<lambda>_ _. []) (\<lambda>_. []) (\<lambda>_. True)) = Inl OutOfBounds \<and>
   (\<exists>s. logging_main \<lparr>wh_file = ''/a/b/c/d/e/x.cpp'' @ [CHR 0x00], wh_thread = 1, wh_fiber = 0, wh_name = ''UNKNOWN''\<rparr> (\<lambda>_ _. 0)
      (at_main (\<lambda>_ _. []) (\<lambda>_. []) (\<lambda>_. True)) = Inr s \<and> files s ''test.log'' = [])"
proof -
  have "source_path ''a.cpp''" "source_path ''/a/b/c/d/e/x.cpp''" "5 \<le> slashes ''/a/b/c/d/e/x.cpp''" "\<not> 5 \<le> slashes ''a.cpp''"
    by (simp_all add: source_path_def)
  then show ?thesis
    using logging_example_output [of "''a.cpp''" "\<lparr>wh_file = ''a.cpp'' @ [CHR 0x00], wh_thread = 1, wh_fiber = 0, wh_name = ''UNKNOWN''\<rparr>"
        "\<lambda>_ _. 0" "\<lambda>_ _. []" "\<lambda>_. []" "\<lambda>_. True"]
      logging_example_output [of "''/a/b/c/d/e/x.cpp''" "\<lparr>wh_file = ''/a/b/c/d/e/x.cpp'' @ [CHR 0x00], wh_thread = 1, wh_fiber = 0, wh_name = ''UNKNOWN''\<rparr>"
        "\<lambda>_ _. 0" "\<lambda>_ _. []" "\<lambda>_. []" "\<lambda>_. True"]
    by auto
qed

end
