(* ===== verification/EVA_Thread.thy ===== *)
theory EVA_Thread
  imports EVA_Prelude
begin

text \<open>
  \<open>src/src/thread.h\<close>, \<open>src/src/thread.cpp\<close>, \<open>src/src/semaphore.h\<close> and \<open>src/src/semaphore.cpp\<close>: the
  construction of a thread, which waits on a semaphore for the new thread, as a step relation of
  the two threads and the object they share. The results of the \<open>pthread\<close> and \<open>sem\<close> calls are
  arguments; \<open>sem_t\<close> is its count.
\<close>

section \<open>Semaphore\<close>

definition Semaphore_ctor :: "int \<Rightarrow> u32 \<Rightarrow> nat result" where
  "Semaphore_ctor sem_init_rc cnt =
     (if sem_init_rc \<noteq> 0 then Inl (LogicError ''sem_init error'') else Inr (unat cnt))"

text \<open>\<open>wait()\<close>, once \<open>sem_wait\<close> returns: with 0 it has taken one off the count, which was positive.\<close>

definition Semaphore_wait :: "int \<Rightarrow> nat \<Rightarrow> nat result" where
  "Semaphore_wait sem_wait_rc c =
     (if sem_wait_rc \<noteq> 0 then Inl (LogicError ''sem_wait error'') else Inr (c - 1))"

definition Semaphore_notify :: "int \<Rightarrow> nat \<Rightarrow> nat result" where
  "Semaphore_notify sem_post_rc c =
     (if sem_post_rc \<noteq> 0 then Inl (LogicError ''sem_post error'') else Inr (c + 1))"

section \<open>Thread\<close>

record Thread =
  m_thread :: nat  \<comment> \<open>the \<open>pthread_t\<close>, 0 if there is none\<close>
  m_id :: int
  m_name :: string
  m_semaphore :: nat

record thread_locals =
  t_thread :: bool  \<comment> \<open>\<open>t_thread\<close> points to the object\<close>
  t_thread_name :: string

definition Thread_init :: "string \<Rightarrow> Thread" where
  "Thread_init name =
     \<lparr>m_thread = 0, m_id = -1, m_name = (if name = [] then ''UNKNOWN'' else name), m_semaphore = 0\<rparr>"

definition SetName :: "string \<Rightarrow> thread_locals \<Rightarrow> Thread \<Rightarrow> thread_locals \<times> Thread" where
  "SetName name loc th =
     (if name = [] then (loc, th)
      else (loc\<lparr>t_thread_name := name\<rparr>, if t_thread loc then th\<lparr>m_name := name\<rparr> else th))"

text \<open>The name the system shows.\<close>

definition system_name :: "string \<Rightarrow> string" where
  "system_name name = take 15 name"

definition Thread_join :: "int \<Rightarrow> Thread \<Rightarrow> Thread result" where
  "Thread_join join_rc th =
     (if m_thread th \<noteq> 0
      then if join_rc \<noteq> 0 then Inl (LogicError ''pthread_join failed'') else Inr (th\<lparr>m_thread := 0\<rparr>)
      else Inr th)"

text \<open>The first part of \<open>run\<close>, up to the notification.\<close>

definition run_begin :: "int \<Rightarrow> thread_locals \<Rightarrow> Thread \<Rightarrow> thread_locals \<times> Thread" where
  "run_begin tid loc th =
     (let loc1 = loc\<lparr>t_thread := True, t_thread_name := m_name th\<rparr>;
          th1 = th\<lparr>m_id := tid\<rparr>
      in SetName (t_thread_name loc1) loc1 th1)"

section \<open>The two threads\<close>

datatype parent = Creating | Waiting_sem | Constructed | Thrown string
datatype child = Not_there | Begin | Notify | Call | In_func | Ended | Fault eva_error

text \<open>The object is \<open>None\<close> after its destruction, also by an exception in the constructor.\<close>

record tsys =
  obj :: "Thread option"
  par :: parent
  chi :: child
  chi_locals :: thread_locals

definition tsys_init :: "string \<Rightarrow> tsys" where
  "tsys_init name =
     \<lparr>obj = Some (Thread_init name), par = Creating, chi = Not_there,
      chi_locals = \<lparr>t_thread = False, t_thread_name = ''UNKNOWN''\<rparr>\<rparr>"

inductive tstep :: "int \<Rightarrow> tsys \<Rightarrow> tsys \<Rightarrow> bool" for tid where
  p_create: "par s = Creating \<Longrightarrow> obj s = Some th \<Longrightarrow> handle \<noteq> 0 \<Longrightarrow>
    tstep tid s (s\<lparr>obj := Some (th\<lparr>m_thread := handle\<rparr>), par := Waiting_sem, chi := Begin\<rparr>)"
| p_create_fails: "par s = Creating \<Longrightarrow> tstep tid s (s\<lparr>obj := None, par := Thrown ''pthread_create failed''\<rparr>)"
| p_wait: "par s = Waiting_sem \<Longrightarrow> obj s = Some th \<Longrightarrow> 0 < m_semaphore th \<Longrightarrow> Semaphore_wait 0 (m_semaphore th) = Inr c \<Longrightarrow>
    tstep tid s (s\<lparr>obj := Some (th\<lparr>m_semaphore := c\<rparr>), par := Constructed\<rparr>)"
| p_wait_fails: "par s = Waiting_sem \<Longrightarrow> obj s = Some th \<Longrightarrow> rc \<noteq> 0 \<Longrightarrow>
    Semaphore_wait rc (m_semaphore th) = Inl (LogicError e) \<Longrightarrow>
    tstep tid s (s\<lparr>obj := None, par := Thrown e\<rparr>)"
| p_join: "par s = Constructed \<Longrightarrow> obj s = Some th \<Longrightarrow> chi s = Ended \<Longrightarrow> Thread_join 0 th = Inr th' \<Longrightarrow>
    tstep tid s (s\<lparr>obj := Some th'\<rparr>)"
| p_destroy: "par s = Constructed \<Longrightarrow> obj s = Some th \<Longrightarrow> tstep tid s (s\<lparr>obj := None\<rparr>)"
| c_begin: "chi s = Begin \<Longrightarrow> obj s = Some th \<Longrightarrow> run_begin tid (chi_locals s) th = (loc, th') \<Longrightarrow>
    tstep tid s (s\<lparr>obj := Some th', chi := Notify, chi_locals := loc\<rparr>)"
| c_notify: "chi s = Notify \<Longrightarrow> obj s = Some th \<Longrightarrow> Semaphore_notify 0 (m_semaphore th) = Inr c \<Longrightarrow>
    tstep tid s (s\<lparr>obj := Some (th\<lparr>m_semaphore := c\<rparr>), chi := Call\<rparr>)"
| c_call: "chi s = Call \<Longrightarrow> obj s = Some th \<Longrightarrow> tstep tid s (s\<lparr>chi := In_func\<rparr>)"
| c_end: "chi s = In_func \<Longrightarrow> tstep tid s (s\<lparr>chi := Ended\<rparr>)"
| c_fault: "chi s \<in> {Begin, Notify, Call} \<Longrightarrow> obj s = None \<Longrightarrow> tstep tid s (s\<lparr>chi := Fault UseAfterFree\<rparr>)"

inductive truns :: "int \<Rightarrow> tsys \<Rightarrow> tsys \<Rightarrow> bool" for tid s where
  truns_refl: "truns tid s s"
| truns_step: "truns tid s s1 \<Longrightarrow> tstep tid s1 s2 \<Longrightarrow> truns tid s s2"

lemma semaphore_simps [simp]:
  "Semaphore_wait 0 c = Inr (c - 1)" "Semaphore_notify 0 c = Inr (c + 1)"
  "rc \<noteq> 0 \<Longrightarrow> Semaphore_wait rc c = Inl (LogicError ''sem_wait error'')"
  by (simp_all add: Semaphore_wait_def Semaphore_notify_def)

definition given_name :: "string \<Rightarrow> string" where
  "given_name name = (if name = [] then ''UNKNOWN'' else name)"

definition handshake_inv :: "int \<Rightarrow> string \<Rightarrow> tsys \<Rightarrow> bool" where
  "handshake_inv tid nm s \<longleftrightarrow>
     (par s = Creating \<longrightarrow> chi s = Not_there \<and> obj s \<noteq> None) \<and>
     (par s = Waiting_sem \<longrightarrow> obj s \<noteq> None \<and> chi s \<noteq> Not_there \<and> (\<forall>e. chi s \<noteq> Fault e)) \<and>
     (par s = Constructed \<longrightarrow> chi s \<in> {Call, In_func, Ended, Fault UseAfterFree} \<and>
        (obj s \<noteq> None \<longrightarrow> (\<forall>e. chi s \<noteq> Fault e))) \<and>
     ((\<exists>e. par s = Thrown e) \<longrightarrow> obj s = None) \<and>
     (chi s \<in> {Notify, Call, In_func, Ended} \<longrightarrow>
        t_thread (chi_locals s) \<and> t_thread_name (chi_locals s) = nm) \<and>
     (\<forall>th. obj s = Some th \<longrightarrow> m_name th = nm \<and>
        (chi s \<in> {Notify, Call, In_func, Ended} \<longrightarrow> m_id th = tid) \<and>
        (chi s \<in> {Not_there, Begin, Notify} \<longrightarrow> m_semaphore th = 0) \<and>
        (par s = Waiting_sem \<and> chi s \<in> {Call, In_func, Ended} \<longrightarrow> m_semaphore th = 1))"

lemma handshake_step:
  assumes "tstep tid s s'" "handshake_inv tid nm s"
  shows "handshake_inv tid nm s'"
  using assms
proof cases
  case (c_begin th loc th')
  then show ?thesis
    using assms(2) by (cases "par s") (auto simp: handshake_inv_def run_begin_def SetName_def Let_def split: if_splits)
next
  case (p_create th handle)
  then show ?thesis
    using assms(2) by (cases "chi s") (simp_all add: handshake_inv_def)
next
  case p_create_fails
  then show ?thesis
    using assms(2) by (cases "chi s") (simp_all add: handshake_inv_def)
next
  case (p_wait th c)
  then show ?thesis
    using assms(2) by (cases "chi s") (simp_all add: handshake_inv_def)
next
  case (p_wait_fails th rc e)
  then show ?thesis
    using assms(2) by (cases "chi s") (simp_all add: handshake_inv_def)
next
  case (p_join th th')
  then show ?thesis
    using assms(2) by (cases "chi s") (auto simp: handshake_inv_def Thread_join_def split: if_splits)
next
  case (p_destroy th)
  then show ?thesis
    using assms(2) by (cases "chi s") (simp_all add: handshake_inv_def)
next
  case (c_notify th c)
  then show ?thesis
    using assms(2) by (cases "par s") (simp_all add: handshake_inv_def)
next
  case (c_call th)
  then show ?thesis
    using assms(2) by (cases "par s") (simp_all add: handshake_inv_def)
next
  case c_end
  then show ?thesis
    using assms(2) by (cases "par s") (simp_all add: handshake_inv_def)
next
  case c_fault
  then show ?thesis
    using assms(2) by (cases "par s") (simp_all add: handshake_inv_def)
qed

lemma handshake_runs:
  assumes "truns tid (tsys_init name) s"
  shows "handshake_inv tid (given_name name) s"
  using assms
proof induction
  case truns_refl
  then show ?case
    by (simp add: handshake_inv_def tsys_init_def Thread_init_def given_name_def)
qed (rule handshake_step)


lemma handshake_example:
  "\<exists>s. truns tid (tsys_init ''w'') s \<and> par s = Constructed \<and> obj s \<noteq> None \<and> chi s = Call"
proof -
  let ?th = "Thread_init ''w''"
  let ?s1 = "(tsys_init ''w'')\<lparr>obj := Some (?th\<lparr>m_thread := 1\<rparr>), par := Waiting_sem, chi := Begin\<rparr>"
  let ?loc = "\<lparr>t_thread = True, t_thread_name = ''w''\<rparr>"
  let ?th2 = "?th\<lparr>m_thread := 1, m_id := tid\<rparr>"
  let ?s2 = "?s1\<lparr>obj := Some ?th2, chi := Notify, chi_locals := ?loc\<rparr>"
  let ?s3 = "?s2\<lparr>obj := Some (?th2\<lparr>m_semaphore := 1\<rparr>), chi := Call\<rparr>"
  let ?s4 = "?s3\<lparr>obj := Some (?th2\<lparr>m_semaphore := 0\<rparr>), par := Constructed\<rparr>"
  have 1: "tstep tid (tsys_init ''w'') ?s1"
    by (rule p_create) (simp_all add: tsys_init_def)
  have 2: "tstep tid ?s1 ?s2"
    by (rule c_begin [where th = "?th\<lparr>m_thread := 1\<rparr>"])
      (simp_all add: run_begin_def SetName_def tsys_init_def Thread_init_def Let_def)
  have 3: "tstep tid ?s2 ?s3"
    by (rule c_notify [where th = ?th2]) (simp_all add: Thread_init_def)
  have 4: "tstep tid ?s3 ?s4"
    using p_wait [of ?s3 "?th2\<lparr>m_semaphore := 1\<rparr>" 0 tid] by (simp add: tsys_init_def)
  have "truns tid (tsys_init ''w'') ?s4"
    by (rule truns_step [OF truns_step [OF truns_step [OF truns_step [OF truns_refl 1] 2] 3] 4])
  then show ?thesis
    by (intro exI [of _ ?s4]) simp
qed


text \<open>
  The notification comes before the call of the function: the constructor can return while the
  function has not started, and destroying the object then leaves the new thread with a function
  object that is gone.
\<close>

lemma constructor_returns_before_function:
  "\<exists>s s'. truns tid (tsys_init ''w'') s \<and> par s = Constructed \<and> chi s = Call \<and>
          truns tid s s' \<and> chi s' = Fault UseAfterFree"
proof -
  obtain s th where s: "truns tid (tsys_init ''w'') s" "par s = Constructed" "obj s = Some th" "chi s = Call"
    using handshake_example [of tid] by auto
  have "truns tid s (s\<lparr>obj := None\<rparr>)"
    by (rule truns_step [OF truns_refl p_destroy [OF s(2,3)]])
  moreover have "tstep tid (s\<lparr>obj := None\<rparr>) (s\<lparr>obj := None, chi := Fault UseAfterFree\<rparr>)"
    using c_fault [of "s\<lparr>obj := None\<rparr>" tid] s(4) by simp
  ultimately have "truns tid s (s\<lparr>obj := None, chi := Fault UseAfterFree\<rparr>)"
    by (rule truns_step)
  then show ?thesis
    using s by (intro exI [of _ s] exI [of _ "s\<lparr>obj := None, chi := Fault UseAfterFree\<rparr>"]) simp
qed

end
