(* ===== verification/EVA_ThreadExample.thy ===== *)
theory EVA_ThreadExample
  imports EVA_Examples EVA_Mutex EVA_Thread EVA_Fiber
begin

text \<open>
  The example program \<open>src/examples/thread.cpp\<close>: five threads that count to a hundred and log under a
  common mutex, on the models of \<open>Thread\<close>, \<open>Mutex\<close> and the logger, for every interleaving. The pthread
  mutex, the threads' ids, the clock and the file name are parameters.
\<close>

section \<open>The program\<close>

text \<open>
  Where a thread is in \<open>func1\<close>: at the test of the loop, between the two parts of \<open>lock()\<close>, before
  the statements, between the two parts of \<open>unlock()\<close>, and before \<open>count++\<close>.
\<close>

datatype func1_pc =
    F_not_called | F_test | F_acquired | F_log_root | F_log_system | F_unlock | F_release | F_next | F_returned

datatype main_pc = M_new nat | M_join nat | M_return | M_terminate

text \<open>The thread objects, with the two sides of each construction, are those of the model of threads.\<close>

record 'm demo =
  mu :: "'m Mutex"
  dlog :: LogSys
  thr :: "nat \<Rightarrow> tsys"
  f1 :: "nat \<Rightarrow> func1_pc"
  cnt :: "nat \<Rightarrow> int"
  main_at :: main_pc

text \<open>The variables \<open>g_logger\<close> and \<open>s_logger\<close>, and the first statements of \<open>main\<close>.\<close>

definition g_logger :: "LogSys \<Rightarrow> nat" where
  "g_logger s = EVA_ROOT_LOGGER s"

definition s_logger :: "LogSys \<Rightarrow> nat" where
  "s_logger s = fst (getLogger ''system'' s)"

definition main_appenders :: "LogSys \<Rightarrow> LogSys" where
  "main_appenders s =
     (case new_appender (File ''test.log'') s of (p, s1) \<Rightarrow>
      case new_appender (File ''test.log'') (addLogAppender (g_logger s1) p s1) of (q, s2) \<Rightarrow>
        addLogAppender (s_logger s2) q s2)"

definition thread_name :: "nat \<Rightarrow> string" where
  "thread_name i = ''thread_'' @ show_int (int i)"

definition demo_start :: "'m \<Rightarrow> LogSys \<Rightarrow> 'm demo" where
  "demo_start init s =
     \<lparr>mu = Mutex_ctor init, dlog = main_appenders s, thr = (\<lambda>i. tsys_init (thread_name i)), f1 = (\<lambda>_. F_not_called),
      cnt = (\<lambda>_. 0), main_at = M_new 0\<rparr>"

abbreviation f1_goto :: "nat \<Rightarrow> func1_pc \<Rightarrow> 'm demo \<Rightarrow> 'm demo" where
  "f1_goto i pc s \<equiv> s\<lparr>f1 := (f1 s)(i := pc)\<rparr>"

text \<open>What a statement logged: the thread, whether it went to \<open>g_logger\<close>, the count and the time.\<close>

record entry =
  en_thread :: nat
  en_root :: bool
  en_count :: int
  en_time :: u64

definition count_msg :: "int \<Rightarrow> string" where
  "count_msg c = '' Count: '' @ show_int c"

text \<open>No thread of this program has a fiber.\<close>

definition func1_log :: "nat \<Rightarrow> int \<Rightarrow> char list \<Rightarrow> pid \<Rightarrow> u64 \<Rightarrow> nat \<Rightarrow> 'm demo \<Rightarrow> LogSys result" where
  "func1_log l line file tid now i s =
     EVA_LOG_INFO l file line now (word_of_int tid) (GetFiberId tid (fibers_init :: unit fibers)) (t_thread_name (chi_locals (thr s i))) (count_msg (cnt s i)) (dlog s)"

inductive demo_step ::
  "'m pthread_mutex_ops \<Rightarrow> char list \<Rightarrow> (nat \<Rightarrow> pid) \<Rightarrow> 'm demo \<Rightarrow> entry list \<Rightarrow> 'm demo \<Rightarrow> bool"
  for ops src tids where
  dm_new:  \<comment> \<open>the constructor of thread \<open>i\<close>, as far as the creating thread runs it\<close>
    "main_at s = M_new i \<Longrightarrow> i < 5 \<Longrightarrow> tstep (tids i) (thr s i) x \<Longrightarrow> par x \<noteq> par (thr s i) \<Longrightarrow>
     demo_step ops src tids s []
       (s\<lparr>thr := (thr s)(i := x),
          main_at := (case par x of Constructed \<Rightarrow> M_new (i + 1) | Thrown e \<Rightarrow> M_terminate | _ \<Rightarrow> M_new i)\<rparr>)"
| dm_created: "main_at s = M_new 5 \<Longrightarrow> demo_step ops src tids s [] (s\<lparr>main_at := M_join 0\<rparr>)"
| dm_join:
    "main_at s = M_join i \<Longrightarrow> i < 5 \<Longrightarrow> obj (thr s i) = Some th \<Longrightarrow> chi (thr s i) = Ended \<Longrightarrow>
     Thread_join 0 th = Inr th' \<Longrightarrow>
     demo_step ops src tids s [] (s\<lparr>thr := (thr s)(i := (thr s i)\<lparr>obj := Some th'\<rparr>), main_at := M_join (i + 1)\<rparr>)"
| dm_return: "main_at s = M_join 5 \<Longrightarrow> demo_step ops src tids s [] (s\<lparr>main_at := M_return\<rparr>)"
| dt_run:  \<comment> \<open>the new thread up to the call of its function\<close>
    "chi (thr s i) \<in> {Begin, Notify} \<Longrightarrow> tstep (tids i) (thr s i) x \<Longrightarrow> chi x \<noteq> chi (thr s i) \<Longrightarrow>
     demo_step ops src tids s [] (s\<lparr>thr := (thr s)(i := x)\<rparr>)"
| dt_call:
    "chi (thr s i) = Call \<Longrightarrow> tstep (tids i) (thr s i) x \<Longrightarrow> chi x = In_func \<Longrightarrow>
     demo_step ops src tids s [] (f1_goto i F_test (s\<lparr>thr := (thr s)(i := x), cnt := (cnt s)(i := 0)\<rparr>))"
| df_lock:
    "f1 s i = F_test \<Longrightarrow> cnt s i < 100 \<Longrightarrow> lock_acquire ops (tids i) (mu s) = Some m \<Longrightarrow>
     demo_step ops src tids s [] (f1_goto i F_acquired (s\<lparr>mu := m\<rparr>))"
| df_record:
    "f1 s i = F_acquired \<Longrightarrow> demo_step ops src tids s [] (f1_goto i F_log_root (s\<lparr>mu := lock_record (tids i) (mu s)\<rparr>))"
| df_log_root:
    "f1 s i = F_log_root \<Longrightarrow> func1_log (g_logger (dlog s)) 18 src (tids i) now i s = Inr l \<Longrightarrow>
     demo_step ops src tids s [\<lparr>en_thread = i, en_root = True, en_count = cnt s i, en_time = now\<rparr>]
       (f1_goto i F_log_system (s\<lparr>dlog := l\<rparr>))"
| df_log_system:
    "f1 s i = F_log_system \<Longrightarrow> func1_log (s_logger (dlog s)) 19 src (tids i) now i s = Inr l \<Longrightarrow>
     demo_step ops src tids s [\<lparr>en_thread = i, en_root = False, en_count = cnt s i, en_time = now\<rparr>]
       (f1_goto i F_unlock (s\<lparr>dlog := l\<rparr>))"
| df_unlock:
    "f1 s i = F_unlock \<Longrightarrow> demo_step ops src tids s [] (f1_goto i F_release (s\<lparr>mu := unlock_record (mu s)\<rparr>))"
| df_release:
    "f1 s i = F_release \<Longrightarrow> demo_step ops src tids s [] (f1_goto i F_next (s\<lparr>mu := unlock_release ops (tids i) (mu s)\<rparr>))"
| df_next:
    "f1 s i = F_next \<Longrightarrow> demo_step ops src tids s [] (f1_goto i F_test (s\<lparr>cnt := (cnt s)(i := cnt s i + 1)\<rparr>))"
| df_exit: "f1 s i = F_test \<Longrightarrow> \<not> cnt s i < 100 \<Longrightarrow> demo_step ops src tids s [] (f1_goto i F_returned s)"
| dt_end:
    "f1 s i = F_returned \<Longrightarrow> chi (thr s i) = In_func \<Longrightarrow> tstep (tids i) (thr s i) x \<Longrightarrow> chi x = Ended \<Longrightarrow>
     demo_step ops src tids s [] (s\<lparr>thr := (thr s)(i := x)\<rparr>)"

text \<open>Runs, with the number of steps and what was logged.\<close>

inductive demo_runs ::
  "'m pthread_mutex_ops \<Rightarrow> char list \<Rightarrow> (nat \<Rightarrow> pid) \<Rightarrow> 'm demo \<Rightarrow> nat \<Rightarrow> entry list \<Rightarrow> 'm demo \<Rightarrow> bool"
  for ops src tids s0 where
  demo_refl: "demo_runs ops src tids s0 0 [] s0"
| demo_more:
    "demo_runs ops src tids s0 n es s \<Longrightarrow> demo_step ops src tids s es' s' \<Longrightarrow>
     demo_runs ops src tids s0 (Suc n) (es @ es') s'"

section \<open>The threads\<close>

text \<open>Steps of a thread's construction that change the side of the creator, or that of the new thread.\<close>

lemma tstep_par:
  assumes "tstep tid s s'" "par s' \<noteq> par s" "handshake_inv tid nm s"
  shows "chi s' = chi s \<and> (par s = Creating \<or> par s = Waiting_sem) \<or> chi s = Not_there \<and> chi s' = Begin \<and> par s = Creating"
  using assms(1) by (cases rule: tstep.cases) (use assms(2,3) in \<open>auto simp: handshake_inv_def\<close>)

lemma tstep_chi:
  assumes "tstep tid s s'" "chi s' \<noteq> chi s" "handshake_inv tid nm s" "chi s \<noteq> Not_there"
  shows "par s' = par s" "chi s = Begin \<Longrightarrow> chi s' = Notify \<or> (\<exists>e. chi s' = Fault e)"
    "chi s = Notify \<Longrightarrow> chi s' = Call \<or> (\<exists>e. chi s' = Fault e)"
  using assms(1) by (cases rule: tstep.cases; use assms(2-4) in \<open>auto simp: handshake_inv_def\<close>)+

definition threads_inv :: "(nat \<Rightarrow> pid) \<Rightarrow> 'm demo \<Rightarrow> bool" where
  "threads_inv tids s \<longleftrightarrow>
     (\<forall>i. handshake_inv (tids i) (thread_name i) (thr s i) \<and>
          (f1 s i \<noteq> F_not_called \<longleftrightarrow> chi (thr s i) \<in> {In_func, Ended}) \<and>
          (chi (thr s i) = Ended \<longrightarrow> f1 s i = F_returned) \<and> (5 \<le> i \<longrightarrow> chi (thr s i) = Not_there))"

lemma threads_inv_start: "threads_inv tids (demo_start init s)"
  using handshake_runs [OF truns_refl] by (auto simp: threads_inv_def demo_start_def tsys_init_def given_name_def thread_name_def
      handshake_inv_def Thread_init_def)

lemma in_func1: "threads_inv tids s \<Longrightarrow> f1 s i = pc \<Longrightarrow> pc \<noteq> F_not_called \<Longrightarrow> pc \<noteq> F_returned \<Longrightarrow> chi (thr s i) = In_func"
  unfolding threads_inv_def by blast

lemma called_small:
  assumes "threads_inv tids s" "f1 s i \<noteq> F_not_called"
  shows "i < 5"
proof (rule ccontr)
  assume "\<not> i < 5"
  then have "chi (thr s i) = Not_there" "chi (thr s i) \<in> {In_func, Ended}"
    using assms unfolding threads_inv_def by (meson not_less)+
  then show False
    by simp
qed

lemma not_called: "threads_inv tids s \<Longrightarrow> chi (thr s i) = Call \<Longrightarrow> f1 s i = F_not_called"
  unfolding threads_inv_def by (drule spec [of _ i]) auto

lemma ended_returned: "threads_inv tids s \<Longrightarrow> chi (thr s i) = Ended \<Longrightarrow> f1 s i = F_returned"
  unfolding threads_inv_def by blast

lemma threads_inv_step:
  assumes "demo_step ops src tids s es s'" "threads_inv tids s"
  shows "threads_inv tids s'"
proof -
  have inv: "handshake_inv (tids i) (thread_name i) (thr s i)" "f1 s i \<noteq> F_not_called \<longleftrightarrow> chi (thr s i) \<in> {In_func, Ended}"
    "chi (thr s i) = Ended \<Longrightarrow> f1 s i = F_returned" "5 \<le> i \<Longrightarrow> chi (thr s i) = Not_there" for i
    using assms(2) by (auto simp: threads_inv_def)
  note run = in_func1 [OF assms(2)]
  show ?thesis
    using assms(1)
  proof cases
    case (dm_new i x)
    have "handshake_inv (tids i) (thread_name i) x"
      by (rule handshake_step [OF dm_new(5) inv(1)])
    then show ?thesis
      using inv tstep_par [OF dm_new(5,6) inv(1)] dm_new(4) unfolding threads_inv_def dm_new(2) by (auto split: if_splits)
  next
    case (dm_join i th th')
    have "handshake_inv (tids i) (thread_name i) ((thr s i)\<lparr>obj := Some th'\<rparr>)"
      using inv(1) [of i] dm_join by (auto simp: handshake_inv_def Thread_join_def split: if_splits)
    then show ?thesis
      using inv unfolding threads_inv_def dm_join(2) by (auto split: if_splits)
  next
    case (dt_run i x)
    have "handshake_inv (tids i) (thread_name i) x"
      by (rule handshake_step [OF dt_run(4) inv(1)])
    then show ?thesis
      using inv tstep_chi [OF dt_run(4,5) inv(1)] dt_run(3) unfolding threads_inv_def dt_run(2) by (auto split: if_splits)
  next
    case (dt_call i x)
    have "handshake_inv (tids i) (thread_name i) x"
      by (rule handshake_step [OF dt_call(4) inv(1)])
    then show ?thesis
      using inv dt_call(3,5) unfolding threads_inv_def dt_call(2) by (auto split: if_splits)
  next
    case (dt_end i x)
    have "handshake_inv (tids i) (thread_name i) x"
      by (rule handshake_step [OF dt_end(5) inv(1)])
    then show ?thesis
      using inv dt_end(3-) unfolding threads_inv_def dt_end(2) by (auto split: if_splits)
  qed (use inv in \<open>auto simp: threads_inv_def dest: run\<close>)
qed

section \<open>The mutex\<close>

definition holds :: "func1_pc \<Rightarrow> bool" where
  "holds pc \<longleftrightarrow> pc \<in> {F_acquired, F_log_root, F_log_system, F_unlock, F_release}"

definition recorded :: "func1_pc \<Rightarrow> bool" where
  "recorded pc \<longleftrightarrow> pc \<in> {F_log_root, F_log_system, F_unlock}"

definition mu_inv :: "('m \<Rightarrow> pid option) \<Rightarrow> (nat \<Rightarrow> pid) \<Rightarrow> 'm demo \<Rightarrow> bool" where
  "mu_inv owner tids s \<longleftrightarrow>
     (\<forall>i. holds (f1 s i) \<longrightarrow> owner (m_mutex (mu s)) = Some (tids i)) \<and>
     (\<forall>t. owner (m_mutex (mu s)) = Some t \<longrightarrow> (\<exists>i. holds (f1 s i))) \<and>
     (Mutex.m_thread (mu s) \<noteq> 0 \<longrightarrow> (\<exists>i. recorded (f1 s i)))"

lemma mu_invD:
  assumes "mu_inv owner tids s"
  shows "holds (f1 s i) \<Longrightarrow> owner (m_mutex (mu s)) = Some (tids i)"
    and "owner (m_mutex (mu s)) = Some t \<Longrightarrow> \<exists>i. holds (f1 s i)"
    and "Mutex.m_thread (mu s) \<noteq> 0 \<Longrightarrow> \<exists>i. recorded (f1 s i)"
  using assms unfolding mu_inv_def by blast+

text \<open>Only the five threads of the program get to their function, and their ids differ.\<close>

lemma holds_unique:
  assumes "mu_inv owner tids s" "threads_inv tids s" "inj_on tids {..<5}" "holds (f1 s i)" "holds (f1 s j)"
  shows "i = j"
proof -
  have small: "k < 5" if "holds (f1 s k)" for k
    using that by (intro called_small [OF assms(2)]) (auto simp: holds_def)
  have "Some (tids i) = Some (tids j)"
    using mu_invD(1) [OF assms(1,4)] mu_invD(1) [OF assms(1,5)] by simp
  then show ?thesis
    using assms(3) small [OF assms(4)] small [OF assms(5)] by (auto dest: inj_onD)
qed

lemma mu_inv_start: "pthread_mutex_spec ops init owner \<Longrightarrow> mu_inv owner tids (demo_start init s)"
  by (simp add: mu_inv_def demo_start_def holds_def Mutex_ctor_def pthread_mutex_spec_def)

text \<open>Steps that neither take nor release the mutex.\<close>

lemma mu_inv_frame:
  assumes "mu_inv owner tids s" "m_mutex (mu s') = m_mutex (mu s)" "\<And>i. holds (f1 s' i) = holds (f1 s i)"
    and "Mutex.m_thread (mu s') \<noteq> 0 \<Longrightarrow> \<exists>i. recorded (f1 s' i)"
  shows "mu_inv owner tids s'"
  using assms unfolding mu_inv_def by simp

lemma mu_inv_stay:
  assumes "mu_inv owner tids s" "mu s' = mu s" "f1 s' = (f1 s)(i := pc)" "holds pc = holds (f1 s i)" "recorded pc = recorded (f1 s i)"
  shows "mu_inv owner tids s'"
proof -
  have same: "holds (f1 s' j) = holds (f1 s j)" "recorded (f1 s' j) = recorded (f1 s j)" for j
    by (cases "j = i"; simp add: assms)+
  show ?thesis
    using assms(1) unfolding mu_inv_def assms(2) same .
qed

lemma mu_inv_step:
  assumes "demo_step ops src tids s es s'" "pthread_mutex_spec ops init owner" "inj_on tids {..<5}"
    and "threads_inv tids s" "mu_inv owner tids s"
  shows "mu_inv owner tids s'"
  using assms(1)
proof cases
  case (df_lock i m)
  then obtain m' where m': "pthread_mutex_lock ops (tids i) (m_mutex (mu s)) = Some m'" "m = (mu s)\<lparr>m_mutex := m'\<rparr>"
    by (auto simp: lock_acquire_def)
  then have own: "owner (m_mutex (mu s)) = None" "owner m' = Some (tids i)"
    using assms(2) by (auto simp: pthread_mutex_spec_def)
  have none: "\<not> holds (f1 s j)" for j
    using assms(5) own(1) by (auto simp: mu_inv_def)
  then have "\<not> recorded (f1 s j)" for j
    by (auto simp: holds_def recorded_def)
  then show ?thesis
    using assms(5) own none unfolding mu_inv_def df_lock(2) m'(2) by (auto simp: holds_def)
next
  case (df_record i)
  then show ?thesis
    by (intro mu_inv_frame [OF assms(5)]) (auto simp: lock_record_def holds_def recorded_def)
next
  case (df_unlock i)
  then show ?thesis
    by (intro mu_inv_frame [OF assms(5)]) (auto simp: unlock_record_def holds_def)
next
  case (df_release i)
  have hold: "holds (f1 s i)"
    using df_release by (simp add: holds_def)
  then have own: "owner (m_mutex (unlock_release ops (tids i) (mu s))) = None"
    using assms(2,5) by (simp add: mu_inv_def pthread_mutex_spec_def unlock_release_def)
  have others: "\<not> holds (f1 s j)" if "j \<noteq> i" for j
    using holds_unique [OF assms(5,4,3) hold] that by blast
  moreover have "\<not> recorded (f1 s j)" for j
    using others [of j] df_release(3) by (cases "j = i") (auto simp: holds_def recorded_def)
  ultimately show ?thesis
    using assms(5) own unfolding mu_inv_def df_release(2) by (auto simp: holds_def unlock_release_def)
next
  case (dt_call i x)
  then show ?thesis
    using not_called [OF assms(4)] by (intro mu_inv_stay [OF assms(5), of _ i F_test]) (simp_all add: holds_def recorded_def)
next
  case (df_log_root i now l)
  then show ?thesis
    by (intro mu_inv_stay [OF assms(5), of _ i F_log_system]) (simp_all add: holds_def recorded_def)
next
  case (df_log_system i now l)
  then show ?thesis
    by (intro mu_inv_stay [OF assms(5), of _ i F_unlock]) (simp_all add: holds_def recorded_def)
next
  case (df_next i)
  then show ?thesis
    by (intro mu_inv_stay [OF assms(5), of _ i F_test]) (simp_all add: holds_def recorded_def)
next
  case (df_exit i)
  then show ?thesis
    by (intro mu_inv_stay [OF assms(5), of _ i F_returned]) (simp_all add: holds_def recorded_def)
qed (use mu_invD(3) [OF assms(5)] in \<open>intro mu_inv_frame [OF assms(5)]; simp\<close>)+

section \<open>What is logged\<close>

definition in_demo :: "(string \<Rightarrow> u64 \<Rightarrow> string) \<Rightarrow> (string \<Rightarrow> string) \<Rightarrow> (string \<Rightarrow> bool) \<Rightarrow> string \<Rightarrow> LogSys" where
  "in_demo st fs can out =
     (at_main st fs can)\<lparr>cout := out, files := fs(''test.log'' := fs ''test.log'' @ (if can ''test.log'' then out else [])),
        ap_heap := [plain Stdout, plain Stdout, plain (File ''test.log''), plain (File ''test.log'')],
        lg_heap := [\<lparr>lg_name = ''root'', lg_level = DEBUG, lg_formatter = default_formatter, lg_appenders = [0, 2]\<rparr>,
                    \<lparr>lg_name = ''system'', lg_level = DEBUG, lg_formatter = default_formatter, lg_appenders = [1, 3]\<rparr>]\<rparr>"

lemma main_appenders_eq: "main_appenders (at_main st fs can) = in_demo st fs can []"
  unfolding main_appenders_def
  by (simp add: new_appender_def addLogAppender_def LogAppender_new_def g_logger_def s_logger_def getLogger_def
      EVA_ROOT_LOGGER_def in_demo_def at_main_eq eval_nat_numeral)

lemma demo_loggers [simp]: "g_logger (in_demo st fs can out) = 0" "s_logger (in_demo st fs can out) = 1"
  by (simp_all add: g_logger_def s_logger_def EVA_ROOT_LOGGER_def getLogger_def in_demo_def at_main_eq)

definition entry_line :: "(string \<Rightarrow> u64 \<Rightarrow> string) \<Rightarrow> string \<Rightarrow> (nat \<Rightarrow> pid) \<Rightarrow> entry \<Rightarrow> string" where
  "entry_line st path tids e =
     (let i = en_thread e;
          ev = (\<lambda>l line. stmt l INFO path line (en_time e) (word_of_int (tids i)) 0 (thread_name i) (count_msg (en_count e)))
      in if en_root e then default_line st ''root'' path (ev 0 18) else default_line st ''system'' path (ev 1 19))"

definition demo_lines :: "(string \<Rightarrow> u64 \<Rightarrow> string) \<Rightarrow> string \<Rightarrow> (nat \<Rightarrow> pid) \<Rightarrow> entry list \<Rightarrow> string" where
  "demo_lines st path tids es = concat (map (entry_line st path tids) es)"

lemma demo_stmts:
  assumes "source_path path" "5 \<le> slashes path"
  shows "EVA_LOG_INFO 0 (path @ [CHR 0x00]) line time i f n msg (in_demo st fs can out) =
      Inr (in_demo st fs can (out @ default_line st ''root'' path (stmt 0 INFO path line time i f n msg)))"
    and "EVA_LOG_INFO 1 (path @ [CHR 0x00]) line time i f n msg (in_demo st fs can out) =
      Inr (in_demo st fs can (out @ default_line st ''system'' path (stmt 1 INFO path line time i f n msg)))"
  using assms by (auto simp: stmt_eval in_demo_def Let_def)

lemma func1_log_lines:
  assumes "source_path path" "5 \<le> slashes path" "threads_inv tids s" "chi (thr s i) = In_func"
    and "dlog s = in_demo st fs can (demo_lines st path tids es)"
  shows "func1_log 0 18 (path @ [CHR 0x00]) (tids i) now i s =
      Inr (in_demo st fs can (demo_lines st path tids (es @ [\<lparr>en_thread = i, en_root = True, en_count = cnt s i, en_time = now\<rparr>])))"
    and "func1_log 1 19 (path @ [CHR 0x00]) (tids i) now i s =
      Inr (in_demo st fs can (demo_lines st path tids (es @ [\<lparr>en_thread = i, en_root = False, en_count = cnt s i, en_time = now\<rparr>])))"
proof -
  have "handshake_inv (tids i) (thread_name i) (thr s i)"
    using assms(3) by (simp add: threads_inv_def)
  then have "t_thread_name (chi_locals (thr s i)) = thread_name i"
    using assms(4) by (simp add: handshake_inv_def)
  then show "func1_log 0 18 (path @ [CHR 0x00]) (tids i) now i s =
      Inr (in_demo st fs can (demo_lines st path tids (es @ [\<lparr>en_thread = i, en_root = True, en_count = cnt s i, en_time = now\<rparr>])))"
    "func1_log 1 19 (path @ [CHR 0x00]) (tids i) now i s =
      Inr (in_demo st fs can (demo_lines st path tids (es @ [\<lparr>en_thread = i, en_root = False, en_count = cnt s i, en_time = now\<rparr>])))"
    unfolding func1_log_def assms(5) using demo_stmts [OF assms(1,2)]
    by (simp_all add: demo_lines_def entry_line_def GetFiberId_def fibers_init_def)
qed

definition output_inv ::
  "(string \<Rightarrow> u64 \<Rightarrow> string) \<Rightarrow> (string \<Rightarrow> string) \<Rightarrow> (string \<Rightarrow> bool) \<Rightarrow> string \<Rightarrow> (nat \<Rightarrow> pid) \<Rightarrow> entry list \<Rightarrow> 'm demo \<Rightarrow> bool" where
  "output_inv st fs can path tids es s \<longleftrightarrow> dlog s = in_demo st fs can (demo_lines st path tids es)"

lemma output_inv_step:
  assumes "demo_step ops (path @ [CHR 0x00]) tids s es' s'" "source_path path" "5 \<le> slashes path"
    and "threads_inv tids s" "output_inv st fs can path tids es s"
  shows "output_inv st fs can path tids (es @ es') s'"
proof -
  have log: "dlog s = in_demo st fs can (demo_lines st path tids es)"
    using assms(5) by (simp add: output_inv_def)
  note logs = func1_log_lines [OF assms(2,3,4) _ log]
  show ?thesis
    using assms(1)
  proof cases
    case (df_log_root i now l)
    then show ?thesis
      using logs(1) [OF in_func1 [OF assms(4) df_log_root(3)], of now] by (simp add: output_inv_def log)
  next
    case (df_log_system i now l)
    then show ?thesis
      using logs(2) [OF in_func1 [OF assms(4) df_log_system(3)], of now] by (simp add: output_inv_def log)
  qed (simp_all add: output_inv_def log)
qed

section \<open>In which order\<close>

text \<open>A round of a thread: the thread, the count, and the times of its two statements.\<close>

type_synonym round = "nat \<times> int \<times> u64 \<times> u64"

fun round_entries :: "round \<Rightarrow> entry list" where
  "round_entries (i, c, t1, t2) =
     [\<lparr>en_thread = i, en_root = True, en_count = c, en_time = t1\<rparr>,
      \<lparr>en_thread = i, en_root = False, en_count = c, en_time = t2\<rparr>]"

definition counts_of :: "nat \<Rightarrow> round list \<Rightarrow> int list" where
  "counts_of i rs = map (fst \<circ> snd) (filter (\<lambda>r. fst r = i) rs)"

text \<open>The rounds a thread has logged completely.\<close>

definition logged :: "'m demo \<Rightarrow> nat \<Rightarrow> int" where
  "logged s i = cnt s i + (if f1 s i \<in> {F_unlock, F_release, F_next} then 1 else 0)"

definition cnt_inv :: "'m demo \<Rightarrow> bool" where
  "cnt_inv s \<longleftrightarrow>
     (\<forall>i. 0 \<le> cnt s i \<and> cnt s i \<le> 100 \<and> (f1 s i = F_not_called \<longrightarrow> cnt s i = 0) \<and> (f1 s i = F_returned \<longrightarrow> cnt s i = 100) \<and>
          (f1 s i \<notin> {F_not_called, F_test, F_returned} \<longrightarrow> cnt s i < 100))"

text \<open>The first statement of a round that is not complete.\<close>

definition half :: "'m demo \<Rightarrow> entry list \<Rightarrow> bool" where
  "half s es \<longleftrightarrow>
     (\<exists>i t. f1 s i = F_log_system \<and> es = [\<lparr>en_thread = i, en_root = True, en_count = cnt s i, en_time = t\<rparr>]) \<or>
     (\<forall>i. f1 s i \<noteq> F_log_system) \<and> es = []"

definition rounds_inv :: "entry list \<Rightarrow> 'm demo \<Rightarrow> bool" where
  "rounds_inv es s \<longleftrightarrow>
     (\<exists>rs hs. es = concat (map round_entries rs) @ hs \<and> half s hs \<and> fst ` set rs \<subseteq> {..<5} \<and>
        (\<forall>i. counts_of i rs = [0..logged s i - 1]))"

lemma cnt_inv_step:
  assumes "demo_step ops src tids s es s'" "cnt_inv s"
  shows "cnt_inv s'"
proof -
  have inv: "0 \<le> cnt s i" "cnt s i \<le> 100" "f1 s i = F_not_called \<Longrightarrow> cnt s i = 0" "f1 s i = F_returned \<Longrightarrow> cnt s i = 100"
    "f1 s i \<notin> {F_not_called, F_test, F_returned} \<Longrightarrow> cnt s i < 100" for i
    using assms(2) unfolding cnt_inv_def by blast+
  show ?thesis
    using assms(1)
  proof cases
    case (df_next i)
    have "cnt s i < 100"
      using inv(5) [of i] df_next(3) by simp
    then show ?thesis
      using inv unfolding df_next(2) cnt_inv_def by simp
  next
    case (df_exit i)
    have "cnt s i = 100"
      using inv(2) [of i] df_exit(4) by simp
    then show ?thesis
      using inv unfolding df_exit(2) cnt_inv_def by simp
  qed (use inv in \<open>auto simp: cnt_inv_def\<close>)
qed

text \<open>A step that logs nothing and completes no round.\<close>

lemma rounds_inv_frame:
  assumes "rounds_inv es s" "\<And>i. f1 s' i = F_log_system \<longleftrightarrow> f1 s i = F_log_system"
    and "\<And>i. f1 s i = F_log_system \<Longrightarrow> cnt s' i = cnt s i" "\<And>i. logged s' i = logged s i"
  shows "rounds_inv es s'"
proof -
  have "half s' hs" if "half s hs" for hs
    using that assms(2,3) unfolding half_def by metis
  then show ?thesis
    using assms(1) unfolding rounds_inv_def assms(4) by blast
qed

lemma rounds_inv_stay:
  assumes "rounds_inv es s" "f1 s' = (f1 s)(i := pc)" "cnt s' = (cnt s)(i := c)" "f1 s i \<noteq> F_log_system" "pc \<noteq> F_log_system"
    and "logged s' i = logged s i"
  shows "rounds_inv es s'"
  by (rule rounds_inv_frame [OF assms(1)]) (use assms in \<open>auto simp: logged_def split: if_splits\<close>)

lemma rounds_inv_begin:
  assumes "rounds_inv es s" "f1 s i = F_log_root" "\<And>j. f1 s j \<noteq> F_log_system"
  shows "rounds_inv (es @ [\<lparr>en_thread = i, en_root = True, en_count = cnt s i, en_time = now\<rparr>]) (f1_goto i F_log_system (s\<lparr>dlog := l\<rparr>))"
proof -
  let ?s' = "f1_goto i F_log_system (s\<lparr>dlog := l\<rparr>)" and ?e = "\<lparr>en_thread = i, en_root = True, en_count = cnt s i, en_time = now\<rparr>"
  obtain rs where rs: "es = concat (map round_entries rs)" "fst ` set rs \<subseteq> {..<5}" "\<forall>j. counts_of j rs = [0..logged s j - 1]"
    using assms(1,3) by (auto simp: rounds_inv_def half_def)
  have "logged ?s' j = logged s j" for j
    using assms(2) by (simp add: logged_def)
  moreover have "half ?s' [?e]"
    using assms(2) by (auto simp: half_def)
  ultimately show ?thesis
    unfolding rounds_inv_def by (intro exI [of _ rs] exI [of _ "[?e]"]) (simp add: rs)
qed

lemma rounds_inv_complete:
  assumes "rounds_inv es s" "f1 s i = F_log_system" "\<And>j. f1 s j = F_log_system \<Longrightarrow> j = i" "i < 5" "0 \<le> cnt s i"
  shows "rounds_inv (es @ [\<lparr>en_thread = i, en_root = False, en_count = cnt s i, en_time = now\<rparr>]) (f1_goto i F_unlock (s\<lparr>dlog := l\<rparr>))"
proof -
  let ?s' = "f1_goto i F_unlock (s\<lparr>dlog := l\<rparr>)"
  obtain rs hs where hs: "es = concat (map round_entries rs) @ hs" "half s hs"
    "fst ` set rs \<subseteq> {..<5}" "\<forall>j. counts_of j rs = [0..logged s j - 1]"
    using assms(1) unfolding rounds_inv_def by blast
  obtain t where "hs = [\<lparr>en_thread = i, en_root = True, en_count = cnt s i, en_time = t\<rparr>]"
    using hs(2) assms(2,3) unfolding half_def by blast
  with hs have rs: "es = concat (map round_entries rs) @ [\<lparr>en_thread = i, en_root = True, en_count = cnt s i, en_time = t\<rparr>]"
    "fst ` set rs \<subseteq> {..<5}" "\<forall>j. counts_of j rs = [0..logged s j - 1]"
    by simp_all
  let ?rs = "rs @ [(i, cnt s i, t, now)]"
  have "counts_of j ?rs = [0..logged ?s' j - 1]" for j
    using rs(3) assms(2,5) by (auto simp: counts_of_def logged_def upto_rec2)
  moreover have "half ?s' []"
    using assms(3) by (auto simp: half_def)
  ultimately show ?thesis
    unfolding rounds_inv_def using assms(4) rs(1,2) by (intro exI [of _ ?rs] exI [of _ "[]"]) simp
qed

lemma rounds_inv_step:
  assumes "demo_step ops src tids s es' s'" "inj_on tids {..<5}" "threads_inv tids s" "mu_inv owner tids s" "cnt_inv s" "rounds_inv es s"
  shows "rounds_inv (es @ es') s'"
  using assms(1)
proof cases
  case (df_log_root i now l)
  have "f1 s j \<noteq> F_log_system" for j
    using holds_unique [OF assms(4,3,2), of i j] df_log_root(3) by (auto simp: holds_def)
  then show ?thesis
    unfolding df_log_root(1,2) by (rule rounds_inv_begin [OF assms(6) df_log_root(3)])
next
  case (df_log_system i now l)
  have "i < 5"
    using called_small [OF assms(3)] df_log_system(3) by simp
  moreover have "j = i" if "f1 s j = F_log_system" for j
    using holds_unique [OF assms(4,3,2), of i j] df_log_system(3) that by (auto simp: holds_def)
  moreover have "0 \<le> cnt s i"
    using assms(5) by (simp add: cnt_inv_def)
  ultimately show ?thesis
    unfolding df_log_system(1,2) by (intro rounds_inv_complete [OF assms(6) df_log_system(3)])
next
  case (dt_call i x)
  have "f1 s i = F_not_called" "cnt s i = 0"
    using not_called [OF assms(3) dt_call(3)] assms(5) by (auto simp: cnt_inv_def)
  then show ?thesis
    using dt_call by (simp, intro rounds_inv_stay [OF assms(6), of _ i F_test 0]) (simp_all add: logged_def)
next
  case (df_lock i m)
  then show ?thesis
    by (simp, intro rounds_inv_stay [OF assms(6), of _ i F_acquired "cnt s i"]) (simp_all add: logged_def)
next
  case (df_record i)
  then show ?thesis
    by (simp, intro rounds_inv_stay [OF assms(6), of _ i F_log_root "cnt s i"]) (simp_all add: logged_def)
next
  case (df_unlock i)
  then show ?thesis
    by (simp, intro rounds_inv_stay [OF assms(6), of _ i F_release "cnt s i"]) (simp_all add: logged_def)
next
  case (df_release i)
  then show ?thesis
    by (simp, intro rounds_inv_stay [OF assms(6), of _ i F_next "cnt s i"]) (simp_all add: logged_def)
next
  case (df_next i)
  then show ?thesis
    by (simp, intro rounds_inv_stay [OF assms(6), of _ i F_test "cnt s i + 1"]) (simp_all add: logged_def)
next
  case (df_exit i)
  then show ?thesis
    by (simp, intro rounds_inv_stay [OF assms(6), of _ i F_returned "cnt s i"]) (simp_all add: logged_def)
qed (simp, rule rounds_inv_frame [OF assms(6)]; simp add: logged_def)+

section \<open>The main thread\<close>

definition main_inv :: "'m demo \<Rightarrow> bool" where
  "main_inv s \<longleftrightarrow>
     (\<forall>j. obj (thr s j) = None \<longrightarrow> (\<exists>e. par (thr s j) = Thrown e)) \<and>
     (case main_at s of
        M_new i \<Rightarrow> i \<le> 5 \<and> (\<forall>j < i. par (thr s j) = Constructed) \<and> par (thr s i) \<in> {Creating, Waiting_sem} \<and>
                   (\<forall>j > i. par (thr s j) = Creating)
      | M_join i \<Rightarrow> i \<le> 5 \<and> (\<forall>j < 5. par (thr s j) = Constructed) \<and> (\<forall>j < i. chi (thr s j) = Ended)
      | M_return \<Rightarrow> \<forall>j < 5. chi (thr s j) = Ended
      | M_terminate \<Rightarrow> \<exists>j < 5. \<exists>e. par (thr s j) = Thrown e)"

lemma tstep_obj:
  assumes "tstep tid s s'" "par s' \<noteq> par s \<or> chi s' \<noteq> chi s" "obj s = None \<Longrightarrow> \<exists>e. par s = Thrown e"
  shows "obj s' = None \<Longrightarrow> \<exists>e. par s' = Thrown e" and "par s' \<noteq> par s \<Longrightarrow> par s' \<in> {Waiting_sem, Constructed} \<or> (\<exists>e. par s' = Thrown e)"
    and "chi s \<noteq> Not_there \<Longrightarrow> chi s' \<noteq> chi s \<Longrightarrow> chi s \<noteq> Ended \<and> par s' = par s \<or> par s = Creating"
  using assms(1) by (cases rule: tstep.cases; use assms(2,3) in auto)+

text \<open>Steps of a thread other than the main one.\<close>

lemma main_inv_thread:
  assumes "main_inv s" "thr s' = (thr s)(i := x)" "main_at s' = main_at s" "par x = par (thr s i)"
    and "obj x = None \<Longrightarrow> \<exists>e. par x = Thrown e" "chi (thr s i) = Ended \<Longrightarrow> chi x = Ended"
  shows "main_inv s'"
proof -
  have "par (thr s' j) = par (thr s j)" "obj (thr s' j) = None \<Longrightarrow> \<exists>e. par (thr s j) = Thrown e"
    "chi (thr s j) = Ended \<Longrightarrow> chi (thr s' j) = Ended" for j
    using assms by (cases "j = i"; auto simp: main_inv_def)+
  then show ?thesis
    using assms(1) unfolding main_inv_def assms(3) by (auto split: main_pc.splits)
qed

lemma main_inv_same: "main_inv s \<Longrightarrow> thr s' = thr s \<Longrightarrow> main_at s' = main_at s \<Longrightarrow> main_inv s'"
  unfolding main_inv_def by metis

lemma main_inv_step:
  assumes "demo_step ops src tids s es s'" "threads_inv tids s" "main_inv s"
  shows "main_inv s'"
proof -
  have hs: "handshake_inv (tids i) (thread_name i) (thr s i)" for i
    using assms(2) by (simp add: threads_inv_def)
  have ob: "obj (thr s i) = None \<Longrightarrow> \<exists>e. par (thr s i) = Thrown e" for i
    using assms(3) by (simp add: main_inv_def)
  show ?thesis
    using assms(1)
  proof cases
    case (dm_new i x)
    have x: "obj x = None \<Longrightarrow> \<exists>e. par x = Thrown e" "par x \<in> {Waiting_sem, Constructed} \<or> (\<exists>e. par x = Thrown e)"
      using tstep_obj(1,2) [OF dm_new(5) _ ob] dm_new(6) by auto
    have old: "par (thr s j) = Constructed" if "j < i" for j
      using assms(3) dm_new(3) that by (simp add: main_inv_def)
    moreover have "par (thr s j) = Creating" if "i < j" for j
      using assms(3) dm_new(3) that by (simp add: main_inv_def)
    ultimately show ?thesis
      using x ob dm_new(4) unfolding main_inv_def dm_new(2) by (auto split: parent.splits)
  next
    case (dm_join i th th')
    then show ?thesis
      using assms(3) by (auto simp: main_inv_def less_Suc_eq)
  next
    case (dt_run i x)
    show ?thesis
      using dt_run tstep_obj(1) [OF dt_run(4) _ ob] tstep_chi(1) [OF dt_run(4,5) hs]
      by (intro main_inv_thread [OF assms(3), of _ i x]) auto
  next
    case (dt_call i x)
    then have "chi x \<noteq> chi (thr s i)"
      by simp
    then show ?thesis
      using dt_call tstep_obj(1) [OF dt_call(4) _ ob] tstep_chi(1) [OF dt_call(4) _ hs]
      by (intro main_inv_thread [OF assms(3), of _ i x]) auto
  next
    case (dt_end i x)
    then have "chi x \<noteq> chi (thr s i)"
      by simp
    then show ?thesis
      using dt_end tstep_obj(1) [OF dt_end(5) _ ob] tstep_chi(1) [OF dt_end(5) _ hs]
      by (intro main_inv_thread [OF assms(3), of _ i x]) auto
  next
    case dm_created
    then show ?thesis
      using assms(3) by (auto simp: main_inv_def)
  next
    case dm_return
    then show ?thesis
      using assms(3) by (auto simp: main_inv_def)
  qed (rule main_inv_same [OF assms(3)]; simp)+
qed

section \<open>Every run ends\<close>

primrec main_left :: "main_pc \<Rightarrow> nat" where
  "main_left (M_new i) = 20 + 3 * (5 - i)"
| "main_left (M_join i) = 7 - i"
| "main_left M_return = 0"
| "main_left M_terminate = 0"

primrec par_left :: "parent \<Rightarrow> nat" where
  "par_left Creating = 2" | "par_left Waiting_sem = 1" | "par_left Constructed = 0" | "par_left (Thrown e) = 0"

definition main_rank :: "'m demo \<Rightarrow> nat" where
  "main_rank s = main_left (main_at s) + (case main_at s of M_new i \<Rightarrow> par_left (par (thr s i)) | _ \<Rightarrow> 0)"

primrec f1_past :: "func1_pc \<Rightarrow> int" where
  "f1_past F_not_called = 0" | "f1_past F_test = 0" | "f1_past F_acquired = 1" | "f1_past F_log_root = 2"
| "f1_past F_log_system = 3" | "f1_past F_unlock = 4" | "f1_past F_release = 5" | "f1_past F_next = 6" | "f1_past F_returned = 1"

text \<open>What a thread has still to do; a round is seven steps.\<close>

primrec child_left :: "int \<Rightarrow> func1_pc \<Rightarrow> child \<Rightarrow> nat" where
  "child_left c pc Not_there = 1000" | "child_left c pc Begin = 999" | "child_left c pc Notify = 998"
| "child_left c pc Call = 997" | "child_left c pc In_func = nat (7 * (100 - c) + 2 - f1_past pc)"
| "child_left c pc Ended = 0" | "child_left c pc (Fault e) = 0"

definition thread_rank :: "'m demo \<Rightarrow> nat \<Rightarrow> nat" where
  "thread_rank s i = child_left (cnt s i) (f1 s i) (chi (thr s i))"

definition demo_rank :: "'m demo \<Rightarrow> nat" where
  "demo_rank s = main_rank s + (\<Sum>i<5. thread_rank s i)"

lemma thread_rank_same:
  assumes "thr s' i = thr s i" "cnt s' i = cnt s i" "f1 s' i = f1 s i"
  shows "thread_rank s' i = thread_rank s i"
  unfolding thread_rank_def assms ..

lemma main_rank_same:
  assumes "main_at s' = main_at s" "\<And>i. par (thr s' i) = par (thr s i)"
  shows "main_rank s' = main_rank s"
  unfolding main_rank_def assms ..

lemma rank_thread:
  assumes "main_rank s' \<le> main_rank s" "\<And>j. j \<noteq> i \<Longrightarrow> thread_rank s' j = thread_rank s j" "thread_rank s' i < thread_rank s i" "i < 5"
  shows "demo_rank s' < demo_rank s"
proof -
  have le: "thread_rank s' j \<le> thread_rank s j" for j
    using assms(2,3) by (cases "j = i") (auto simp: order.strict_implies_order)
  have "(\<Sum>j<5. thread_rank s' j) < (\<Sum>j<5. thread_rank s j)"
    by (rule sum_strict_mono_ex1) (use le assms(3,4) in auto)
  then show ?thesis
    using assms(1) by (simp add: demo_rank_def)
qed

lemma rank_main:
  assumes "main_rank s' < main_rank s" "\<And>j. j < 5 \<Longrightarrow> thread_rank s' j \<le> thread_rank s j"
  shows "demo_rank s' < demo_rank s"
  using assms(1) sum_mono [of "{..<5}" "thread_rank s'" "thread_rank s"] assms(2) by (simp add: demo_rank_def)

lemma rank_func1:
  assumes "threads_inv tids s" "cnt_inv s" "f1 s i \<noteq> F_not_called" "f1 s i \<noteq> F_returned"
    and "f1 s' = (f1 s)(i := pc)" "cnt s' = (cnt s)(i := c)" "thr s' = thr s" "main_at s' = main_at s"
    and "7 * (100 - c) + 2 - f1_past pc < 7 * (100 - cnt s i) + 2 - f1_past (f1 s i)"
  shows "demo_rank s' < demo_rank s"
proof (rule rank_thread)
  have call: "chi (thr s i) = In_func"
    using in_func1 [OF assms(1)] assms(3,4) by blast
  have "cnt s i \<le> 100" "f1 s i \<noteq> F_test \<Longrightarrow> cnt s i < 100"
    using assms(2-4) by (auto simp: cnt_inv_def)
  then have "0 < 7 * (100 - cnt s i) + 2 - f1_past (f1 s i)"
    using assms(3,4) by (cases "f1 s i") simp_all
  then show "thread_rank s' i < thread_rank s i"
    using assms(5-9) call by (simp add: thread_rank_def)
  show "i < 5"
    by (rule called_small [OF assms(1,3)])
  show "thread_rank s' j = thread_rank s j" if "j \<noteq> i" for j
    using that by (intro thread_rank_same) (simp_all add: assms(5-7))
  show "main_rank s' \<le> main_rank s"
    using main_rank_same [of s' s] by (simp add: assms(7,8))
qed

lemma demo_step_rank:
  assumes "demo_step ops src tids s es s'" "threads_inv tids s" "cnt_inv s" "main_inv s"
  shows "demo_rank s' < demo_rank s"
proof -
  have hs: "handshake_inv (tids i) (thread_name i) (thr s i)" for i
    using assms(2) by (simp add: threads_inv_def)
  have alive: "i < 5" if "chi (thr s i) \<noteq> Not_there" for i
    using assms(2) that unfolding threads_inv_def by (meson not_less)
  show ?thesis
    using assms(1)
  proof cases
    case (dm_new i x)
    have "par (thr s i) \<in> {Creating, Waiting_sem}"
      using assms(4) dm_new(3) by (simp add: main_inv_def)
    moreover have "par x \<noteq> Creating" "par (thr s i) = Creating \<Longrightarrow> par x \<noteq> Constructed"
      using dm_new(5,6) by (cases rule: tstep.cases; auto)+
    moreover have "par_left (par (thr s (Suc i))) \<le> 2"
      by (cases "par (thr s (Suc i))") simp_all
    ultimately have "main_rank s' < main_rank s"
      using dm_new(3,4,6) unfolding main_rank_def dm_new(2) by (cases "par x") auto
    moreover have "thread_rank s' j \<le> thread_rank s j" for j
      using tstep_par [OF dm_new(5,6) hs] unfolding thread_rank_def dm_new(2) by (cases "j = i") auto
    ultimately show ?thesis
      by (rule rank_main)
  next
    case dm_created
    then show ?thesis
      by (intro rank_main) (simp_all add: main_rank_def thread_rank_def)
  next
    case (dm_join i th th')
    then show ?thesis
      by (intro rank_main) (simp_all add: main_rank_def thread_rank_def)
  next
    case dm_return
    then show ?thesis
      by (intro rank_main) (simp_all add: main_rank_def thread_rank_def)
  next
    case (dt_run i x)
    have "main_rank s' = main_rank s"
      using tstep_chi(1) [OF dt_run(4,5) hs] dt_run(2,3) by (intro main_rank_same) auto
    moreover have "thread_rank s' i < thread_rank s i"
      using tstep_chi(2,3) [OF dt_run(4,5) hs] dt_run(3) unfolding thread_rank_def dt_run(2) by auto
    ultimately show ?thesis
      using alive [of i] dt_run by (intro rank_thread [of s' s i] thread_rank_same) auto
  next
    case (dt_call i x)
    have "main_rank s' = main_rank s"
      using tstep_chi(1) [OF dt_call(4) _ hs] dt_call(2-) by (intro main_rank_same) auto
    moreover have "thread_rank s' i < thread_rank s i"
      using dt_call(3,5) unfolding thread_rank_def dt_call(2) by simp
    ultimately show ?thesis
      using alive [of i] dt_call by (intro rank_thread [of s' s i] thread_rank_same) auto
  next
    case (dt_end i x)
    have "main_rank s' = main_rank s"
      using tstep_chi(1) [OF dt_end(5) _ hs] dt_end(2-) by (intro main_rank_same) auto
    moreover have "cnt s i = 100"
      using assms(3) dt_end(3) by (simp add: cnt_inv_def)
    then have "thread_rank s' i < thread_rank s i"
      using dt_end(3,4,6) unfolding thread_rank_def dt_end(2) by simp
    ultimately show ?thesis
      using alive [of i] dt_end by (intro rank_thread [of s' s i] thread_rank_same) auto
  next
    case (df_lock i m)
    then show ?thesis
      by (intro rank_func1 [OF assms(2,3), of i _ F_acquired "cnt s i"]) simp_all
  next
    case (df_record i)
    then show ?thesis
      by (intro rank_func1 [OF assms(2,3), of i _ F_log_root "cnt s i"]) simp_all
  next
    case (df_log_root i now l)
    then show ?thesis
      by (intro rank_func1 [OF assms(2,3), of i _ F_log_system "cnt s i"]) simp_all
  next
    case (df_log_system i now l)
    then show ?thesis
      by (intro rank_func1 [OF assms(2,3), of i _ F_unlock "cnt s i"]) simp_all
  next
    case (df_unlock i)
    then show ?thesis
      by (intro rank_func1 [OF assms(2,3), of i _ F_release "cnt s i"]) simp_all
  next
    case (df_release i)
    then show ?thesis
      by (intro rank_func1 [OF assms(2,3), of i _ F_next "cnt s i"]) simp_all
  next
    case (df_next i)
    then show ?thesis
      by (intro rank_func1 [OF assms(2,3), of i _ F_test "cnt s i + 1"]) simp_all
  next
    case (df_exit i)
    then show ?thesis
      by (intro rank_func1 [OF assms(2,3), of i _ F_returned "cnt s i"]) simp_all
  qed
qed

section \<open>No run gets stuck\<close>

text \<open>A mutex that nobody holds can be taken.\<close>

definition lock_available :: "'m pthread_mutex_ops \<Rightarrow> ('m \<Rightarrow> pid option) \<Rightarrow> bool" where
  "lock_available ops owner \<longleftrightarrow> (\<forall>t m. owner m = None \<longrightarrow> pthread_mutex_lock ops t m \<noteq> None)"

abbreviation can_step :: "'m pthread_mutex_ops \<Rightarrow> char list \<Rightarrow> (nat \<Rightarrow> pid) \<Rightarrow> 'm demo \<Rightarrow> bool" where
  "can_step ops src tids s \<equiv> \<exists>es s'. demo_step ops src tids s es s'"

lemma holder_can_step:
  assumes "holds (f1 s i)" "threads_inv tids s" "output_inv st fs can path tids es s" "source_path path" "5 \<le> slashes path"
  shows "can_step ops (path @ [CHR 0x00]) tids s"
proof -
  have log: "dlog s = in_demo st fs can (demo_lines st path tids es)"
    using assms(3) by (simp add: output_inv_def)
  have "chi (thr s i) = In_func"
    using assms(1) by (intro in_func1 [OF assms(2) refl]) (auto simp: holds_def)
  note logs = func1_log_lines [OF assms(4,5,2) this log]
  consider "f1 s i = F_acquired" | "f1 s i = F_log_root" | "f1 s i = F_log_system" | "f1 s i = F_unlock" | "f1 s i = F_release"
    using assms(1) by (auto simp: holds_def)
  then show ?thesis
  proof cases
    case 2
    then show ?thesis
      using df_log_root [of s i "path @ [CHR 0x00]" tids 0] logs(1) [of 0] by (simp add: log) blast
  next
    case 3
    then show ?thesis
      using df_log_system [of s i "path @ [CHR 0x00]" tids 0] logs(2) [of 0] by (simp add: log) blast
  qed (blast intro: demo_step.intros)+
qed

lemma func1_can_step:
  assumes "chi (thr s i) = In_func" "threads_inv tids s" "mu_inv owner tids s" "lock_available ops owner"
    and "output_inv st fs can path tids es s" "source_path path" "5 \<le> slashes path"
  shows "can_step ops (path @ [CHR 0x00]) tids s"
proof (cases "holds (f1 s i)")
  case True
  then show ?thesis
    by (rule holder_can_step [OF _ assms(2,5-7)])
next
  case False
  have "f1 s i \<noteq> F_not_called"
    using assms(1,2) unfolding threads_inv_def by (metis insertCI)
  then consider "f1 s i = F_test" "cnt s i < 100" | "f1 s i = F_test" "\<not> cnt s i < 100" | "f1 s i = F_next" | "f1 s i = F_returned"
    using False by (cases "f1 s i") (auto simp: holds_def)
  then show ?thesis
  proof cases
    case 1
    show ?thesis
    proof (cases "owner (m_mutex (mu s))")
      case None
      then obtain m where "lock_acquire ops (tids i) (mu s) = Some m"
        using assms(4) by (fastforce simp: lock_available_def lock_acquire_def)
      then show ?thesis
        using df_lock [OF 1] by blast
    next
      case (Some t)
      then show ?thesis
        using mu_invD(2) [OF assms(3)] holder_can_step [OF _ assms(2,5-7)] by blast
    qed
  next
    case 4
    then show ?thesis
      using dt_end [of s i tids, OF 4 assms(1) c_end [OF assms(1)]] by simp blast
  qed (blast intro: demo_step.intros)+
qed

text \<open>A thread that has been created and not ended.\<close>

lemma thread_can_step:
  assumes "chi (thr s i) \<in> {Begin, Notify, Call, In_func}" "obj (thr s i) \<noteq> None"
    and "threads_inv tids s" "mu_inv owner tids s" "lock_available ops owner"
    and "output_inv st fs can path tids es s" "source_path path" "5 \<le> slashes path"
  shows "can_step ops (path @ [CHR 0x00]) tids s"
proof -
  obtain th where th: "obj (thr s i) = Some th"
    using assms(2) by blast
  consider "chi (thr s i) = Begin" | "chi (thr s i) = Notify" | "chi (thr s i) = Call" | "chi (thr s i) = In_func"
    using assms(1) by blast
  then show ?thesis
  proof cases
    case 1
    obtain loc th' where "run_begin (tids i) (chi_locals (thr s i)) th = (loc, th')"
      by fastforce
    from dt_run [of s i tids, OF _ c_begin [OF 1 th this]] 1 show ?thesis
      by simp blast
  next
    case 2
    from dt_run [of s i tids, OF _ c_notify [OF 2 th, of "m_semaphore th + 1"]] 2 show ?thesis
      by simp blast
  next
    case 3
    from dt_call [of s i tids, OF 3 c_call [OF 3 th]] show ?thesis
      by simp blast
  next
    case 4
    then show ?thesis
      by (rule func1_can_step [OF _ assms(3-8)])
  qed
qed

lemma demo_progress:
  assumes "threads_inv tids s" "mu_inv owner tids s" "lock_available ops owner"
    and "output_inv st fs can path tids es s" "source_path path" "5 \<le> slashes path" "main_inv s"
    and "main_at s \<noteq> M_return" "main_at s \<noteq> M_terminate"
  shows "can_step ops (path @ [CHR 0x00]) tids s"
proof -
  have hs: "handshake_inv (tids i) (thread_name i) (thr s i)" for i
    using assms(1) by (simp add: threads_inv_def)
  have obj: "\<exists>th. obj (thr s i) = Some th" if "\<And>e. par (thr s i) \<noteq> Thrown e" for i
    using assms(7) that by (cases "obj (thr s i)") (auto simp: main_inv_def)
  note thread = thread_can_step [OF _ _ assms(1-6)]
  consider i where "main_at s = M_new i" "i < 5" | "main_at s = M_new 5" | i where "main_at s = M_join i" "i < 5" | "main_at s = M_join 5"
    using assms(7-9) by (cases "main_at s") (auto simp: main_inv_def le_less)
  then show ?thesis
  proof cases
    case (1 i)
    then have pars: "par (thr s i) = Creating \<or> par (thr s i) = Waiting_sem"
      using assms(7) by (simp add: main_inv_def)
    then obtain th where th: "obj (thr s i) = Some th"
      using obj [of i] by auto
    show ?thesis
    proof (cases "par (thr s i) = Creating")
      case True
      from dm_new [of s i tids, OF 1 p_create [OF True th, of 1]] True show ?thesis
        by simp blast
    next
      case False
      then have wait: "par (thr s i) = Waiting_sem"
        using pars by blast
      show ?thesis
      proof (cases "chi (thr s i) \<in> {Begin, Notify}")
        case True
        then show ?thesis
          using thread [of i] th by auto
      next
        case False
        then have "m_semaphore th = 1"
          using hs [of i] wait th by (cases "chi (thr s i)") (auto simp: handshake_inv_def)
        from dm_new [of s i tids, OF 1 p_wait [OF wait th, of 0]] this wait show ?thesis
          by simp blast
      qed
    qed
  next
    case (3 i)
    then have con: "par (thr s i) = Constructed"
      using assms(7) by (simp add: main_inv_def)
    then obtain th where th: "obj (thr s i) = Some th"
      using obj [of i] by auto
    show ?thesis
    proof (cases "chi (thr s i) = Ended")
      case True
      obtain th' where "Thread_join 0 th = Inr th'"
        by (cases "Thread.m_thread th = 0") (auto simp: Thread_join_def)
      from dm_join [OF 3 th True this] show ?thesis
        by blast
    next
      case False
      then have "chi (thr s i) \<in> {Begin, Notify, Call, In_func}"
        using hs [of i] con th by (auto simp: handshake_inv_def)
      then show ?thesis
        using thread [of i] th by blast
    qed
  qed (blast intro: demo_step.intros)+
qed

section \<open>The example is correct\<close>

definition demo_inv ::
  "('m \<Rightarrow> pid option) \<Rightarrow> (string \<Rightarrow> u64 \<Rightarrow> string) \<Rightarrow> (string \<Rightarrow> string) \<Rightarrow> (string \<Rightarrow> bool) \<Rightarrow> string \<Rightarrow> (nat \<Rightarrow> pid) \<Rightarrow>
   entry list \<Rightarrow> 'm demo \<Rightarrow> bool" where
  "demo_inv owner st fs can path tids es s \<longleftrightarrow>
     threads_inv tids s \<and> mu_inv owner tids s \<and> output_inv st fs can path tids es s \<and> cnt_inv s \<and> rounds_inv es s \<and> main_inv s"

lemma demo_inv_start:
  assumes "pthread_mutex_spec ops init owner"
  shows "demo_inv owner st fs can path tids [] (demo_start init (at_main st fs can))" (is "demo_inv _ _ _ _ _ _ _ ?s")
proof -
  have "output_inv st fs can path tids [] ?s"
    by (simp add: output_inv_def demo_start_def main_appenders_eq demo_lines_def)
  moreover have "cnt_inv ?s" "main_inv ?s"
    by (simp_all add: cnt_inv_def main_inv_def demo_start_def tsys_init_def)
  moreover have "rounds_inv [] ?s"
    by (auto simp: rounds_inv_def half_def demo_start_def counts_of_def logged_def intro!: exI [of _ "[]"])
  ultimately show ?thesis
    using threads_inv_start mu_inv_start [OF assms] by (auto simp: demo_inv_def)
qed

lemma demo_runs_inv:
  assumes "demo_runs ops (path @ [CHR 0x00]) tids (demo_start init (at_main st fs can)) n es s"
    and "pthread_mutex_spec ops init owner" "inj_on tids {..<5}" "source_path path" "5 \<le> slashes path"
  shows "demo_inv owner st fs can path tids es s \<and> demo_rank s + n \<le> 5037"
  using assms(1)
proof induction
  case demo_refl
  have "demo_rank (demo_start init (at_main st fs can)) = 5037"
    by (simp add: demo_rank_def main_rank_def thread_rank_def demo_start_def tsys_init_def)
  then show ?case
    using demo_inv_start [OF assms(2)] by simp
next
  case (demo_more n es s es' s')
  then have inv: "threads_inv tids s" "mu_inv owner tids s" "output_inv st fs can path tids es s" "cnt_inv s" "rounds_inv es s" "main_inv s"
    by (auto simp: demo_inv_def)
  note step = demo_more.hyps(2)
  have "demo_inv owner st fs can path tids (es @ es') s'"
    unfolding demo_inv_def using threads_inv_step [OF step inv(1)] mu_inv_step [OF step assms(2,3) inv(1,2)]
      output_inv_step [OF step assms(4,5) inv(1,3)] cnt_inv_step [OF step inv(4)]
      rounds_inv_step [OF step assms(3) inv(1,2,4,5)] main_inv_step [OF step inv(1,6)] by blast
  then show ?case
    using demo_step_rank [OF step inv(1,4,6)] demo_more.IH by simp
qed

lemma length_by_thread:
  "fst ` set rs \<subseteq> {..<5} \<Longrightarrow> length rs = (\<Sum>i<5. length (counts_of i rs))"
proof (induction rs)
  case (Cons r rs)
  then have "(\<Sum>i<5. if fst r = i then 1 else 0 :: nat) = 1"
    by simp
  moreover have "length (counts_of i (r # rs)) = length (counts_of i rs) + (if fst r = i then 1 else 0)" for i
    by (simp add: counts_of_def)
  ultimately show ?case
    using Cons by (simp add: sum.distrib)
qed (simp add: counts_of_def)

lemma all_returned:
  assumes "demo_inv owner st fs can path tids es s" "\<forall>i<5. chi (thr s i) = Ended"
  shows "\<exists>rs. es = concat (map round_entries rs) \<and> length rs = 500 \<and> (\<forall>i<5. counts_of i rs = [0..99])"
    and "Mutex_dtor (mu s) = Inr ()"
proof -
  have inv: "threads_inv tids s" "mu_inv owner tids s" "cnt_inv s" "rounds_inv es s"
    using assms(1) by (auto simp: demo_inv_def)
  have ret: "f1 s i = F_returned \<or> f1 s i = F_not_called" for i
    using ended_returned [OF inv(1)] assms(2) called_small [OF inv(1), of i] by blast
  obtain rs hs where rs: "es = concat (map round_entries rs) @ hs" "half s hs" "fst ` set rs \<subseteq> {..<5}"
    "\<forall>i. counts_of i rs = [0..logged s i - 1]"
    using inv(4) unfolding rounds_inv_def by blast
  have "f1 s i \<noteq> F_log_system" for i
    using ret [of i] by auto
  then have "hs = []"
    using rs(2) by (simp add: half_def)
  moreover have cnts: "counts_of i rs = [0..99]" if "i < 5" for i
  proof -
    have "f1 s i = F_returned"
      using ended_returned [OF inv(1)] assms(2) that by blast
    then show ?thesis
      using rs(4) inv(3) by (simp add: logged_def cnt_inv_def)
  qed
  moreover have "length rs = 500"
    using length_by_thread [OF rs(3)] cnts by (simp del: upto_rec_numeral)
  ultimately show "\<exists>rs. es = concat (map round_entries rs) \<and> length rs = 500 \<and> (\<forall>i<5. counts_of i rs = [0..99])"
    using rs(1) by (intro exI [of _ rs]) (simp del: upto_rec_numeral)
  have "\<not> recorded (f1 s i)" for i
    using ret [of i] by (auto simp: recorded_def)
  then have "Mutex.m_thread (mu s) = 0"
    using mu_invD(3) [OF inv(2)] by blast
  then show "Mutex_dtor (mu s) = Inr ()"
    by (simp add: Mutex_dtor_def)
qed



end
