(* ===== verification/Spec2Isabelle.thy ===== *)
theory Spec2Isabelle
  imports EVA_RWMutex EVA_Util EVA_Drain EVA_HookRuns EVA_ThreadExample
begin

text \<open>
  A verification of EVA01, a C++ library of fibers scheduled over threads with file events, timers,
  hooked system calls and logging. The library is under \<open>src/src/\<close>, two example programs under \<open>src/examples/\<close>.

  \<^bold>\<open>The program.\<close> A \<open>Fiber\<close> is a function with a stack of its own that runs until it yields. A
  \<open>Scheduler\<close> owns a pool of \<open>Thread\<close>s whose \<open>run()\<close> takes tasks (functions or fibers) from one queue;
  a thread with nothing to do runs the fiber \<open>idle()\<close>, which waits in \<open>epoll_wait\<close> until a pipe, a file
  event or the next timer wakes it. A \<open>TimerManager\<close> keeps the timers in a \<open>std::set\<close> ordered by
  deadline. The \<open>IOManager\<close> extends the scheduler: it registers a fiber or a function for the events
  READ and WRITE of a descriptor and queues it when \<open>epoll\<close> reports them. The hooks replace the
  blocking system calls: a call that would block registers its fiber with the IO manager, arms a
  timer if the descriptor has a timeout, and yields. \<open>FdManager\<close> keeps what the hooks know of each
  descriptor. Everything logs through \<open>Logger\<close>s with appenders and formatters.

  \<^bold>\<open>The theories.\<close>
  \<^item> \<open>EVA_Prelude\<close>: results (\<open>Inl\<close> is an abort: a failed \<open>EVA_ASSERT\<close>, an index out of bounds, a null
    pointer, an exception), vectors, machine words.
  \<^item> \<open>Std_Set\<close>: \<open>std::set\<close> with a comparator; the locale \<open>comparator\<close> is what a comparator owes it.
  \<^item> \<open>EVA_Mutex\<close>, \<open>EVA_RWMutex\<close> (\<open>mutex.h\<close>): \<open>Mutex\<close> as a step relation of its threads, and the three guards;
    \<open>RWMutex\<close> and threads that use it through scopes of its guards.
  \<^item> \<open>EVA_Thread\<close> (\<open>thread.*\<close>, \<open>semaphore.*\<close>): the constructor and the new thread as a step relation.
  \<^item> \<open>EVA_Timer\<close> (\<open>timer.*\<close>): every operation of timers and manager; the locale \<open>timer_service\<close> is the
    contract of a poll, interpreted on the manager.
  \<^item> \<open>EVA_Fiber\<close> (\<open>fiber.*\<close>): creation, reset, call and the yields on a heap of fibers with the
    thread-local pointers; a function is a program of effects and yields.
  \<^item> \<open>EVA_Scheduler\<close> (\<open>scheduler.*\<close>): the operations, then \<open>run()\<close> and \<open>idle()\<close> as the step relation
    \<open>wstep\<close> with one rule per critical section or atomic access, for any number of threads.
    \<open>EVA_Stop\<close>: how the workers leave once there is nothing to do; \<open>EVA_Race\<close>: a race of two workers.
  \<^item> \<open>EVA_FdManager\<close> (\<open>fd_manager.*\<close>): contexts and their table; the locale \<open>fd_table\<close> is the table's
    contract, interpreted on \<open>get\<close> and \<open>del\<close>.
  \<^item> \<open>EVA_IOManager\<close> (\<open>iomanager.*\<close>): the operations and the invariant; \<open>EVA_IOEvents\<close>: the abstract
    view \<open>registered\<close> and how every operation acts on it. The locale \<open>wake_once\<close> is the contract of what
    can be woken from several sides, interpreted on the IO manager and on the hooked calls.
  \<^item> \<open>EVA_Idle\<close>: a round of \<open>idle()\<close> with the reports of \<open>epoll_wait\<close>, as a function, and the destructor of
    the IO manager. \<open>EVA_System\<close>: the scheduler's step relation composed with the operations on file
    events, its simulation by the scheduler alone, and the round of \<open>idle()\<close> as one of its runs.
    \<open>EVA_Wake\<close>: what will wake a fiber that waits, followed through every step of the composed system;
    \<open>EVA_Drain\<close>: what \<open>stop()\<close> means for fibers that wait.
  \<^item> \<open>EVA_HookCtl\<close>, \<open>EVA_HookIO\<close> (\<open>hook.*\<close>): the control calls and the blocking calls; \<open>EVA_HookWait\<close>:
    what the blocking calls promise. \<open>EVA_HookRuns\<close>: the hooked sleeps and waits as runs of the composed
    system, through a relation between the hooks' state and the system's.
  \<^item> \<open>EVA_Log\<close> (\<open>log.*\<close>): levels, pattern parser, items, appenders, loggers, manager; \<open>EVA_Startup\<close>
    (\<open>singleton.h\<close>, \<open>hook_init\<close> and the static objects): what runs before \<open>main\<close>.
  \<^item> \<open>EVA_Examples\<close> (\<open>examples/logging.cpp\<close>): the program as a function of the logger's state;
    \<open>EVA_ThreadExample\<close> (\<open>examples/thread.cpp\<close>): the main thread and its five threads as a step relation
    made of those of \<open>Thread\<close> and \<open>Mutex\<close> and of logging statements.
  \<^item> \<open>EVA_Util\<close> (\<open>util.*\<close>): clock, \<open>SleepMs\<close>, backtraces. This theory joins them.

  \<^bold>\<open>How code becomes definitions.\<close> A class is a record whose fields are its members; definitions have
  the methods' names, prefixed by the class where names clash. Objects held through pointers
  (fibers, timers, contexts, appenders, loggers) live in heaps, so sharing is as in the code. A
  \<open>uint64_t\<close> is a 64-bit word and wraps; C \<open>int\<close> is \<open>int\<close> with conversions written out. Code outside the
  repository is a parameter with its documented behaviour as a named predicate:
  \<open>pthread_mutex_spec\<close>, \<open>pthread_rwlock_spec\<close>, \<open>ucontext_ok\<close>, \<open>epoll_spec\<close>, \<open>os_spec\<close> (\<open>fstat\<close>, \<open>fcntl\<close>), \<open>ioctl_spec\<close>; each is met by a
  concrete instance in a witness. The clock, addresses given by the allocator and return codes of
  single calls are arguments.

  \<^bold>\<open>What is shown.\<close>
  \<^item> Scheduler: tasks are taken in order and exactly once, \<open>stop()\<close> ends only with an empty queue and
    does end, within a bound on the workers' steps, once \<open>shouldStop()\<close> holds; the two counters are exact in every run; what taking a task does on every queue; and where the
    code goes wrong: a dropped task that keeps \<open>stop()\<close> from returning, a window in which a task
    taken is not yet counted, and a look at a fiber's state that comes too late. No wake-up is lost: a
    fiber that waits keeps a timer, a registration, a task or a worker that will call it, and \<open>stop()\<close>
    returns only after it was called, unless two workers misjudge each other.
  \<^item> Timers: the set stays sorted under every operation; a poll returns exactly the functions that
    are due; a one-shot timer fires once and a recurring one keeps its phase; \<open>cancel\<close>, \<open>refresh\<close>; a
    cancellation lost to a concurrent refresh; \<open>idle()\<close> never sleeps past a deadline.
  \<^item> Fibers: a fiber's successive calls perform exactly what its function performs, in order; states
    and thread-local pointers stay consistent.
  \<^item> IO manager: the kernel's interest list follows the registrations under every sequence of
    operations; \<open>addEvent\<close> and the handling of a report refine the abstract view; a round of \<open>idle()\<close>
    queues exactly what is due and what is reported; every run of the whole system is a run of the
    scheduler, and where \<open>shouldStop()\<close> holds nothing is registered, so that destruction is clean; that
    an event reported before its fiber has yielded aborts; a race of two resizes.
  \<^item> Hooks: a blocking call waits, its event or its timeout ends it, and however the two race its
    fiber is queued once; an interrupted call is retried, \<open>close\<close> releases the waiters,
    sleeps park and wake their fiber and for which arguments they are exact; the flags and timeouts
    a user sets are the ones they read; sleeps and waits are runs of the composed system, so that no
    wake-up of a hooked call is lost; that a second wait for an event aborts, and what a close on a
    thread without hooks leaves behind.
  \<^item> Logging: patterns and item lists correspond both ways, a logging statement writes to exactly the
    right sinks, every reachable manager is well formed, and when \<open>%f{n}\<close> reads past the file name;
    in whatever order the static objects are made there is one manager and every original function.
  \<^item> Threads and mutexes: the constructor's handshake in every interleaving; the recorded owner is
    exact; readers and writers exclude each other; what each guard releases, and the lock that an
    uninitialised flag leaves behind for ever.
  \<^item> Examples: what the logging example writes, line by line; in every interleaving the thread example ends
    within 5037 steps, without getting stuck, with a thousand lines in unbroken pairs.

  \<^bold>\<open>Loops.\<close> All definitions are total without fuel, but for three loops that may run for ever:
  \<open>find_task\<close> (the search of \<open>run()\<close>), \<open>eintr_loop\<close> (the retry of \<open>do_io\<close>) and \<open>idle_wait\<close> (the loop around
  \<open>epoll_wait\<close>) are partial functions into options in which \<open>None\<close> means that the loop never ends, and theorems say exactly when it does.

  \<^bold>\<open>Not modelled.\<close> The memory of stacks and its allocation; \<open>Noncopyable\<close>, which only deletes member
  functions; \<open>GetThreadId\<close>, a system call; the tests. Log output of the other components
  is left out of their models. Data races on plain members are not visible where a step of the
  model is a critical section, and in the composed system an operation on file events is one step
  although others may reach the scheduler between its accesses. The blocking calls are modelled one
  at a time, each from its start to its wait and from its wake-up on: the first part is shown to be a run
  of the composed system, the part after the wake-up is not. A logging statement of the examples is one
  step, as every operation of a logger holds its mutex.
\<close>

section \<open>The idle loop and the timers\<close>

text \<open>
  C38. An idle worker never sleeps past a timer: the timeout \<open>idle()\<close> computes from \<open>getNextTimeMs()\<close> is
  at most three seconds, ends no later than any deadline in the set, and is zero when a deadline
  has passed.
\<close>

theorem idle_never_oversleeps:
  assumes "tm_wf (m_timer_manager s)" "armed (m_timer_manager s) p = Some d"
    and w: "w = idle_timeout (getNextTimeMs now (m_timer_manager s))"
  shows "w \<le> 3000 \<and> (now \<le> d \<longrightarrow> unat now + unat w \<le> unat d) \<and> (d \<le> now \<longrightarrow> w = 0)"
proof -
  let ?tm = "m_timer_manager s"
  have p: "p \<in> set (m_timers ?tm)" "m_next (timer_heap ?tm p) = d"
    using assms(2) by (auto simp: armed_def split: if_splits)
  obtain q ps where q: "m_timers ?tm = q # ps"
    using p(1) by (cases "m_timers ?tm") auto
  define m where "m = m_next (timer_heap ?tm q)"
  have first: "m \<le> d"
    using assms(1) p q before_next by (fastforce simp: tm_wf_def m_def)
  have next_ms: "getNextTimeMs now ?tm = (if now < m then m - now else 0)"
    by (simp add: getNextTimeMs_def q m_def)
  have le: "w \<le> 3000"
    by (simp add: w idle_timeout_def EPOLL_WAIT_TIMEOUT_MS_def less_imp_le)
  have "w = 0" if "\<not> now < m"
    using that by (simp add: w next_ms idle_timeout_def EPOLL_WAIT_TIMEOUT_MS_def)
  moreover have "unat now + unat w \<le> unat d" if "now < m"
  proof -
    have "w \<le> m - now"
      using that by (auto simp: w next_ms idle_timeout_def EPOLL_WAIT_TIMEOUT_MS_def not_less)
    then have "unat w \<le> unat m - unat now"
      using unat_sub [OF less_imp_le [OF that]] by (simp add: word_le_nat_alt)
    then show ?thesis
      using first that by (simp add: word_le_nat_alt word_less_nat_alt)
  qed
  ultimately show ?thesis
    using le first by (cases "now < m") (auto simp: word_le_nat_alt word_less_nat_alt)
qed

text \<open>One timer, due in a second.\<close>

definition ex_timer_sched :: Scheduler where
  "ex_timer_sched = ex_sched\<lparr>m_timer_manager :=
     \<lparr>timer_heap = (\<lambda>_. \<lparr>m_period = 1000, m_next = 1500, m_func = Return, m_recurring = False\<rparr>), m_timers = [0]\<rparr>\<rparr>"

theorem idle_never_oversleeps_witness:
  "unat (500 :: u64) + unat (idle_timeout (getNextTimeMs 500 (m_timer_manager ex_timer_sched))) \<le> 1500"
  using idle_never_oversleeps [of ex_timer_sched 0 1500 _ 500, OF _ _ refl]
  by (simp add: ex_timer_sched_def tm_wf_def armed_def)

end
